(* ===== verification/Prelude.thy ===== *)
theory Prelude
  imports Main "HOL-Library.Word" "HOL-Library.Multiset"
begin

text \<open>
  Shared vocabulary of the development: the machine types of the Rust sources, the
  fault-or-value results in which every panic of the source is a value, checked vector
  access, and generic lemmas on lists that several components use.

  Integer conventions. Account numbers, amounts and balances (\<open>u64\<close>) are
  \<open>64 word\<close> and wrap around, which is what a release build of the crates computes (their
  manifests do not switch overflow checks on). \<open>usize\<close> values that count transactions,
  incarnations or vector positions are \<open>nat\<close>.
\<close>

section \<open>Machine types and faults\<close>

type_synonym usize = nat
type_synonym u64 = "64 word"
type_synonym u32 = "32 word"

text \<open>\<open>usize\<close> arithmetic where it may wrap: a 64 bit target, as deployed.\<close>

definition usize_add :: "usize \<Rightarrow> usize \<Rightarrow> usize" where
  "usize_add a b = (a + b) mod 2 ^ 64"

definition usize_sub :: "usize \<Rightarrow> usize \<Rightarrow> usize" where
  "usize_sub a b = (if b \<le> a then a - b else 2 ^ 64 + a - b)"

definition usize_mul :: "usize \<Rightarrow> usize \<Rightarrow> usize" where
  "usize_mul a b = (a * b) mod 2 ^ 64"

text \<open>
  A fault is a panic of the source, tagged with the construct that raises it. The last tag,
  \<open>Spin\<close>, marks a loop iteration that can only repeat itself until another thread moves.
\<close>

datatype fault =
    AssertFailed
  | ExpectFailed
  | UnreachableReached
  | IndexOutOfBounds
  | DivideByZero
  | Spin

type_synonym 'a rust = "fault + 'a"

named_theorems fault_simps \<open>case rules for fault-or-value computations\<close>

fun rbind :: "'a rust \<Rightarrow> ('a \<Rightarrow> 'b rust) \<Rightarrow> 'b rust" where
  "rbind (Inl e) f = Inl e"
| "rbind (Inr x) f = f x"

lemma rbind_eq_Inr [fault_simps]: "rbind m f = Inr y \<longleftrightarrow> (\<exists>x. m = Inr x \<and> f x = Inr y)"
  by (cases m) auto

lemma rbind_eq_Inl [fault_simps]:
  "rbind m f = Inl e \<longleftrightarrow> m = Inl e \<or> (\<exists>x. m = Inr x \<and> f x = Inl e)"
  by (cases m) auto

text \<open>Vector access as Rust does it: an index out of range is a fault.\<close>

definition vget :: "'a list \<Rightarrow> usize \<Rightarrow> 'a rust" where
  "vget xs i = (if i < length xs then Inr (xs ! i) else Inl IndexOutOfBounds)"

definition vset :: "'a list \<Rightarrow> usize \<Rightarrow> 'a \<Rightarrow> 'a list rust" where
  "vset xs i v = (if i < length xs then Inr (xs[i := v]) else Inl IndexOutOfBounds)"

lemma vget_eq_Inr [fault_simps]: "vget xs i = Inr v \<longleftrightarrow> i < length xs \<and> v = xs ! i"
  by (auto simp: vget_def)

lemma vset_eq_Inr [fault_simps]: "vset xs i v = Inr ys \<longleftrightarrow> i < length xs \<and> ys = xs[i := v]"
  by (auto simp: vset_def)

lemma vget_in_range [simp]: "i < length xs \<Longrightarrow> vget xs i = Inr (xs ! i)"
  by (simp add: vget_def)

lemma vset_in_range [simp]: "i < length xs \<Longrightarrow> vset xs i v = Inr (xs[i := v])"
  by (simp add: vset_def)

text \<open>Remainder and division of \<open>usize\<close> values: a zero divisor is a fault.\<close>

definition rrem :: "usize \<Rightarrow> usize \<Rightarrow> usize rust" where
  "rrem a b = (if b = 0 then Inl DivideByZero else Inr (a mod b))"

definition rdiv :: "usize \<Rightarrow> usize \<Rightarrow> usize rust" where
  "rdiv a b = (if b = 0 then Inl DivideByZero else Inr (a div b))"

lemma rrem_pos [simp]: "0 < b \<Longrightarrow> rrem a b = Inr (a mod b)"
  by (simp add: rrem_def)

lemma rdiv_pos [simp]: "0 < b \<Longrightarrow> rdiv a b = Inr (a div b)"
  by (simp add: rdiv_def)

text \<open>A \<open>for\<close> loop whose body may fault: it stops at the first fault.\<close>

fun rfold :: "('a \<Rightarrow> 's \<Rightarrow> 's rust) \<Rightarrow> 'a list \<Rightarrow> 's \<Rightarrow> 's rust" where
  "rfold f [] s = Inr s"
| "rfold f (x # xs) s = rbind (f x s) (rfold f xs)"

lemma rfold_Nil_fun [simp]: "rfold f [] = Inr"
  by (rule ext) simp

lemma rbind_return [simp]: "rbind m Inr = m"
  by (cases m) simp_all

lemma rfold_append: "rfold f (xs @ ys) s = rbind (rfold f xs s) (rfold f ys)"
proof (induction xs arbitrary: s)
  case (Cons x xs)
  then show ?case by (cases "f x s") auto
qed simp

lemma rfold_snoc: "rfold f (xs @ [x]) s = rbind (rfold f xs s) (f x)"
  by (cases "rfold f xs s") (simp_all add: rfold_append)

text \<open>An invariant kept by every successful iteration holds after the loop.\<close>

lemma rfold_invariant:
  assumes "rfold f xs s = Inr s'" and "P s"
    and step: "\<And>x s s'. x \<in> set xs \<Longrightarrow> P s \<Longrightarrow> f x s = Inr s' \<Longrightarrow> P s'"
  shows "P s'"
  using assms
proof (induction xs arbitrary: s)
  case (Cons x xs)
  from Cons.prems(1) obtain s1 where "f x s = Inr s1" and "rfold f xs s1 = Inr s'"
    by (auto simp: fault_simps)
  with Cons.prems Cons.IH[of s1] show ?case by auto
qed simp

section \<open>Lists\<close>

lemma set_concat_nth: "x \<in> set (concat xss) \<longleftrightarrow> (\<exists>j < length xss. x \<in> set (xss ! j))"
  by (metis UN_iff in_set_conv_nth set_concat)

lemma set_concat_update_subset:
  "set (concat (xss[j := ys])) \<subseteq> set ys \<union> set (concat xss)"
  using set_update_subset_insert[of xss j ys] by auto

lemma set_concat_update_snoc:
  "j < length xss \<Longrightarrow> set (concat (xss[j := xss ! j @ [x]])) = insert x (set (concat xss))"
  by (induction xss arbitrary: j) (auto split: nat.splits)

lemma set_concat_update_Nil:
  "distinct (concat xss) \<Longrightarrow> j < length xss \<Longrightarrow>
   set (concat (xss[j := []])) = set (concat xss) - set (xss ! j)"
proof (induction xss arbitrary: j)
  case (Cons xs xss)
  show ?case
  proof (cases j)
    case (Suc j')
    then have "set (xss ! j') \<subseteq> set (concat xss)" using Cons.prems by (auto intro: nth_mem)
    with Cons Suc show ?thesis by auto
  qed (use Cons.prems in auto)
qed simp

lemma distinct_concat_update_snoc:
  assumes "distinct (concat xss)" and "j < length xss" and "x \<notin> set (concat xss)"
  shows "distinct (concat (xss[j := xss ! j @ [x]]))"
  using assms
proof (induction xss arbitrary: j)
  case (Cons xs xss)
  show ?case
  proof (cases j)
    case (Suc j')
    with Cons.prems have j': "j' < length xss" by simp
    then have "set (xss ! j') \<subseteq> set (concat xss)" by (auto intro: nth_mem)
    with set_concat_update_subset[of xss j' "xss ! j' @ [x]"]
    have "set (concat (xss[j' := xss ! j' @ [x]])) \<subseteq> insert x (set (concat xss))" by auto
    moreover have "distinct (concat (xss[j' := xss ! j' @ [x]]))"
      using Cons j' by simp
    ultimately show ?thesis using Cons.prems Suc by auto
  qed (use Cons.prems in auto)
qed simp

lemma distinct_concat_update_Nil:
  "distinct (concat xss) \<Longrightarrow> distinct (concat (xss[j := []]))"
proof (induction xss arbitrary: j)
  case (Cons xs xss)
  show ?case
  proof (cases j)
    case (Suc j')
    with Cons set_concat_update_subset[of xss j' "[]"] show ?thesis by auto
  qed (use Cons.prems in auto)
qed simp

lemma distinct_concat_nth_inj:
  assumes "distinct (concat xss)" and "i < length xss" and "j < length xss"
    and "x \<in> set (xss ! i)" and "x \<in> set (xss ! j)"
  shows "i = j"
  using assms
proof (induction xss arbitrary: i j)
  case (Cons xs xss)
  have notin: "x \<notin> set xs" if "k < length xss" "x \<in> set (xss ! k)" for k
  proof -
    from that have "x \<in> set (concat xss)" unfolding set_concat_nth by blast
    with Cons.prems(1) show ?thesis by auto
  qed
  show ?case
  proof (cases i; cases j)
    fix i' j' assume ij: "i = Suc i'" "j = Suc j'"
    with Cons.prems have "i' = j'" by (intro Cons.IH) auto
    with ij show ?thesis by simp
  qed (use Cons.prems notin in auto)
qed simp

end
