(* ===== verification/F64.thy ===== *)
theory F64
  imports Complex_Main "HOL-Library.Log_Nat" Prelude
begin

text \<open>
  The few \<open>f64\<close> operations the crates use, on the non-negative finite values they are used
  with. A double is a rational number; every operation rounds its exact result to 53
  significant bits, ties to even. The sources stay between \<open>2^-64\<close> and \<open>2^129\<close>, far from
  the subnormal and the overflow range, which are left out.
\<close>

definition pow2 :: "int \<Rightarrow> rat" where
  "pow2 e = (if 0 \<le> e then 2 ^ nat e else 1 / 2 ^ nat (- e))"

text \<open>The exponent \<open>k\<close> with \<open>2^k \<le> x < 2^(k+1)\<close>, from the bit lengths of the fraction.\<close>

definition binary_exponent :: "rat \<Rightarrow> int" where
  "binary_exponent x =
     (let (p, q) = quotient_of x;
          k = int (floorlog 2 (nat p)) - int (floorlog 2 (nat q))
      in if pow2 k \<le> x then k else k - 1)"

definition round_half_even :: "rat \<Rightarrow> int" where
  "round_half_even y =
     (let f = \<lfloor>y\<rfloor>; r = y - of_int f
      in if r < 1 / 2 then f else if r > 1 / 2 then f + 1 else if even f then f else f + 1)"

definition f64_round :: "rat \<Rightarrow> rat" where
  "f64_round x =
     (if x \<le> 0 then 0
      else let e = binary_exponent x - 52
           in of_int (round_half_even (x / pow2 e)) * pow2 e)"

definition f64_of_usize :: "usize \<Rightarrow> rat" where
  "f64_of_usize n = f64_round (of_nat n)"

definition f64_mul :: "rat \<Rightarrow> rat \<Rightarrow> rat" where
  "f64_mul a b = f64_round (a * b)"

definition f64_div :: "rat \<Rightarrow> rat \<Rightarrow> rat" where
  "f64_div a b = f64_round (a / b)"

text \<open>\<open>as usize\<close> truncates and saturates.\<close>

definition f64_to_usize :: "rat \<Rightarrow> usize" where
  "f64_to_usize x = min (nat \<lfloor>x\<rfloor>) (2 ^ 64 - 1)"

section \<open>Laws\<close>

lemma pow2_pos [simp]: "0 < pow2 e"
  by (simp add: pow2_def)

lemma pow2_nz [simp]: "pow2 e \<noteq> 0"
  by (rule less_imp_neq[OF pow2_pos, symmetric])

lemma round_half_even_int [simp]: "round_half_even (of_int m) = m"
  by (simp add: round_half_even_def)

lemma round_half_even_nonneg: "0 \<le> y \<Longrightarrow> 0 \<le> round_half_even y"
  by (auto simp: round_half_even_def Let_def)

lemma f64_round_nonneg [simp]: "0 \<le> f64_round x"
proof (cases "x \<le> 0")
  case False
  have "0 \<le> x / pow2 (binary_exponent x - 52)" using False by (simp add: less_imp_le)
  then have "0 \<le> round_half_even (x / pow2 (binary_exponent x - 52))" by (rule round_half_even_nonneg)
  with False show ?thesis by (simp add: f64_round_def Let_def less_imp_le)
qed (simp add: f64_round_def)

lemma f64_round_0 [simp]: "f64_round 0 = 0"
  by (simp add: f64_round_def)

text \<open>Numbers of at most 53 bits are doubles.\<close>

lemma binary_exponent_nat:
  assumes "0 < n"
  shows "binary_exponent (of_nat n) = int (floorlog 2 n) - 1"
proof -
  have q: "quotient_of (of_nat n :: rat) = (int n, 1)"
    using quotient_of_int[of "int n"] by simp
  have one: "floorlog 2 (Suc 0) = 1" by (simp add: floorlog_def)
  obtain k where k: "floorlog 2 n = Suc k"
    using assms by (cases "floorlog 2 n") (auto simp: floorlog_def)
  have "2 ^ k \<le> n" using floorlog_bounds[of n 2] assms k by simp
  then have "2 ^ k \<le> (of_nat n :: rat)" by (metis of_nat_le_iff of_nat_numeral of_nat_power)
  then show ?thesis by (simp add: binary_exponent_def q one pow2_def k)
qed

lemma f64_of_usize_exact:
  assumes "n < 2 ^ 53"
  shows "f64_of_usize n = of_nat n"
proof (cases "n = 0")
  case False
  then have n: "0 < n" by simp
  have "floorlog 2 n \<le> 53" using assms by (simp add: floorlog_le_iff)
  then obtain d where d: "53 - floorlog 2 n = d" "int (floorlog 2 n) - 1 - 52 = - int d" by auto
  have p: "pow2 (- int d) = 1 / 2 ^ d" by (cases "d = 0") (simp_all add: pow2_def)
  have "of_nat n / pow2 (- int d) = (of_int (int n * 2 ^ d) :: rat)" by (simp add: p)
  then have "round_half_even (of_nat n / pow2 (- int d)) = int n * 2 ^ d"
    using round_half_even_int[of "int n * 2 ^ d"] by simp
  with False n d(2) show ?thesis
    by (simp add: f64_of_usize_def f64_round_def binary_exponent_nat Let_def p)
qed (simp add: f64_of_usize_def)

text \<open>Rounding to nearest: the error is at most \<open>2^-53\<close> of the value.\<close>

lemma pow2_diff1: "pow2 (e - 1) = pow2 e / 2"
proof (cases "e \<ge> 1")
  case True
  then have "nat e = Suc (nat (e - 1))" by simp
  with True show ?thesis by (simp add: pow2_def)
next
  case False
  then have "nat (- (e - 1)) = Suc (nat (- e))" by simp
  with False show ?thesis by (cases "e = 0") (simp_all add: pow2_def)
qed

lemma pow2_diff_nat: "pow2 (e - int n) = pow2 e / 2 ^ n"
proof (induction n)
  case (Suc n)
  have "pow2 (e - int (Suc n)) = pow2 (e - int n - 1)" by (simp add: algebra_simps)
  also have "\<dots> = pow2 (e - int n) / 2" by (rule pow2_diff1)
  finally show ?case by (simp add: Suc)
qed simp

lemma binary_exponent_le:
  assumes "0 < x"
  shows "pow2 (binary_exponent x) \<le> x"
proof -
  obtain p q where pq: "quotient_of x = (p, q)" by fastforce
  have q: "0 < q" using quotient_of_denom_pos[OF pq] .
  have x: "x = of_int p / of_int q" by (rule quotient_of_div[OF pq])
  have p: "0 < p" using assms q x by (simp add: zero_less_divide_iff)
  define a b where "a = floorlog 2 (nat p)" and "b = floorlog 2 (nat q)"
  obtain a' where a': "a = Suc a'" using p by (cases a) (auto simp: a_def floorlog_def)
  have "2 ^ a' \<le> nat p" using floorlog_bounds[of "nat p" 2] p a' by (simp add: a_def)
  then have "(of_nat (2 ^ a') :: rat) \<le> of_nat (nat p)" by (rule of_nat_mono)
  then have pb: "2 ^ a' \<le> (of_int p :: rat)" using p by simp
  have "nat q < 2 ^ b" using floorlog_bounds[of "nat q" 2] q by (simp add: b_def)
  then have "(of_nat (nat q) :: rat) < of_nat (2 ^ b)" by (simp only: of_nat_less_iff)
  then have qb: "(of_int q :: rat) < 2 ^ b" using q by simp
  have "pow2 (int a - int b - 1) = pow2 (int a' - int b)" using a' by simp
  also have "\<dots> = pow2 (int a') / 2 ^ b" by (rule pow2_diff_nat)
  also have "\<dots> = 2 ^ a' / 2 ^ b" by (simp add: pow2_def)
  also have "\<dots> \<le> of_int p / 2 ^ b" using pb by (simp add: divide_right_mono)
  also have "\<dots> \<le> x" unfolding x using qb p q by (intro divide_left_mono) auto
  finally show ?thesis by (auto simp: binary_exponent_def pq Let_def a_def b_def)
qed

lemma round_half_even_error: "\<bar>of_int (round_half_even y) - y\<bar> \<le> 1 / 2"
proof -
  have "of_int \<lfloor>y\<rfloor> \<le> y" "y < of_int \<lfloor>y\<rfloor> + 1" by linarith+
  then show ?thesis by (auto simp: round_half_even_def Let_def abs_le_iff)
qed

lemma f64_round_error:
  assumes "0 \<le> x"
  shows "\<bar>f64_round x - x\<bar> \<le> x / 2 ^ 53"
proof (cases "x = 0")
  case False
  with assms have x: "0 < x" by simp
  define e where "e = binary_exponent x - 52"
  define y where "y = x / pow2 e"
  have "\<bar>of_int (round_half_even y) - y\<bar> \<le> 1 / 2" by (rule round_half_even_error)
  then have half: "\<bar>of_int (round_half_even y) - y\<bar> * pow2 e \<le> 1 / 2 * pow2 e"
    by (intro mult_right_mono) (simp_all add: less_imp_le)
  have c: "pow2 e > 0" by simp
  have x': "x = y * pow2 e" by (simp add: y_def)
  have r: "f64_round x = of_int (round_half_even y) * pow2 e"
    using x by (simp add: f64_round_def e_def y_def Let_def)
  have "\<bar>f64_round x - x\<bar> = \<bar>(of_int (round_half_even y) - y) * pow2 e\<bar>"
    unfolding r left_diff_distrib x'[symmetric] ..
  also have "\<dots> = \<bar>of_int (round_half_even y) - y\<bar> * pow2 e"
    using abs_of_pos[OF c] by (simp only: abs_mult)
  also note half
  also have "1 / 2 * pow2 e \<le> x / 2 ^ 53"
    using binary_exponent_le[OF x] pow2_diff_nat[of "binary_exponent x" 52] by (simp add: e_def)
  finally show ?thesis .
qed simp

lemma f64_round_bounds:
  assumes "0 \<le> x"
  shows "x - x / 2 ^ 53 \<le> f64_round x" and "f64_round x \<le> x + x / 2 ^ 53"
  using f64_round_error[OF assms] unfolding abs_le_iff by linarith+

end
