(* ===== verification/LeapConfig.thy ===== *)
theory LeapConfig
  imports Prelude
begin

text \<open>Configuration of the engine (\<open>leap/src/config.rs\<close>): the record, its default and presets.\<close>

datatype CadoMode = Disabled | Concatenate | Interleave

record LeapConfig =
  num_workers :: usize
  w_initial :: usize
  cfg_w_min :: usize
  cfg_w_max :: usize
  l_max :: usize
  w_scan :: usize
  cfg_theta_1 :: usize
  cfg_theta_2 :: usize
  cfg_p_max :: usize
  cado_mode :: CadoMode
  enable_domain_aware :: bool
  enable_hot_delta :: bool
  enable_backpressure :: bool

definition config_default :: LeapConfig where
  "config_default =
     \<lparr>num_workers = 0, w_initial = 32, cfg_w_min = 4, cfg_w_max = 64, l_max = 256, w_scan = 8,
      cfg_theta_1 = 10, cfg_theta_2 = 50, cfg_p_max = 8, cado_mode = Interleave,
      enable_domain_aware = False, enable_hot_delta = True, enable_backpressure = True\<rparr>"

definition config_baseline :: LeapConfig where
  "config_baseline = config_default\<lparr>cado_mode := Disabled, enable_domain_aware := False,
     enable_hot_delta := False, enable_backpressure := False\<rparr>"

definition config_full :: LeapConfig where
  "config_full = config_default"

definition config_full_concat :: LeapConfig where
  "config_full_concat = config_default\<lparr>cado_mode := Concatenate, enable_domain_aware := True,
     enable_hot_delta := True, enable_backpressure := True\<rparr>"

definition config_domain_only :: LeapConfig where
  "config_domain_only = config_default\<lparr>cado_mode := Concatenate, enable_domain_aware := True,
     enable_hot_delta := False, enable_backpressure := False\<rparr>"

definition config_hot_delta_only :: LeapConfig where
  "config_hot_delta_only = config_default\<lparr>enable_domain_aware := False,
     enable_hot_delta := True, enable_backpressure := False\<rparr>"

definition config_backpressure_only :: LeapConfig where
  "config_backpressure_only = config_default\<lparr>enable_domain_aware := False,
     enable_hot_delta := False, enable_backpressure := True\<rparr>"

definition use_cado :: "LeapConfig \<Rightarrow> bool" where
  "use_cado c = (cado_mode c \<noteq> Disabled)"

end
