(* ===== verification/Backpressure.thy ===== *)
theory Backpressure
  imports F64 LeapConfig
begin

text \<open>
  The adaptive window that bounds how far execution may run ahead of validation
  (\<open>leap/src/backpressure.rs\<close>).
\<close>

record BlockExecStats =
  total_executions :: usize
  total_aborts :: usize
  total_waits :: usize

definition abort_rate :: "BlockExecStats \<Rightarrow> rat" where
  "abort_rate st =
     (if total_executions st = 0 then 0
      else f64_div (f64_of_usize (total_aborts st)) (f64_of_usize (total_executions st)))"

definition wait_rate :: "BlockExecStats \<Rightarrow> rat" where
  "wait_rate st =
     (if total_executions st = 0 then 0
      else f64_div (f64_of_usize (total_waits st)) (f64_of_usize (total_executions st)))"

record BackpressureController =
  w :: usize
  w_min :: usize
  w_max :: usize
  gamma_down :: rat
  gamma_up :: rat
  eta_abort :: rat
  eta_wait :: rat

definition controller_new :: "usize \<Rightarrow> usize \<Rightarrow> usize \<Rightarrow> BackpressureController" where
  "controller_new initial lo hi =
     \<lparr>w = initial, w_min = lo, w_max = hi, gamma_down = f64_round (8 / 10), gamma_up = f64_round (12 / 10),
      eta_abort = f64_round (1 / 10), eta_wait = f64_round (1 / 10)\<rparr>"

definition adjust :: "BlockExecStats \<Rightarrow> BackpressureController \<Rightarrow> BackpressureController" where
  "adjust st c =
     (let a = abort_rate st; b = wait_rate st
      in if a > eta_abort c \<or> b > eta_wait c
         then c\<lparr>w := max (w_min c) (f64_to_usize (f64_mul (f64_of_usize (w c)) (gamma_down c)))\<rparr>
         else if a < f64_div (eta_abort c) 2 \<and> b < f64_div (eta_wait c) 2
         then c\<lparr>w := min (w_max c) (f64_to_usize (f64_mul (f64_of_usize (w c)) (gamma_up c)))\<rparr>
         else c)"

definition window :: "BackpressureController \<Rightarrow> usize" where
  "window c = w c"

section \<open>Bounds of the window\<close>

text \<open>The factors are the ones \<open>new\<close> sets: at most one when shrinking, at least one when growing.\<close>

lemma gamma_values:
  "f64_round (8 / 10) = 3602879701896397 / 2 ^ 52" "f64_round (12 / 10) = 5404319552844595 / 2 ^ 52"
  by code_simp+

definition factory_factors :: "BackpressureController \<Rightarrow> bool" where
  "factory_factors c \<longleftrightarrow>
     gamma_down c = 3602879701896397 / 2 ^ 52 \<and> gamma_up c = 5404319552844595 / 2 ^ 52"

lemma f64_to_usize_le: "x < of_nat n + 1 \<Longrightarrow> f64_to_usize x \<le> n"
  unfolding f64_to_usize_def by (rule min.coboundedI1) (simp add: nat_le_iff floor_le_iff)

lemma f64_to_usize_ge:
  assumes "of_nat n \<le> x" and "n < 2 ^ 64"
  shows "n \<le> f64_to_usize x"
  using assms unfolding f64_to_usize_def by (simp add: le_nat_iff le_floor_iff)

lemma shrink_le:
  assumes "n < 2 ^ 53"
  shows "f64_to_usize (f64_mul (f64_of_usize n) (3602879701896397 / 2 ^ 52)) \<le> n"
proof -
  let ?x = "of_nat n * (3602879701896397 / 2 ^ 52) :: rat"
  have "f64_round ?x \<le> ?x + ?x / 2 ^ 53" by (rule f64_round_bounds) simp
  also have "\<dots> < of_nat n + 1" by (cases "n = 0") (simp_all add: field_simps)
  finally show ?thesis using f64_to_usize_le by (simp add: f64_mul_def f64_of_usize_exact[OF assms])
qed

lemma grow_ge:
  assumes "n < 2 ^ 53"
  shows "n \<le> f64_to_usize (f64_mul (f64_of_usize n) (5404319552844595 / 2 ^ 52))"
proof -
  let ?x = "of_nat n * (5404319552844595 / 2 ^ 52) :: rat"
  have "of_nat n \<le> ?x - ?x / 2 ^ 53" by (simp add: field_simps)
  also have "\<dots> \<le> f64_round ?x" by (rule f64_round_bounds) simp
  finally have "of_nat n \<le> f64_round ?x" .
  moreover have "n < 2 ^ 64" using assms by simp
  ultimately show ?thesis using f64_to_usize_ge[of n] by (simp add: f64_mul_def f64_of_usize_exact[OF assms])
qed

definition window_ok :: "BackpressureController \<Rightarrow> bool" where
  "window_ok c \<longleftrightarrow> factory_factors c \<and> w_min c \<le> w c \<and> w c \<le> w_max c \<and> w_max c < 2 ^ 53"

lemma adjust_fields [simp]:
  "w_min (adjust st c) = w_min c" "w_max (adjust st c) = w_max c"
  "factory_factors (adjust st c) = factory_factors c"
  by (auto simp: adjust_def factory_factors_def Let_def)

lemma adjust_window_ok:
  assumes "window_ok c"
  shows "window_ok (adjust st c)"
proof -
  have c: "gamma_down c = 3602879701896397 / 2 ^ 52" "gamma_up c = 5404319552844595 / 2 ^ 52"
    "w_min c \<le> w c" "w c \<le> w_max c" "w_max c < 2 ^ 53"
    using assms by (simp_all only: window_ok_def factory_factors_def)
  have wl: "w c < 2 ^ 53" using c(4,5) by (rule le_less_trans)
  note s = shrink_le[OF wl] and g = grow_ge[OF wl]
  have "w_min c \<le> w (adjust st c) \<and> w (adjust st c) \<le> w_max c"
    unfolding adjust_def Let_def c(1,2) using s g c(3,4) by auto
  then show ?thesis using assms by (simp add: window_ok_def)
qed

text \<open>A window that has shrunk to four transactions stays there: growing by a fifth truncates back.\<close>

lemma grow_small:
  assumes "n \<le> 4"
  shows "f64_to_usize (f64_mul (f64_of_usize n) (5404319552844595 / 2 ^ 52)) = n"
proof -
  have n: "n < 2 ^ 53" using assms by simp
  let ?x = "of_nat n * (5404319552844595 / 2 ^ 52) :: rat"
  have le: "of_nat n \<le> (4 :: rat)" using assms by simp
  have "f64_round ?x \<le> ?x + ?x / 2 ^ 53" by (rule f64_round_bounds) simp
  also have "\<dots> < of_nat n + 1" using le by (simp add: field_simps)
  finally have "f64_to_usize (f64_mul (f64_of_usize n) (5404319552844595 / 2 ^ 52)) \<le> n"
    using f64_to_usize_le by (simp add: f64_mul_def f64_of_usize_exact[OF n])
  with grow_ge[OF n] show ?thesis by (rule antisym[rotated])
qed

lemma adjust_stuck:
  assumes "factory_factors c" and "w c = 4" and "w_min c = 4" and "4 \<le> w_max c"
  shows "w (adjust st c) = 4"
proof -
  have c: "gamma_down c = 3602879701896397 / 2 ^ 52" "gamma_up c = 5404319552844595 / 2 ^ 52"
    using assms(1) by (simp_all only: factory_factors_def)
  have "f64_to_usize (f64_mul (f64_of_usize 4) (3602879701896397 / 2 ^ 52)) \<le> 4"
    by (rule shrink_le) simp
  then show ?thesis unfolding adjust_def Let_def c using assms(2-4) grow_small[of 4] by auto
qed

end
