(* ===== verification/Task.thy ===== *)
theory Task
  imports Prelude
begin

text \<open>
  The interface between the parallel engine and a virtual machine
  (\<open>leap/src/task.rs\<close>, \<open>leap/src/errors.rs\<close>). A transaction touches the state only through
  \<open>MVHashMapView::read\<close>, so executing one is a \<open>view_prog\<close>: a tree of reads that ends in an
  \<open>ExecutionStatus\<close>. The engine and the serial reference executor interpret the same tree.
\<close>

datatype 'e Error = InvariantViolation | UserError 'e

datatype ('t, 'e) ExecutionStatus = Success 't | Abort 'e | SkipRest 't

text \<open>\<open>ReadErr\<close> is the \<open>Err\<close> of \<open>MVHashMapView::read\<close>; \<open>ReadVal\<close> its \<open>Ok\<close>.\<close>

datatype 'v read_result = ReadErr | ReadVal "'v option"

datatype ('k, 'v, 'a) view_prog =
    Return 'a
  | ViewRead 'k "'v read_result \<Rightarrow> ('k, 'v, 'a) view_prog"

text \<open>The traits \<open>ExecutorTask\<close> and \<open>TransactionOutput\<close> as a dictionary of their functions.\<close>

record ('k, 'v, 't, 'o, 'e) vm =
  execute_transaction :: "'t \<Rightarrow> ('k, 'v, ('o, 'e) ExecutionStatus) view_prog"
  get_writes :: "'o \<Rightarrow> ('k \<times> 'v) list"
  skip_output :: 'o

text \<open>Every result the tree can end in, whatever its reads return, satisfies \<open>P\<close>.\<close>

primrec all_results :: "('a \<Rightarrow> bool) \<Rightarrow> ('k, 'v, 'a) view_prog \<Rightarrow> bool" where
  "all_results P (Return a) = P a"
| "all_results P (ViewRead k f) = (\<forall>r. all_results P (f r))"

text \<open>Sequencing of programs, used by virtual machines that read in helper functions.\<close>

primrec prog_bind :: "('k, 'v, 'a) view_prog \<Rightarrow> ('a \<Rightarrow> ('k, 'v, 'b) view_prog) \<Rightarrow> ('k, 'v, 'b) view_prog" where
  "prog_bind (Return a) g = g a"
| "prog_bind (ViewRead k f) g = ViewRead k (\<lambda>r. prog_bind (f r) g)"

lemma all_results_bind: "all_results P (prog_bind p g) = all_results (\<lambda>a. all_results P (g a)) p"
  by (induction p) auto

text \<open>
  The serial meaning of a program: every read looks the key up in a plain map, and a key
  that no transaction has written yet reads as \<open>Ok(None)\<close>.
\<close>

primrec run_serial :: "('k \<rightharpoonup> 'v) \<Rightarrow> ('k, 'v, 'a) view_prog \<Rightarrow> 'a" where
  "run_serial m (Return a) = a"
| "run_serial m (ViewRead k f) = run_serial m (f (ReadVal (m k)))"

lemma run_serial_bind [simp]: "run_serial m (prog_bind p g) = run_serial m (g (run_serial m p))"
  by (induction p) auto

lemma all_results_run_serial: "all_results P p \<Longrightarrow> P (run_serial m p)"
  by (induction p) auto

end
