(* ===== verification/MVMemory.thy ===== *)
theory MVMemory
  imports Task
begin

text \<open>
  The multi-version memory of the engine (\<open>leap/src/mvmemory.rs\<close>). \<open>DashMap\<close> and
  \<open>BTreeMap\<close> are partial maps; \<open>tree.range(0..txn_idx).next_back()\<close> is the search for the
  highest transaction below \<open>txn_idx\<close> that has an entry.
\<close>

type_synonym TxnIndex = usize
type_synonym Incarnation = usize
type_synonym Version = "TxnIndex \<times> Incarnation"

datatype flag = FLAG_DONE | FLAG_ESTIMATE

record 'v WriteCell =
  cell_flag :: flag
  cell_incarnation :: Incarnation
  cell_data :: 'v

type_synonym ('k, 'v) MVHashMap = "'k \<rightharpoonup> TxnIndex \<rightharpoonup> 'v WriteCell"

definition mv_new :: "('k, 'v) MVHashMap" where
  "mv_new = Map.empty"

definition mv_tree :: "('k, 'v) MVHashMap \<Rightarrow> 'k \<Rightarrow> TxnIndex \<rightharpoonup> 'v WriteCell" where
  "mv_tree m k = (case m k of None \<Rightarrow> Map.empty | Some t \<Rightarrow> t)"

definition mv_write :: "'k \<Rightarrow> Version \<Rightarrow> 'v \<Rightarrow> ('k, 'v) MVHashMap \<Rightarrow> ('k, 'v) MVHashMap rust" where
  "mv_write k ver d m =
     (let (txn_idx, incarnation) = ver;
          tree = mv_tree m k;
          prev = tree txn_idx;
          cell = \<lparr>cell_flag = FLAG_DONE, cell_incarnation = incarnation, cell_data = d\<rparr>;
          m' = m(k \<mapsto> tree(txn_idx \<mapsto> cell))
      in if (case prev of None \<Rightarrow> True | Some c \<Rightarrow> cell_incarnation c < incarnation)
         then Inr m' else Inl AssertFailed)"

definition mv_mark_estimate :: "'k \<Rightarrow> TxnIndex \<Rightarrow> ('k, 'v) MVHashMap \<Rightarrow> ('k, 'v) MVHashMap rust" where
  "mv_mark_estimate k txn_idx m =
     (case m k of
        None \<Rightarrow> Inl ExpectFailed
      | Some tree \<Rightarrow>
          (case tree txn_idx of
             None \<Rightarrow> Inl ExpectFailed
           | Some c \<Rightarrow> Inr (m(k \<mapsto> tree(txn_idx \<mapsto> c\<lparr>cell_flag := FLAG_ESTIMATE\<rparr>)))))"

definition mv_delete :: "'k \<Rightarrow> TxnIndex \<Rightarrow> ('k, 'v) MVHashMap \<Rightarrow> ('k, 'v) MVHashMap rust" where
  "mv_delete k txn_idx m =
     (case m k of
        None \<Rightarrow> Inl ExpectFailed
      | Some tree \<Rightarrow> Inr (m(k \<mapsto> tree(txn_idx := None))))"

fun last_below :: "(TxnIndex \<rightharpoonup> 'c) \<Rightarrow> TxnIndex \<Rightarrow> (TxnIndex \<times> 'c) option" where
  "last_below tree 0 = None"
| "last_below tree (Suc i) =
     (case tree i of Some c \<Rightarrow> Some (i, c) | None \<Rightarrow> last_below tree i)"

text \<open>\<open>Inl (Some j)\<close> is \<open>Err(Some(j))\<close>, a dependency; \<open>Inl None\<close> is \<open>Err(None)\<close>, storage.\<close>

definition mv_read :: "('k, 'v) MVHashMap \<Rightarrow> 'k \<Rightarrow> TxnIndex \<Rightarrow> TxnIndex option + (Version \<times> 'v)" where
  "mv_read m k txn_idx =
     (case m k of
        None \<Rightarrow> Inl None
      | Some tree \<Rightarrow>
          (case last_below tree txn_idx of
             None \<Rightarrow> Inl None
           | Some (idx, c) \<Rightarrow>
               if cell_flag c = FLAG_ESTIMATE then Inl (Some idx)
               else Inr ((idx, cell_incarnation c), cell_data c)))"

section \<open>Laws of the memory\<close>

lemma mv_tree_simps [simp]:
  "mv_tree mv_new k = Map.empty"
  "mv_tree (m(k' \<mapsto> t)) k = (if k = k' then t else mv_tree m k)"
  by (auto simp: mv_tree_def mv_new_def)

lemma last_below_empty [simp]: "last_below Map.empty i = None"
  by (induction i) auto

lemma mv_read_tree:
  "mv_read m k i =
     (case last_below (mv_tree m k) i of
        None \<Rightarrow> Inl None
      | Some (idx, c) \<Rightarrow>
          if cell_flag c = FLAG_ESTIMATE then Inl (Some idx)
          else Inr ((idx, cell_incarnation c), cell_data c))"
  by (auto simp: mv_read_def mv_tree_def split: option.splits)

lemma last_below_Some:
  "last_below t i = Some (j, c) \<longleftrightarrow> j < i \<and> t j = Some c \<and> (\<forall>l. j < l \<and> l < i \<longrightarrow> t l = None)"
proof (induction i)
  case (Suc i)
  show ?case
  proof (cases "t i")
    case None
    then show ?thesis using Suc by (auto simp: less_Suc_eq)
  next
    case (Some c')
    then show ?thesis by (auto simp: less_Suc_eq)
  qed
qed simp

lemma last_below_None: "last_below t i = None \<longleftrightarrow> (\<forall>j < i. t j = None)"
  by (induction i) (auto simp: less_Suc_eq split: option.splits)

lemma last_below_cong:
  "(\<And>j. j < i \<Longrightarrow> t j = t' j) \<Longrightarrow> last_below t i = last_below t' i"
  by (induction i) (auto split: option.splits)

lemma last_below_upd_above [simp]: "i \<le> j \<Longrightarrow> last_below (t(j := c)) i = last_below t i"
  by (rule last_below_cong) auto

lemma mv_write_Inr [fault_simps]:
  "mv_write k (i, inc) d m = Inr m' \<longleftrightarrow>
     (\<forall>c. mv_tree m k i = Some c \<longrightarrow> cell_incarnation c < inc) \<and>
     m' = m(k \<mapsto> (mv_tree m k)(i \<mapsto>
       \<lparr>cell_flag = FLAG_DONE, cell_incarnation = inc, cell_data = d\<rparr>))"
  by (auto simp: mv_write_def Let_def split: option.splits)

lemma mv_mark_estimate_Inr [fault_simps]:
  "mv_mark_estimate k i m = Inr m' \<longleftrightarrow>
     (\<exists>c. mv_tree m k i = Some c \<and>
       m' = m(k \<mapsto> (mv_tree m k)(i \<mapsto> c\<lparr>cell_flag := FLAG_ESTIMATE\<rparr>)))"
  by (auto simp: mv_mark_estimate_def mv_tree_def split: option.splits)

lemma mv_delete_Inr [fault_simps]:
  "mv_delete k i m = Inr m' \<longleftrightarrow> m k \<noteq> None \<and> m' = m(k \<mapsto> (mv_tree m k)(i := None))"
  by (auto simp: mv_delete_def mv_tree_def split: option.splits)

end
