(* ===== verification/Scheduler.thy ===== *)
theory Scheduler
  imports MVMemory
begin

text \<open>
  The collaborative scheduler (\<open>leap/src/scheduler.rs\<close>): its state, one definition per
  method, and the laws of the methods. A \<open>TaskGuard\<close> is the unit it adds to
  \<open>num_active_tasks\<close>: a task that carries a guard owns one unit, and dropping the guard
  gives it back. Atomic operations are functions of the whole record. The \<open>debug_assert\<close>s of
  the source are no guards here (a release build drops them); the invariant proofs of the
  engine show that they hold.
\<close>

datatype TransactionStatus =
    ReadyToExecute Incarnation
  | Executing Incarnation
  | Executed Incarnation
  | Aborting Incarnation

datatype SchedulerTask =
    ExecutionTask Version
  | ValidationTask Version
  | NoTask
  | Done

record Scheduler =
  execution_idx :: usize
  validation_idx :: usize
  decrease_cnt :: usize
  num_active_tasks :: usize
  done_marker :: bool
  stop_idx :: usize
  txn_dependency :: "TxnIndex list list"
  txn_status :: "TransactionStatus list"
  backpressure_window :: usize
  segment_bounds :: "(usize \<times> usize \<times> bool) list"
  txn_to_segment :: "usize list"
  abort_count :: usize
  wait_count :: usize

definition guard_new :: "Scheduler \<Rightarrow> Scheduler" where
  "guard_new s = s\<lparr>num_active_tasks := num_active_tasks s + 1\<rparr>"

definition guard_drop :: "Scheduler \<Rightarrow> Scheduler rust" where
  "guard_drop s =
     (if num_active_tasks s > 0
      then Inr (s\<lparr>num_active_tasks := num_active_tasks s - 1\<rparr>)
      else Inl AssertFailed)"

definition with_backpressure :: "usize \<Rightarrow> usize \<Rightarrow> Scheduler" where
  "with_backpressure num_txns window =
     \<lparr>execution_idx = 0, validation_idx = 0, decrease_cnt = 0, num_active_tasks = 0,
      done_marker = False, stop_idx = num_txns,
      txn_dependency = replicate num_txns [],
      txn_status = replicate num_txns (ReadyToExecute 0),
      backpressure_window = window, segment_bounds = [], txn_to_segment = [],
      abort_count = 0, wait_count = 0\<rparr>"

definition scheduler_new :: "usize \<Rightarrow> Scheduler" where
  "scheduler_new num_txns = with_backpressure num_txns 0"

definition with_domain_plan ::
  "usize \<Rightarrow> usize \<Rightarrow> (usize \<times> usize \<times> bool) list \<Rightarrow> usize list \<Rightarrow> Scheduler" where
  "with_domain_plan num_txns window bounds lookup =
     (with_backpressure num_txns window)\<lparr>segment_bounds := bounds, txn_to_segment := lookup\<rparr>"

definition exec_stats :: "Scheduler \<Rightarrow> usize \<times> usize \<times> usize" where
  "exec_stats s = (stop_idx s, abort_count s, wait_count s)"

definition set_stop_idx :: "usize \<Rightarrow> Scheduler \<Rightarrow> Scheduler" where
  "set_stop_idx i s = s\<lparr>stop_idx := min (stop_idx s) i\<rparr>"

definition num_txn_to_execute :: "Scheduler \<Rightarrow> usize" where
  "num_txn_to_execute s = stop_idx s"

definition try_abort :: "TxnIndex \<Rightarrow> Incarnation \<Rightarrow> Scheduler \<Rightarrow> (bool \<times> Scheduler) rust" where
  "try_abort i inc s =
     rbind (vget (txn_status s) i) (\<lambda>status.
       if status = Executed inc
       then Inr (True, s\<lparr>txn_status := (txn_status s)[i := Aborting inc]\<rparr>)
       else Inr (False, s))"

definition decrease_validation_idx :: "TxnIndex \<Rightarrow> Scheduler \<Rightarrow> Scheduler" where
  "decrease_validation_idx target s =
     (let prev = validation_idx s;
          s' = s\<lparr>validation_idx := min prev target\<rparr>
      in if prev > target then s'\<lparr>decrease_cnt := decrease_cnt s' + 1\<rparr> else s')"

definition decrease_execution_idx :: "TxnIndex \<Rightarrow> Scheduler \<Rightarrow> Scheduler" where
  "decrease_execution_idx target s =
     (let prev = execution_idx s;
          s' = s\<lparr>execution_idx := min prev target\<rparr>
      in if prev > target then s'\<lparr>decrease_cnt := decrease_cnt s' + 1\<rparr> else s')"

definition try_incarnate :: "TxnIndex \<Rightarrow> Scheduler \<Rightarrow> Incarnation option \<times> Scheduler" where
  "try_incarnate i s =
     (if i \<ge> length (txn_status s) then (None, s)
      else (case txn_status s ! i of
              ReadyToExecute inc \<Rightarrow>
                (Some inc, s\<lparr>txn_status := (txn_status s)[i := Executing inc]\<rparr>)
            | _ \<Rightarrow> (None, s)))"

definition is_executed :: "TxnIndex \<Rightarrow> Scheduler \<Rightarrow> Incarnation option" where
  "is_executed i s =
     (if i \<ge> length (txn_status s) then None
      else (case txn_status s ! i of Executed inc \<Rightarrow> Some inc | _ \<Rightarrow> None))"

definition check_done :: "usize \<Rightarrow> Scheduler \<Rightarrow> bool \<times> Scheduler" where
  "check_done num_txns s =
     (let observed_cnt = decrease_cnt s;
          val_idx = validation_idx s;
          exec_idx = execution_idx s;
          num_tasks = num_active_tasks s
      in if min exec_idx val_idx < num_txns \<or> num_tasks > 0 then (False, s)
         else if observed_cnt = decrease_cnt s then (True, s\<lparr>done_marker := True\<rparr>)
         else (False, s))"

definition try_validate_next_version :: "Scheduler \<Rightarrow> (Version option \<times> Scheduler) rust" where
  "try_validate_next_version s =
     (let num_txns = num_txn_to_execute s
      in if validation_idx s \<ge> num_txns then Inr (None, snd (check_done num_txns s))
         else
           let s1 = guard_new s;
               idx = validation_idx s1;
               s2 = s1\<lparr>validation_idx := idx + 1\<rparr>
           in (case is_executed idx s2 of
                 Some inc \<Rightarrow> Inr (Some (idx, inc), s2)
               | None \<Rightarrow> rbind (guard_drop s2) (\<lambda>s3. Inr (None, s3))))"

definition try_execute_next_version :: "Scheduler \<Rightarrow> (Version option \<times> Scheduler) rust" where
  "try_execute_next_version s =
     (let num_txns = num_txn_to_execute s
      in if execution_idx s \<ge> num_txns then Inr (None, snd (check_done num_txns s))
         else
           let s1 = guard_new s;
               idx = execution_idx s1;
               s2 = s1\<lparr>execution_idx := idx + 1\<rparr>
           in (case try_incarnate idx s2 of
                 (Some inc, s3) \<Rightarrow> Inr (Some (idx, inc), s3)
               | (None, s3) \<Rightarrow> rbind (guard_drop s3) (\<lambda>s4. Inr (None, s4))))"

definition resume :: "TxnIndex \<Rightarrow> Scheduler \<Rightarrow> Scheduler rust" where
  "resume i s =
     rbind (vget (txn_status s) i) (\<lambda>status.
       (case status of
          Executing inc \<Rightarrow> Inr (s\<lparr>txn_status := (txn_status s)[i := ReadyToExecute (inc + 1)]\<rparr>)
        | _ \<Rightarrow> Inl UnreachableReached))"

definition set_executed_status :: "TxnIndex \<Rightarrow> Incarnation \<Rightarrow> Scheduler \<Rightarrow> Scheduler rust" where
  "set_executed_status i inc s =
     rbind (vset (txn_status s) i (Executed inc)) (\<lambda>st. Inr (s\<lparr>txn_status := st\<rparr>))"

definition set_aborted_status :: "TxnIndex \<Rightarrow> Incarnation \<Rightarrow> Scheduler \<Rightarrow> Scheduler rust" where
  "set_aborted_status i inc s =
     rbind (vset (txn_status s) i (ReadyToExecute (inc + 1))) (\<lambda>st. Inr (s\<lparr>txn_status := st\<rparr>))"

definition find_segment :: "usize \<Rightarrow> Scheduler \<Rightarrow> usize" where
  "find_segment i s =
     (if i < length (txn_to_segment s) then txn_to_segment s ! i
      else length (segment_bounds s))"

text \<open>The two tests at the head of the \<open>loop\<close> in \<open>next_task\<close>.\<close>

definition under_backpressure :: "Scheduler \<Rightarrow> bool" where
  "under_backpressure s =
     (backpressure_window s > 0 \<and> execution_idx s > validation_idx s
      \<and> execution_idx s - validation_idx s > backpressure_window s)"

definition at_closed_segment :: "Scheduler \<Rightarrow> bool" where
  "at_closed_segment s =
     (segment_bounds s \<noteq> [] \<and>
      (let exec_seg = find_segment (execution_idx s) s;
           val_seg = find_segment (validation_idx s) s
       in exec_seg > val_seg \<and> exec_seg < length (segment_bounds s)
          \<and> \<not> snd (snd (segment_bounds s ! exec_seg))))"

definition fetch_validation :: "Scheduler \<Rightarrow> (SchedulerTask option \<times> Scheduler) rust" where
  "fetch_validation s =
     rbind (try_validate_next_version s) (\<lambda>(v, s'). Inr (map_option ValidationTask v, s'))"

definition fetch_execution :: "Scheduler \<Rightarrow> (SchedulerTask option \<times> Scheduler) rust" where
  "fetch_execution s =
     rbind (try_execute_next_version s) (\<lambda>(v, s'). Inr (map_option ExecutionTask v, s'))"

text \<open>
  One round of the loop: \<open>Some t\<close> returns the task \<open>t\<close>, \<open>None\<close> goes round again. The two
  indices are loaded once per round (from \<open>s\<close>) and stay as loaded when the domain-aware
  branch falls through with the state \<open>s1\<close>.
\<close>

definition next_task_round :: "Scheduler \<Rightarrow> (SchedulerTask option \<times> Scheduler) rust" where
  "next_task_round s =
     (if done_marker s then Inr (Some Done, s)
      else if under_backpressure s
      then fetch_validation (s\<lparr>wait_count := wait_count s + 1\<rparr>)
      else
        rbind (if at_closed_segment s then fetch_validation s else Inr (None, s))
          (\<lambda>(r, s1).
             (case r of
                Some t \<Rightarrow> Inr (Some t, s1)
              | None \<Rightarrow>
                  if validation_idx s < execution_idx s then fetch_validation s1
                  else fetch_execution s1)))"

definition try_add_dependency :: "TxnIndex \<Rightarrow> TxnIndex \<Rightarrow> Scheduler \<Rightarrow> (bool \<times> Scheduler) rust" where
  "try_add_dependency i dep s =
     rbind (vget (txn_dependency s) dep) (\<lambda>stored_deps.
       if is_executed dep s \<noteq> None then Inr (False, s)
       else Inr (True, s\<lparr>txn_dependency := (txn_dependency s)[dep := stored_deps @ [i]]\<rparr>))"

text \<open>Returning \<open>NoTask\<close> drops the guard the call was given.\<close>

definition drop_task :: "Scheduler \<Rightarrow> (SchedulerTask \<times> Scheduler) rust" where
  "drop_task s = rbind (guard_drop s) (\<lambda>s'. Inr (NoTask, s'))"

definition min_list_opt :: "nat list \<Rightarrow> nat option" where
  "min_list_opt xs = (if xs = [] then None else Some (fold min xs (hd xs)))"

definition finish_execution ::
  "TxnIndex \<Rightarrow> Incarnation \<Rightarrow> bool \<Rightarrow> Scheduler \<Rightarrow> (SchedulerTask \<times> Scheduler) rust" where
  "finish_execution i inc revalidate_suffix s =
     rbind (set_executed_status i inc s) (\<lambda>s1.
     rbind (vget (txn_dependency s1) i) (\<lambda>txn_deps.
     rbind (rfold resume txn_deps (s1\<lparr>txn_dependency := (txn_dependency s1)[i := []]\<rparr>)) (\<lambda>s2.
       let s3 = (case min_list_opt txn_deps of
                   Some target \<Rightarrow> decrease_execution_idx target s2
                 | None \<Rightarrow> s2)
       in if validation_idx s3 > i
          then (if revalidate_suffix then drop_task (decrease_validation_idx i s3)
                else Inr (ValidationTask (i, inc), s3))
          else drop_task s3)))"

definition finish_abort ::
  "TxnIndex \<Rightarrow> Incarnation \<Rightarrow> Scheduler \<Rightarrow> (SchedulerTask \<times> Scheduler) rust" where
  "finish_abort i inc s =
     rbind (set_aborted_status i inc (s\<lparr>abort_count := abort_count s + 1\<rparr>)) (\<lambda>s1.
       let s2 = decrease_validation_idx (i + 1) s1
       in if execution_idx s2 > i
          then (case try_incarnate i s2 of
                  (Some new_inc, s3) \<Rightarrow> Inr (ExecutionTask (i, new_inc), s3)
                | (None, s3) \<Rightarrow> drop_task s3)
          else drop_task s2)"

end
