(* ===== verification/TxnIO.thy ===== *)
theory TxnIO
  imports Scheduler
begin

text \<open>
  What the engine remembers of each transaction's last execution
  (\<open>leap/src/txn_last_input_output.rs\<close>) and how the final results are collected
  (\<open>leap/src/outcome_array.rs\<close>).
\<close>

section \<open>Read descriptors\<close>

datatype ReadKind = MVHashMap TxnIndex Incarnation | Storage

record 'k ReadDescriptor =
  access_path :: 'k
  kind :: ReadKind

definition descriptor_from :: "'k \<Rightarrow> TxnIndex \<Rightarrow> Incarnation \<Rightarrow> 'k ReadDescriptor" where
  "descriptor_from k i inc = \<lparr>access_path = k, kind = MVHashMap i inc\<rparr>"

definition from_storage :: "'k \<Rightarrow> 'k ReadDescriptor" where
  "from_storage k = \<lparr>access_path = k, kind = Storage\<rparr>"

definition validate_version :: "'k ReadDescriptor \<Rightarrow> Version \<Rightarrow> bool" where
  "validate_version r ver = (kind r = MVHashMap (fst ver) (snd ver))"

definition validate_storage :: "'k ReadDescriptor \<Rightarrow> bool" where
  "validate_storage r = (kind r = Storage)"

section \<open>Last input and output of every transaction\<close>

record ('k, 'o, 'e) TxnLastInputOutput =
  inputs :: "'k ReadDescriptor list option list"
  outputs :: "('o, 'e Error) ExecutionStatus option list"

definition last_io_new :: "usize \<Rightarrow> ('k, 'o, 'e) TxnLastInputOutput" where
  "last_io_new num_txns = \<lparr>inputs = replicate num_txns None, outputs = replicate num_txns None\<rparr>"

definition record_io ::
  "TxnIndex \<Rightarrow> 'k ReadDescriptor list \<Rightarrow> ('o, 'e Error) ExecutionStatus
   \<Rightarrow> ('k, 'o, 'e) TxnLastInputOutput \<Rightarrow> ('k, 'o, 'e) TxnLastInputOutput rust" where
  "record_io i input output io =
     rbind (vset (inputs io) i (Some input)) (\<lambda>ins.
     rbind (vset (outputs io) i (Some output)) (\<lambda>outs.
       Inr (io\<lparr>inputs := ins, outputs := outs\<rparr>)))"

definition read_set :: "TxnIndex \<Rightarrow> ('k, 'o, 'e) TxnLastInputOutput \<Rightarrow> 'k ReadDescriptor list option rust" where
  "read_set i io = vget (inputs io) i"

text \<open>The keys an output writes; a \<open>HashSet\<close> is a list without repetitions.\<close>

definition output_keys :: "('o \<Rightarrow> ('k \<times> 'v) list) \<Rightarrow> ('o, 'e) ExecutionStatus option \<Rightarrow> 'k list" where
  "output_keys writes out =
     (case out of
        None \<Rightarrow> []
      | Some (Success t) \<Rightarrow> remdups (map fst (writes t))
      | Some (SkipRest t) \<Rightarrow> remdups (map fst (writes t))
      | Some (Abort _) \<Rightarrow> [])"

definition write_set ::
  "('o \<Rightarrow> ('k \<times> 'v) list) \<Rightarrow> TxnIndex \<Rightarrow> ('k, 'o, 'e) TxnLastInputOutput \<Rightarrow> 'k list rust" where
  "write_set writes i io = rbind (vget (outputs io) i) (\<lambda>out. Inr (output_keys writes out))"

definition take_output ::
  "TxnIndex \<Rightarrow> ('k, 'o, 'e) TxnLastInputOutput
   \<Rightarrow> (('o, 'e Error) ExecutionStatus \<times> ('k, 'o, 'e) TxnLastInputOutput) rust" where
  "take_output i io =
     rbind (vget (outputs io) i) (\<lambda>out.
       (case out of
          None \<Rightarrow> Inl ExpectFailed
        | Some output \<Rightarrow> Inr (output, io\<lparr>outputs := (outputs io)[i := None]\<rparr>)))"

section \<open>Outcome array\<close>

text \<open>A \<open>OnceCell\<close> is an option that may be set once.\<close>

type_synonym ('o, 'e) OutcomeArray = "('o, 'e Error) ExecutionStatus option list"

definition outcome_new :: "usize \<Rightarrow> ('o, 'e) OutcomeArray" where
  "outcome_new len = replicate len None"

definition set_result ::
  "usize \<Rightarrow> ('o, 'e Error) ExecutionStatus \<Rightarrow> ('o, 'e) OutcomeArray \<Rightarrow> ('o, 'e) OutcomeArray rust" where
  "set_result idx res results =
     rbind (vget results idx) (\<lambda>entry.
       if entry = None then Inr (results[idx := Some res]) else Inl AssertFailed)"

fun collect_results ::
  "usize \<Rightarrow> usize \<Rightarrow> ('o, 'e) OutcomeArray \<Rightarrow> 'e Error + 'o list" where
  "collect_results idx stop_at [] = Inr []"
| "collect_results idx stop_at (status # rest) =
     (let continue = (\<lambda>t. case collect_results (idx + 1) stop_at rest of
                            Inl e \<Rightarrow> Inl e | Inr ts \<Rightarrow> Inr (t # ts))
      in (case status of
            Some (Success t) \<Rightarrow> continue t
          | Some (SkipRest t) \<Rightarrow> if idx + 1 = stop_at then continue t else Inl InvariantViolation
          | Some (Abort err) \<Rightarrow> Inl err
          | None \<Rightarrow> Inl InvariantViolation))"

definition get_all_results ::
  "'o \<Rightarrow> ('o, 'e) OutcomeArray \<Rightarrow> usize \<Rightarrow> ('e Error + 'o list) rust" where
  "get_all_results skip results stop_at =
     (let len = length results
      in (case collect_results 0 stop_at (take stop_at results) of
            Inl e \<Rightarrow> Inr (Inl e)
          | Inr final_results \<Rightarrow>
              if length final_results = stop_at
              then Inr (Inr (take len (final_results @ replicate (len - stop_at) skip)))
              else Inl AssertFailed))"

section \<open>Laws\<close>

lemma output_keys_distinct [simp]: "distinct (output_keys w out)"
  by (auto simp: output_keys_def split: option.splits ExecutionStatus.splits)

lemma collect_results_Success:
  "(\<forall>x \<in> set rs. \<exists>t. x = Some (Success t)) \<Longrightarrow>
   collect_results idx stop rs = Inr (map (\<lambda>x. case x of Some (Success t) \<Rightarrow> t) rs)"
  by (induction rs arbitrary: idx) auto

end
