(* ===== verification/Executor.thy ===== *)
theory Executor
  imports TxnIO
begin

text \<open>
  The parallel executor (\<open>leap/src/executor.rs\<close>): the per-transaction view that resolves and
  records reads, \<open>execute_one\<close>, \<open>validate_one\<close>, and the worker loop of
  \<open>execute_transactions_parallel\<close>. The worker threads share the scheduler, the
  multi-version memory and the last inputs and outputs; every worker owns the task it has
  in hand. A step of the system is one round of one worker's \<open>loop\<close>, the workers being
  interleaved in any order.
\<close>

section \<open>The view\<close>

record 'k View =
  view_scheduler :: Scheduler
  read_dependency :: bool
  captured_reads :: "'k ReadDescriptor list"

definition view_read ::
  "('k, 'v) MVHashMap \<Rightarrow> TxnIndex \<Rightarrow> 'k \<Rightarrow> 'k View \<Rightarrow> ('v read_result \<times> 'k View) rust" where
  "view_read mv txn_idx key w =
     (case mv_read mv key txn_idx of
        Inr ((i, inc), v) \<Rightarrow>
          Inr (ReadVal (Some v), w\<lparr>captured_reads := captured_reads w @ [descriptor_from key i inc]\<rparr>)
      | Inl None \<Rightarrow>
          Inr (ReadVal None, w\<lparr>captured_reads := captured_reads w @ [from_storage key]\<rparr>)
      | Inl (Some dep_idx) \<Rightarrow>
          if read_dependency w then Inr (ReadErr, w)
          else rbind (try_add_dependency txn_idx dep_idx (view_scheduler w)) (\<lambda>(added, s').
                 if added then Inr (ReadErr, w\<lparr>view_scheduler := s', read_dependency := True\<rparr>)
                 else Inl Spin))"

primrec run_view ::
  "('k, 'v) MVHashMap \<Rightarrow> TxnIndex \<Rightarrow> ('k, 'v, 'a) view_prog \<Rightarrow> 'k View \<Rightarrow> ('a \<times> 'k View) rust" where
  "run_view mv txn_idx (Return a) = (\<lambda>w. Inr (a, w))"
| "run_view mv txn_idx (ViewRead key f) =
     (\<lambda>w. rbind (view_read mv txn_idx key w) (\<lambda>(r, w'). run_view mv txn_idx (f r) w'))"

section \<open>Executing and validating one transaction\<close>

record ('k, 'v, 'o, 'e) Shared =
  scheduler :: Scheduler
  versioned_data :: "('k, 'v) MVHashMap"
  last_io :: "('k, 'o, 'e) TxnLastInputOutput"

text \<open>
  The pre-check over the read set of the previous incarnation: \<open>any\<close> stops at the first
  dependency that is recorded.
\<close>

fun precheck_reads ::
  "('k, 'v) MVHashMap \<Rightarrow> TxnIndex \<Rightarrow> 'k ReadDescriptor list \<Rightarrow> Scheduler \<Rightarrow> (bool \<times> Scheduler) rust" where
  "precheck_reads mv idx [] s = Inr (False, s)"
| "precheck_reads mv idx (r # rs) s =
     (case mv_read mv (access_path r) idx of
        Inl (Some dep_idx) \<Rightarrow>
          rbind (try_add_dependency idx dep_idx s) (\<lambda>(added, s').
            if added then Inr (True, s') else precheck_reads mv idx rs s')
      | _ \<Rightarrow> precheck_reads mv idx rs s)"

text \<open>\<open>apply_writes\<close>: the loop state is (remaining previous write set, wrote outside it, memory).\<close>

fun apply_writes ::
  "Version \<Rightarrow> ('k \<times> 'v) list \<Rightarrow> 'k list \<times> bool \<times> ('k, 'v) MVHashMap
   \<Rightarrow> ('k list \<times> bool \<times> ('k, 'v) MVHashMap) rust" where
  "apply_writes ver [] st = Inr st"
| "apply_writes ver ((k, v) # ws) (prev, outside, mv) =
     rbind (mv_write k ver v mv) (\<lambda>mv'.
       apply_writes ver ws (removeAll k prev, outside \<or> k \<notin> set prev, mv'))"

definition status_writes :: "('o \<Rightarrow> ('k \<times> 'v) list) \<Rightarrow> ('o, 'e) ExecutionStatus \<Rightarrow> ('k \<times> 'v) list" where
  "status_writes writes res =
     (case res of Success t \<Rightarrow> writes t | SkipRest t \<Rightarrow> writes t | Abort _ \<Rightarrow> [])"

definition wrap_result :: "('o, 'e) ExecutionStatus \<Rightarrow> ('o, 'e Error) ExecutionStatus" where
  "wrap_result res =
     (case res of Success t \<Rightarrow> Success t | SkipRest t \<Rightarrow> SkipRest t | Abort err \<Rightarrow> Abort (UserError err))"

definition stop_after :: "TxnIndex \<Rightarrow> ('o, 'e) ExecutionStatus \<Rightarrow> Scheduler \<Rightarrow> Scheduler" where
  "stop_after idx res s = (case res of Success _ \<Rightarrow> s | _ \<Rightarrow> set_stop_idx (idx + 1) s)"

definition execute_one ::
  "('k, 'v, 't, 'o, 'e) vm \<Rightarrow> 't list \<Rightarrow> Version \<Rightarrow> ('k, 'v, 'o, 'e) Shared
   \<Rightarrow> (SchedulerTask \<times> ('k, 'v, 'o, 'e) Shared) rust" where
  "execute_one vm block ver sh =
     (let (idx, incarnation) = ver;
          mv = versioned_data sh;
          no_task = (\<lambda>s. rbind (drop_task s) (\<lambda>(t, s'). Inr (t, sh\<lparr>scheduler := s'\<rparr>)))
      in rbind (vget block idx) (\<lambda>txn.
         rbind (read_set idx (last_io sh)) (\<lambda>prev_reads.
         rbind (case prev_reads of
                  None \<Rightarrow> Inr (False, scheduler sh)
                | Some rs \<Rightarrow> precheck_reads mv idx rs (scheduler sh)) (\<lambda>(suspended, s0).
           if suspended then no_task s0
           else
             rbind (run_view mv idx (execute_transaction vm txn)
                      \<lparr>view_scheduler = s0, read_dependency = False, captured_reads = []\<rparr>)
               (\<lambda>(res, w).
                 if read_dependency w then no_task (view_scheduler w)
                 else
                   rbind (write_set (get_writes vm) idx (last_io sh)) (\<lambda>prev_write_set.
                   rbind (apply_writes (idx, incarnation) (status_writes (get_writes vm) res)
                            (prev_write_set, False, mv)) (\<lambda>(stale, writes_outside, mv1).
                   rbind (rfold (\<lambda>k m. mv_delete k idx m) stale mv1) (\<lambda>mv2.
                   rbind (record_io idx (captured_reads w) (wrap_result res) (last_io sh)) (\<lambda>io.
                   rbind (finish_execution idx incarnation writes_outside
                            (stop_after idx res (view_scheduler w))) (\<lambda>(t, s').
                     Inr (t, \<lparr>scheduler = s', versioned_data = mv2, last_io = io\<rparr>)))))))))))"

definition read_valid :: "('k, 'v) MVHashMap \<Rightarrow> TxnIndex \<Rightarrow> 'k ReadDescriptor \<Rightarrow> bool" where
  "read_valid mv idx r =
     (case mv_read mv (access_path r) idx of
        Inr (version, _) \<Rightarrow> validate_version r version
      | Inl (Some _) \<Rightarrow> False
      | Inl None \<Rightarrow> validate_storage r)"

definition validate_one ::
  "('k, 'v, 't, 'o, 'e) vm \<Rightarrow> Version \<Rightarrow> ('k, 'v, 'o, 'e) Shared
   \<Rightarrow> (SchedulerTask \<times> ('k, 'v, 'o, 'e) Shared) rust" where
  "validate_one vm ver sh =
     (let (idx, incarnation) = ver;
          mv = versioned_data sh;
          s = scheduler sh
      in rbind (read_set idx (last_io sh)) (\<lambda>reads.
         (case reads of
            None \<Rightarrow> Inl ExpectFailed
          | Some rs \<Rightarrow>
              let valid = list_all (read_valid mv idx) rs
              in rbind (if valid then Inr (False, s) else try_abort idx incarnation s) (\<lambda>(aborted, s1).
                   if aborted
                   then
                     rbind (write_set (get_writes vm) idx (last_io sh)) (\<lambda>ks.
                     rbind (rfold (\<lambda>k m. mv_mark_estimate k idx m) ks mv) (\<lambda>mv1.
                     rbind (finish_abort idx incarnation s1) (\<lambda>(t, s2).
                       Inr (t, sh\<lparr>scheduler := s2, versioned_data := mv1\<rparr>))))
                   else rbind (drop_task s1) (\<lambda>(t, s2). Inr (t, sh\<lparr>scheduler := s2\<rparr>))))))"

section \<open>The worker loop\<close>

text \<open>One round of a worker's \<open>loop\<close>; \<open>Done\<close> leaves the loop, so it has no round.\<close>

fun worker_round ::
  "('k, 'v, 't, 'o, 'e) vm \<Rightarrow> 't list \<Rightarrow> SchedulerTask \<Rightarrow> ('k, 'v, 'o, 'e) Shared
   \<Rightarrow> (SchedulerTask \<times> ('k, 'v, 'o, 'e) Shared) rust" where
  "worker_round vm block (ValidationTask ver) sh = validate_one vm ver sh"
| "worker_round vm block (ExecutionTask ver) sh = execute_one vm block ver sh"
| "worker_round vm block NoTask sh =
     rbind (next_task_round (scheduler sh)) (\<lambda>(t, s').
       Inr (case t of Some task \<Rightarrow> task | None \<Rightarrow> NoTask, sh\<lparr>scheduler := s'\<rparr>))"
| "worker_round vm block Done sh = Inr (Done, sh)"

type_synonym ('k, 'v, 'o, 'e) system = "('k, 'v, 'o, 'e) Shared \<times> SchedulerTask list"

definition shared_new :: "usize \<Rightarrow> Scheduler \<Rightarrow> ('k, 'v, 'o, 'e) Shared" where
  "shared_new num_txns s =
     \<lparr>scheduler = s, versioned_data = mv_new, last_io = last_io_new num_txns\<rparr>"

inductive worker_step ::
  "('k, 'v, 't, 'o, 'e) vm \<Rightarrow> 't list \<Rightarrow> ('k, 'v, 'o, 'e) system \<Rightarrow> ('k, 'v, 'o, 'e) system \<Rightarrow> bool"
  for vm block where
  round: "\<lbrakk>w < length ts; ts ! w \<noteq> Done;
     worker_round vm block (ts ! w) sh = Inr (t', sh')\<rbrakk>
   \<Longrightarrow> worker_step vm block (sh, ts) (sh', ts[w := t'])"

text \<open>
  The scheduler the engine starts with: a window for backpressure and, when segment bounds
  are set, the domain plan.
\<close>

definition initial_scheduler ::
  "usize \<Rightarrow> usize \<Rightarrow> (usize \<times> usize \<times> bool) list \<Rightarrow> usize list \<Rightarrow> Scheduler" where
  "initial_scheduler num_txns bp_window bounds lookup =
     (if bounds = [] then with_backpressure num_txns bp_window
      else with_domain_plan num_txns bp_window bounds lookup)"

definition initial_system ::
  "usize \<Rightarrow> usize \<Rightarrow> usize \<Rightarrow> (usize \<times> usize \<times> bool) list \<Rightarrow> usize list \<Rightarrow> ('k, 'v, 'o, 'e) system" where
  "initial_system num_txns compute_cpus bp_window bounds lookup =
     (shared_new num_txns (initial_scheduler num_txns bp_window bounds lookup),
      replicate compute_cpus NoTask)"

inductive reachable_from ::
  "('k, 'v, 't, 'o, 'e) vm \<Rightarrow> 't list \<Rightarrow> ('k, 'v, 'o, 'e) system \<Rightarrow> ('k, 'v, 'o, 'e) system \<Rightarrow> bool"
  for vm block init where
  start: "reachable_from vm block init init"
| step: "reachable_from vm block init s \<Longrightarrow> worker_step vm block s s' \<Longrightarrow> reachable_from vm block init s'"

text \<open>
  After the scope has joined every worker: the outputs of the first
  \<open>num_txn_to_execute\<close> transactions move into the outcome array, in chunks whose order does
  not matter because every index is handled once.
\<close>

definition move_output ::
  "TxnIndex \<Rightarrow> ('k, 'o, 'e) TxnLastInputOutput \<times> ('o, 'e) OutcomeArray
   \<Rightarrow> (('k, 'o, 'e) TxnLastInputOutput \<times> ('o, 'e) OutcomeArray) rust" where
  "move_output idx st =
     rbind (take_output idx (fst st)) (\<lambda>(out, io).
     rbind (set_result idx out (snd st)) (\<lambda>outcomes. Inr (io, outcomes)))"

definition execution_outcome ::
  "('k, 'v, 't, 'o, 'e) vm \<Rightarrow> usize \<Rightarrow> ('k, 'v, 'o, 'e) Shared \<Rightarrow> ('e Error + 'o list) rust" where
  "execution_outcome vm num_txns sh =
     (let valid_results = num_txn_to_execute (scheduler sh)
      in rbind (rfold move_output [0..<valid_results] (last_io sh, outcome_new num_txns)) (\<lambda>(io, outcomes).
           get_all_results (skip_output vm) outcomes valid_results))"

end
