(* ===== verification/SchedulerInv.thy ===== *)
theory SchedulerInv
  imports Scheduler
begin

text \<open>
  The invariant of the scheduler together with the tasks the workers have in hand, and that
  every scheduler operation of the worker loop keeps it. The tasks form a multiset: which
  worker holds which task does not matter. \<open>NoTask\<close> and \<open>Done\<close> carry no guard, so they do
  not count.
\<close>

fun active_task :: "SchedulerTask \<Rightarrow> bool" where
  "active_task (ExecutionTask _) = True"
| "active_task (ValidationTask _) = True"
| "active_task NoTask = False"
| "active_task Done = False"

section \<open>The invariant\<close>

abbreviation status_of :: "Scheduler \<Rightarrow> TxnIndex \<Rightarrow> TransactionStatus" where
  "status_of s i \<equiv> txn_status s ! i"

abbreviation waiting :: "Scheduler \<Rightarrow> TxnIndex set" where
  "waiting s \<equiv> set (concat (txn_dependency s))"

text \<open>Vectors have one entry per transaction, and the active tasks are the guards.\<close>

definition inv_shape :: "nat \<Rightarrow> Scheduler \<Rightarrow> SchedulerTask multiset \<Rightarrow> bool" where
  "inv_shape n s T \<longleftrightarrow>
     length (txn_status s) = n \<and> length (txn_dependency s) = n \<and> stop_idx s \<le> n \<and>
     num_active_tasks s = size (filter_mset active_task T)"

text \<open>
  A transaction that is executing is in the hands of exactly one worker, or it waits in
  exactly one dependency list; nothing else is executing.
\<close>

definition inv_exec :: "nat \<Rightarrow> Scheduler \<Rightarrow> SchedulerTask multiset \<Rightarrow> bool" where
  "inv_exec n s T \<longleftrightarrow>
     (\<forall>v. count T (ExecutionTask v) \<le> 1) \<and>
     (\<forall>i c. ExecutionTask (i, c) \<in># T \<longrightarrow> i < n \<and> status_of s i = Executing c \<and> i \<notin> waiting s) \<and>
     (\<forall>i c. ValidationTask (i, c) \<in># T \<longrightarrow> i < n) \<and>
     (\<forall>i < n. \<forall>c. status_of s i = Executing c \<longrightarrow> ExecutionTask (i, c) \<in># T \<or> i \<in> waiting s)"

text \<open>
  Dependency lists: nobody waits twice, a waiting transaction is executing, and it waits for
  a lower transaction that has not executed yet.
\<close>

definition inv_deps :: "nat \<Rightarrow> Scheduler \<Rightarrow> bool" where
  "inv_deps n s \<longleftrightarrow>
     distinct (concat (txn_dependency s)) \<and>
     (\<forall>j < n. \<forall>d \<in> set (txn_dependency s ! j).
        j < d \<and> d < n \<and> (\<exists>c. status_of s d = Executing c) \<and> (\<forall>c. status_of s j \<noteq> Executed c))"

text \<open>
  Between two rounds nothing is aborting, everything below the execution index has been
  taken up, and \<open>done_marker\<close> is raised only when both indices passed the end and no task is
  in flight.
\<close>

definition inv_progress :: "nat \<Rightarrow> Scheduler \<Rightarrow> bool" where
  "inv_progress n s \<longleftrightarrow>
     (\<forall>i < n. \<forall>c. status_of s i \<noteq> Aborting c) \<and>
     (\<forall>i < n. i < execution_idx s \<longrightarrow> (\<forall>c. status_of s i \<noteq> ReadyToExecute c)) \<and>
     (done_marker s \<longrightarrow> stop_idx s \<le> validation_idx s \<and> stop_idx s \<le> execution_idx s
        \<and> num_active_tasks s = 0)"

definition sched_inv :: "nat \<Rightarrow> Scheduler \<Rightarrow> SchedulerTask multiset \<Rightarrow> bool" where
  "sched_inv n s T \<longleftrightarrow> inv_shape n s T \<and> inv_exec n s T \<and> inv_deps n s \<and> inv_progress n s"

lemmas sched_inv_defs = sched_inv_def inv_shape_def inv_exec_def inv_deps_def inv_progress_def

lemma inv_depsI:
  assumes "distinct (concat (txn_dependency s))"
    and "\<And>j d. j < n \<Longrightarrow> d \<in> set (txn_dependency s ! j) \<Longrightarrow> j < d"
    and "\<And>j d. j < n \<Longrightarrow> d \<in> set (txn_dependency s ! j) \<Longrightarrow> d < n"
    and "\<And>j d. j < n \<Longrightarrow> d \<in> set (txn_dependency s ! j) \<Longrightarrow> \<exists>c. status_of s d = Executing c"
    and "\<And>j d c. j < n \<Longrightarrow> d \<in> set (txn_dependency s ! j) \<Longrightarrow> status_of s j \<noteq> Executed c"
  shows "inv_deps n s"
  unfolding inv_deps_def using assms by blast

lemma inv_progressI:
  assumes "\<And>i c. i < n \<Longrightarrow> status_of s i \<noteq> Aborting c"
    and "\<And>i c. i < n \<Longrightarrow> i < execution_idx s \<Longrightarrow> status_of s i \<noteq> ReadyToExecute c"
    and "done_marker s \<Longrightarrow> stop_idx s \<le> validation_idx s \<and> stop_idx s \<le> execution_idx s
           \<and> num_active_tasks s = 0"
  shows "inv_progress n s"
  unfolding inv_progress_def using assms by blast

lemma inv_execI:
  assumes "\<And>v. count T (ExecutionTask v) \<le> 1"
    and "\<And>i c. ExecutionTask (i, c) \<in># T \<Longrightarrow> i < n"
    and "\<And>i c. ExecutionTask (i, c) \<in># T \<Longrightarrow> status_of s i = Executing c"
    and "\<And>i c. ExecutionTask (i, c) \<in># T \<Longrightarrow> i \<notin> waiting s"
    and "\<And>i c. ValidationTask (i, c) \<in># T \<Longrightarrow> i < n"
    and "\<And>i c. i < n \<Longrightarrow> status_of s i = Executing c \<Longrightarrow> ExecutionTask (i, c) \<in># T \<or> i \<in> waiting s"
  shows "inv_exec n s T"
  unfolding inv_exec_def using assms by blast

lemma inv_frames:
  assumes "txn_status s' = txn_status s" and "txn_dependency s' = txn_dependency s"
  shows "inv_exec n s' T = inv_exec n s T" and "inv_deps n s' = inv_deps n s"
  unfolding inv_exec_def inv_deps_def assms by (rule refl)+

lemma sched_inv_inactive [simp]:
  assumes "\<not> active_task t"
  shows "sched_inv n s (add_mset t T) = sched_inv n s T"
proof -
  from assms have t: "t = NoTask \<or> t = Done" by (cases t) auto
  then have "inv_shape n s (add_mset t T) = inv_shape n s T" by (auto simp: inv_shape_def)
  moreover from t have "inv_exec n s (add_mset t T) = inv_exec n s T" by (auto simp: inv_exec_def)
  ultimately show ?thesis by (simp add: sched_inv_def)
qed

lemma sched_inv_initial:
  "sched_inv n (with_backpressure n w) {#}"
  "sched_inv n (with_domain_plan n w b l) {#}"
  by (auto simp: sched_inv_defs with_backpressure_def with_domain_plan_def)

text \<open>The parts of the invariant as destruction rules.\<close>

lemma sched_inv_lengths:
  assumes "sched_inv n s T"
  shows "length (txn_status s) = n" and "length (txn_dependency s) = n" and "stop_idx s \<le> n"
  using assms by (auto simp: sched_inv_def inv_shape_def)

lemma sched_inv_guards:
  "sched_inv n s T \<Longrightarrow> num_active_tasks s = size (filter_mset active_task T)"
  by (simp add: sched_inv_def inv_shape_def)

lemma sched_inv_exec_task:
  assumes "sched_inv n s T" and "ExecutionTask (i, c) \<in># T"
  shows "i < n" and "status_of s i = Executing c" and "i \<notin> waiting s"
  using assms unfolding sched_inv_def inv_exec_def by blast+

lemma sched_inv_val_task: "sched_inv n s T \<Longrightarrow> ValidationTask (i, c) \<in># T \<Longrightarrow> i < n"
  unfolding sched_inv_def inv_exec_def by blast

lemma sched_inv_other_task:
  assumes "sched_inv n s (add_mset t T)"
  shows "ExecutionTask (i, c) \<in># T \<Longrightarrow> i < n"
    and "ExecutionTask (i, c) \<in># T \<Longrightarrow> status_of s i = Executing c"
    and "ExecutionTask (i, c) \<in># T \<Longrightarrow> i \<notin> waiting s"
    and "ValidationTask (i, c) \<in># T \<Longrightarrow> i < n"
  using sched_inv_exec_task[OF assms, of i c] sched_inv_val_task[OF assms, of i c] by simp_all

lemma sched_inv_count: "sched_inv n s T \<Longrightarrow> count T (ExecutionTask v) \<le> 1"
  unfolding sched_inv_def inv_exec_def by blast

text \<open>The transaction a worker is executing, seen from that worker.\<close>

lemma sched_inv_in_hand:
  assumes inv: "sched_inv n s (add_mset (ExecutionTask (i, c)) T)"
  shows "i < n" and "status_of s i = Executing c" and "i \<notin> waiting s" and "ExecutionTask (i, d) \<notin># T"
proof -
  have hand: "ExecutionTask (i, c) \<in># add_mset (ExecutionTask (i, c)) T" by simp
  note exec = sched_inv_exec_task[OF inv hand]
  show "i < n" and "status_of s i = Executing c" and "i \<notin> waiting s" by (rule exec)+
  show "ExecutionTask (i, d) \<notin># T"
  proof
    assume "ExecutionTask (i, d) \<in># T"
    moreover then have "d = c" using sched_inv_other_task(2)[OF inv, of i d] exec(2) by simp
    ultimately have "count (add_mset (ExecutionTask (i, c)) T) (ExecutionTask (i, c)) \<ge> 2"
      by (simp add: Suc_le_eq)
    with sched_inv_count[OF inv, of "(i, c)"] show False by simp
  qed
qed

lemma sched_inv_executing:
  "sched_inv n s T \<Longrightarrow> i < n \<Longrightarrow> status_of s i = Executing c \<Longrightarrow>
   ExecutionTask (i, c) \<in># T \<or> i \<in> waiting s"
  unfolding sched_inv_def inv_exec_def by blast

lemma sched_inv_distinct_deps: "sched_inv n s T \<Longrightarrow> distinct (concat (txn_dependency s))"
  by (simp add: sched_inv_def inv_deps_def)

lemma sched_inv_dep:
  assumes "sched_inv n s T" and "j < n" and "d \<in> set (txn_dependency s ! j)"
  shows "j < d" and "d < n" and "\<exists>c. status_of s d = Executing c" and "status_of s j \<noteq> Executed c"
  using assms unfolding sched_inv_def inv_deps_def by blast+

lemma sched_inv_not_aborting: "sched_inv n s T \<Longrightarrow> i < n \<Longrightarrow> status_of s i \<noteq> Aborting c"
  unfolding sched_inv_def inv_progress_def by blast

lemma sched_inv_below_exec:
  "sched_inv n s T \<Longrightarrow> i < n \<Longrightarrow> i < execution_idx s \<Longrightarrow> status_of s i \<noteq> ReadyToExecute c"
  unfolding sched_inv_def inv_progress_def by blast

lemma sched_inv_done:
  assumes "sched_inv n s T" and "done_marker s"
  shows "stop_idx s \<le> validation_idx s" and "stop_idx s \<le> execution_idx s" and "num_active_tasks s = 0"
  using assms unfolding sched_inv_def inv_progress_def by blast+

text \<open>Who waits is executing.\<close>

lemma sched_inv_waiting:
  assumes inv: "sched_inv n s T" and "i \<in> waiting s"
  shows "i < n" and "\<exists>c. status_of s i = Executing c"
proof -
  from assms(2) obtain j where "j < n" "i \<in> set (txn_dependency s ! j)"
    unfolding set_concat_nth sched_inv_lengths(2)[OF inv] by blast
  with sched_inv_dep[OF inv] show "i < n" and "\<exists>c. status_of s i = Executing c" by blast+
qed

text \<open>Fields the invariant does not mention, and the execution index going down.\<close>

lemma sched_inv_frame:
  assumes inv: "sched_inv n s T"
    and st: "txn_status s' = txn_status s" and dep: "txn_dependency s' = txn_dependency s"
    and "stop_idx s' \<le> stop_idx s" and "num_active_tasks s' = num_active_tasks s"
    and "execution_idx s' \<le> execution_idx s"
    and "done_marker s' \<Longrightarrow> stop_idx s' \<le> validation_idx s' \<and> stop_idx s' \<le> execution_idx s'
           \<and> num_active_tasks s' = 0"
  shows "sched_inv n s' T"
proof -
  have "inv_shape n s' T" using assms(1-5) by (auto simp: sched_inv_def inv_shape_def)
  moreover have "inv_exec n s' T" using inv unfolding sched_inv_def inv_exec_def st dep by blast
  moreover have "inv_deps n s'" using inv unfolding sched_inv_def inv_deps_def st dep by blast
  moreover have "inv_progress n s'"
    using assms(6,7) sched_inv_not_aborting[OF inv] sched_inv_below_exec[OF inv]
    unfolding inv_progress_def st by (meson order.strict_trans2)
  ultimately show ?thesis by (simp add: sched_inv_def)
qed

lemma sched_inv_active_not_done:
  "sched_inv n s (add_mset t T) \<Longrightarrow> active_task t \<Longrightarrow> \<not> done_marker s"
  using sched_inv_done(3) sched_inv_guards by fastforce

lemma sched_inv_done_no_task: "sched_inv n s T \<Longrightarrow> done_marker s \<Longrightarrow> active_task t \<Longrightarrow> t \<notin># T"
  using sched_inv_active_not_done by (metis multi_member_split)

section \<open>Fetching a task\<close>

lemma sched_inv_check_done: "sched_inv n s T \<Longrightarrow> sched_inv n (snd (check_done (stop_idx s) s)) T"
  by (auto simp: check_done_def Let_def intro: sched_inv_frame)

lemma guard_new_drop: "guard_drop (s\<lparr>num_active_tasks := num_active_tasks s + 1\<rparr>) = Inr s"
  by (simp add: guard_drop_def)

text \<open>What a successful or failed attempt to fetch a task does, field by field.\<close>

lemma is_executed_frame [simp]:
  "is_executed i (s\<lparr>validation_idx := v\<rparr>) = is_executed i s"
  "is_executed i (s\<lparr>num_active_tasks := a\<rparr>) = is_executed i s"
  by (simp_all add: is_executed_def)

lemma try_validate_cases:
  assumes "try_validate_next_version s = Inr (r, s')"
  obtains (finished) "stop_idx s \<le> validation_idx s" "r = None" "s' = snd (check_done (stop_idx s) s)"
  | (task) c where "validation_idx s < stop_idx s" "is_executed (validation_idx s) s = Some c"
      "r = Some (validation_idx s, c)"
      "s' = s\<lparr>num_active_tasks := num_active_tasks s + 1, validation_idx := validation_idx s + 1\<rparr>"
  | (skip) "validation_idx s < stop_idx s" "is_executed (validation_idx s) s = None" "r = None"
      "s' = s\<lparr>validation_idx := validation_idx s + 1\<rparr>"
proof (cases "stop_idx s \<le> validation_idx s")
  case True
  then show ?thesis using assms finished
    by (simp add: try_validate_next_version_def num_txn_to_execute_def)
next
  case False
  note unfold = try_validate_next_version_def num_txn_to_execute_def guard_new_def guard_drop_def Let_def
  show ?thesis
  proof (cases "is_executed (validation_idx s) s")
    case None
    show ?thesis by (rule skip) (use False None assms in \<open>simp_all add: unfold\<close>)
  next
    case (Some c)
    show ?thesis by (rule task[of c]) (use False Some assms in \<open>simp_all add: unfold\<close>)
  qed
qed

lemma try_execute_cases:
  assumes "try_execute_next_version s = Inr (r, s')"
  obtains (finished) "stop_idx s \<le> execution_idx s" "r = None" "s' = snd (check_done (stop_idx s) s)"
  | (task) c where "execution_idx s < stop_idx s" "execution_idx s < length (txn_status s)"
      "status_of s (execution_idx s) = ReadyToExecute c"
      "r = Some (execution_idx s, c)"
      "s' = s\<lparr>num_active_tasks := num_active_tasks s + 1, execution_idx := execution_idx s + 1,
              txn_status := (txn_status s)[execution_idx s := Executing c]\<rparr>"
  | (skip) "execution_idx s < stop_idx s" "r = None"
      "execution_idx s < length (txn_status s) \<longrightarrow> (\<forall>c. status_of s (execution_idx s) \<noteq> ReadyToExecute c)"
      "s' = s\<lparr>execution_idx := execution_idx s + 1\<rparr>"
proof (cases "stop_idx s \<le> execution_idx s")
  case True
  then show ?thesis using assms finished
    by (simp add: try_execute_next_version_def num_txn_to_execute_def)
next
  case False
  note unfold = try_execute_next_version_def num_txn_to_execute_def guard_new_def guard_drop_def
    try_incarnate_def Let_def
  show ?thesis
  proof (cases "length (txn_status s) \<le> execution_idx s")
    case True
    show ?thesis by (rule skip) (use False True assms in \<open>simp_all add: unfold\<close>)
  next
    case in_range: False
    show ?thesis
    proof (cases "status_of s (execution_idx s)")
      case (ReadyToExecute c)
      show ?thesis
        by (rule task[of c]) (use False in_range ReadyToExecute assms in \<open>simp_all add: unfold\<close>)
    next
      case (Executing c)
      show ?thesis by (rule skip) (use False in_range Executing assms in \<open>simp_all add: unfold\<close>)
    next
      case (Executed c)
      show ?thesis by (rule skip) (use False in_range Executed assms in \<open>simp_all add: unfold\<close>)
    next
      case (Aborting c)
      show ?thesis by (rule skip) (use False in_range Aborting assms in \<open>simp_all add: unfold\<close>)
    qed
  qed
qed

definition with_task :: "(Version \<Rightarrow> SchedulerTask) \<Rightarrow> Version option \<Rightarrow> SchedulerTask multiset \<Rightarrow> SchedulerTask multiset" where
  "with_task mk r T = (case r of None \<Rightarrow> T | Some v \<Rightarrow> add_mset (mk v) T)"



lemma with_task_simps [simp]:
  "with_task mk None T = T" "with_task mk (Some v) T = add_mset (mk v) T"
  by (simp_all add: with_task_def)

section \<open>The moves of a task\<close>

text \<open>Taking and giving back a validation task.\<close>

lemma sched_inv_add_validation:
  assumes inv: "sched_inv n s T" and nd: "\<not> done_marker s" and i: "i < n"
  shows "sched_inv n (s\<lparr>num_active_tasks := num_active_tasks s + 1\<rparr>) (add_mset (ValidationTask (i, c)) T)"
proof -
  have "inv_shape n (s\<lparr>num_active_tasks := num_active_tasks s + 1\<rparr>) (add_mset (ValidationTask (i, c)) T)"
    using inv by (auto simp: sched_inv_def inv_shape_def)
  moreover have "inv_exec n s (add_mset (ValidationTask (i, c)) T)"
    using sched_inv_count[OF inv] sched_inv_exec_task[OF inv] sched_inv_val_task[OF inv]
      sched_inv_executing[OF inv] i
    unfolding inv_exec_def by auto
  moreover have "inv_progress n (s\<lparr>num_active_tasks := num_active_tasks s + 1\<rparr>)"
    using sched_inv_not_aborting[OF inv] sched_inv_below_exec[OF inv] nd
    unfolding inv_progress_def by simp
  ultimately show ?thesis
    using inv inv_frames[of "s\<lparr>num_active_tasks := num_active_tasks s + 1\<rparr>" s]
    unfolding sched_inv_def by simp
qed

lemma sched_inv_drop_validation:
  assumes inv: "sched_inv n s (add_mset (ValidationTask v) T)"
    and s': "s' = s\<lparr>num_active_tasks := num_active_tasks s - 1\<rparr>"
  shows "sched_inv n s' T"
proof -
  have nd: "\<not> done_marker s" using sched_inv_active_not_done[OF inv] by simp
  have "inv_shape n s' T" using inv s' by (auto simp: sched_inv_def inv_shape_def)
  moreover have "inv_exec n s T"
    unfolding inv_exec_def
  proof (intro conjI allI impI)
    fix w show "count T (ExecutionTask w) \<le> 1"
      using sched_inv_count[OF inv, of w] by simp
  next
    fix j d assume "ExecutionTask (j, d) \<in># T"
    then show "j < n" and "status_of s j = Executing d" and "j \<notin> waiting s"
      by (rule sched_inv_other_task[OF inv])+
  next
    fix j d assume "ValidationTask (j, d) \<in># T"
    then show "j < n" by (rule sched_inv_other_task[OF inv])
  next
    fix j d assume "j < n" and "status_of s j = Executing d"
    then show "ExecutionTask (j, d) \<in># T \<or> j \<in> waiting s"
      using sched_inv_executing[OF inv, of j d] by simp
  qed
  moreover have "inv_progress n s'"
    using sched_inv_not_aborting[OF inv] sched_inv_below_exec[OF inv] nd s'
    unfolding inv_progress_def by simp
  ultimately show ?thesis
    using inv s' inv_frames[of s' s] unfolding sched_inv_def by simp
qed

text \<open>Taking up a transaction that is ready.\<close>

lemma sched_inv_start_execution:
  assumes inv: "sched_inv n s T" and nd: "\<not> done_marker s" and i: "i < n"
    and ready: "status_of s i = ReadyToExecute c"
    and idx: "\<And>j d. j < n \<Longrightarrow> j < execution_idx s' \<Longrightarrow> j \<noteq> i \<Longrightarrow> status_of s j \<noteq> ReadyToExecute d"
    and s': "txn_status s' = (txn_status s)[i := Executing c]" "txn_dependency s' = txn_dependency s"
      "num_active_tasks s' = num_active_tasks s + 1" "stop_idx s' = stop_idx s" "\<not> done_marker s'"
  shows "sched_inv n s' (add_mset (ExecutionTask (i, c)) T)"
proof -
  note len = sched_inv_lengths[OF inv]
  have status': "status_of s' j = (if j = i then Executing c else status_of s j)" for j
    using s'(1) i len by (simp add: nth_list_update)
  have notask: "ExecutionTask (i, c') \<notin># T" for c'
    using sched_inv_exec_task(2)[OF inv] ready by fastforce
  have nowait: "i \<notin> waiting s"
    using sched_inv_waiting(2)[OF inv] ready by fastforce
  have "inv_shape n s' (add_mset (ExecutionTask (i, c)) T)"
    using inv s' by (auto simp: sched_inv_def inv_shape_def)
  moreover have "inv_exec n s' (add_mset (ExecutionTask (i, c)) T)"
    unfolding inv_exec_def s'(2)
  proof (intro conjI allI impI)
    fix v show "count (add_mset (ExecutionTask (i, c)) T) (ExecutionTask v) \<le> 1"
      using sched_inv_count[OF inv, of v] notask by (auto simp: not_in_iff)
  next
    fix j d assume "ExecutionTask (j, d) \<in># add_mset (ExecutionTask (i, c)) T"
    then consider "j = i" "d = c" | "ExecutionTask (j, d) \<in># T" "j \<noteq> i"
      using notask by auto
    then show "j < n" and "status_of s' j = Executing d" and "j \<notin> waiting s"
      using sched_inv_exec_task[OF inv] i nowait status' by (cases; auto)+
  next
    fix j d assume "ValidationTask (j, d) \<in># add_mset (ExecutionTask (i, c)) T"
    then show "j < n" using sched_inv_val_task[OF inv] by auto
  next
    fix j d assume "j < n" and "status_of s' j = Executing d"
    then show "ExecutionTask (j, d) \<in># add_mset (ExecutionTask (i, c)) T \<or> j \<in> waiting s"
      using sched_inv_executing[OF inv, of j d] status' by (cases "j = i") auto
  qed
  moreover have "inv_deps n s'"
  proof (rule inv_depsI)
    show "distinct (concat (txn_dependency s'))" using sched_inv_distinct_deps[OF inv] s'(2) by simp
  next
    fix j d assume jd: "j < n" "d \<in> set (txn_dependency s' ! j)"
    note dep = sched_inv_dep[OF inv jd(1) jd(2)[unfolded s'(2)]]
    show "j < d" and "d < n" by (rule dep)+
    show "\<exists>c. status_of s' d = Executing c" using dep(3) status' by auto
    show "status_of s' j \<noteq> Executed c'" for c' using dep(4) status' by simp
  qed
  moreover have "inv_progress n s'"
  proof (rule inv_progressI)
    show "status_of s' j \<noteq> Aborting d" if "j < n" for j d
      using sched_inv_not_aborting[OF inv that] status' by simp
    show "status_of s' j \<noteq> ReadyToExecute d" if "j < n" "j < execution_idx s'" for j d
      using idx[OF that] status' by auto
  qed (use s'(5) in simp_all)
  ultimately show ?thesis by (simp add: sched_inv_def)
qed

lemma sched_inv_try_validate:
  assumes inv: "sched_inv n s T" and run: "try_validate_next_version s = Inr (r, s')"
  shows "sched_inv n s' (with_task ValidationTask r T)"
  using run
proof (cases rule: try_validate_cases)
  case finished
  with inv show ?thesis by (simp add: sched_inv_check_done)
next
  case (task c)
  have nd: "\<not> done_marker s" using sched_inv_done(1)[OF inv] task(1) by auto
  have "validation_idx s < n" using task(1) sched_inv_lengths(3)[OF inv] by simp
  from sched_inv_add_validation[OF inv nd this, of c] show ?thesis
    unfolding task(3,4) with_task_simps by (rule sched_inv_frame) (use nd in auto)
next
  case skip
  have nd: "\<not> done_marker s" using sched_inv_done(1)[OF inv] skip(1) by auto
  show ?thesis unfolding skip(3,4) with_task_simps
    by (rule sched_inv_frame[OF inv]) (use nd in auto)
qed

lemma sched_inv_try_execute:
  assumes inv: "sched_inv n s T" and run: "try_execute_next_version s = Inr (r, s')"
  shows "sched_inv n s' (with_task ExecutionTask r T)"
  using run
proof (cases rule: try_execute_cases)
  case finished
  with inv show ?thesis by (simp add: sched_inv_check_done)
next
  case (task c)
  have nd: "\<not> done_marker s" using sched_inv_done(2)[OF inv] task(1) by auto
  show ?thesis unfolding task(4) with_task_simps
  proof (rule sched_inv_start_execution[OF inv nd])
    show "status_of s j \<noteq> ReadyToExecute d"
      if "j < n" "j < execution_idx s'" "j \<noteq> execution_idx s" for j d
      using sched_inv_below_exec[OF inv that(1)] that task(5) by simp
  qed (use task nd sched_inv_lengths[OF inv] in auto)
next
  case skip
  have nd: "\<not> done_marker s" using sched_inv_done(2)[OF inv] skip(1) by auto
  have "inv_progress n s'"
    using sched_inv_not_aborting[OF inv] sched_inv_below_exec[OF inv] skip(3,4) nd
      sched_inv_lengths(1)[OF inv]
    unfolding inv_progress_def by (auto simp: less_Suc_eq)
  then show ?thesis using inv skip(2,4) inv_frames[of s' s]
    by (simp add: sched_inv_def inv_shape_def)
qed

text \<open>A round of \<open>next_task\<close>: the three ways a task is fetched, in the order the code tries them.\<close>

definition round_task :: "SchedulerTask option \<Rightarrow> SchedulerTask" where
  "round_task r = (case r of Some t \<Rightarrow> t | None \<Rightarrow> NoTask)"

lemma sched_inv_round_task:
  "sched_inv n s (add_mset (round_task (map_option mk r)) T) = sched_inv n s (with_task mk r T)"
  by (cases r) (simp_all add: round_task_def)

lemma next_task_round_cases:
  assumes run: "next_task_round s = Inr (r, s')"
  obtains (finished) "done_marker s" "r = Some Done" "s' = s"
  | (validate) s0 where "s0 = s \<or> s0 = s\<lparr>wait_count := wait_count s + 1\<rparr>" "\<not> done_marker s"
      "fetch_validation s0 = Inr (r, s')"
  | (execute) "fetch_execution s = Inr (r, s')"
  | (validate_twice) s1 where "fetch_validation s = Inr (None, s1)" "fetch_validation s1 = Inr (r, s')"
  | (validate_execute) s1 where "fetch_validation s = Inr (None, s1)" "fetch_execution s1 = Inr (r, s')"
proof -
  consider (d) "done_marker s" | (bp) "\<not> done_marker s" "under_backpressure s"
    | (seg) "\<not> done_marker s" "\<not> under_backpressure s" "at_closed_segment s"
    | (free) "\<not> done_marker s" "\<not> under_backpressure s" "\<not> at_closed_segment s"
    by blast
  then show ?thesis
  proof cases
    case d
    with run show ?thesis by (intro finished) (simp_all add: next_task_round_def)
  next
    case bp
    with run show ?thesis by (intro validate) (simp_all add: next_task_round_def)
  next
    case seg
    with run obtain r1 s1 where first: "fetch_validation s = Inr (r1, s1)"
      and rest: "(case r1 of Some t \<Rightarrow> Inr (Some t, s1)
        | None \<Rightarrow> if validation_idx s < execution_idx s then fetch_validation s1 else fetch_execution s1)
        = Inr (r, s')"
      by (auto simp: next_task_round_def fault_simps)
    show ?thesis
    proof (cases r1)
      case None
      with first rest show ?thesis
        using validate_twice validate_execute by (cases "validation_idx s < execution_idx s") simp_all
    next
      case (Some t)
      with first rest seg(1) show ?thesis by (intro validate[of s]) simp_all
    qed
  next
    case free
    with run have "(if validation_idx s < execution_idx s then fetch_validation s else fetch_execution s)
      = Inr (r, s')"
      by (simp add: next_task_round_def)
    with free(1) show ?thesis
      using validate[of s] execute by (cases "validation_idx s < execution_idx s") simp_all
  qed
qed

lemma sched_inv_fetch_validation:
  "sched_inv n s T \<Longrightarrow> fetch_validation s = Inr (r, s') \<Longrightarrow> sched_inv n s' (add_mset (round_task r) T)"
  by (auto simp: fetch_validation_def fault_simps sched_inv_round_task sched_inv_try_validate)

lemma sched_inv_fetch_execution:
  "sched_inv n s T \<Longrightarrow> fetch_execution s = Inr (r, s') \<Longrightarrow> sched_inv n s' (add_mset (round_task r) T)"
  by (auto simp: fetch_execution_def fault_simps sched_inv_round_task sched_inv_try_execute)

lemma sched_inv_next_task_round:
  assumes inv: "sched_inv n s T" and "next_task_round s = Inr (r, s')"
  shows "sched_inv n s' (add_mset (round_task r) T)"
  using assms(2)
proof (cases rule: next_task_round_cases)
  case finished
  with inv show ?thesis by (simp add: round_task_def)
next
  case (validate s0)
  have "sched_inv n s0 T"
    by (rule sched_inv_frame[OF inv]) (use validate(1,2) in auto)
  with validate(3) show ?thesis by (rule sched_inv_fetch_validation[rotated])
next
  case execute
  with inv show ?thesis by (rule sched_inv_fetch_execution)
next
  case (validate_twice s1)
  from sched_inv_fetch_validation[OF inv validate_twice(1)] have "sched_inv n s1 T"
    by (simp add: round_task_def)
  with validate_twice(2) show ?thesis by (rule sched_inv_fetch_validation[rotated])
next
  case (validate_execute s1)
  from sched_inv_fetch_validation[OF inv validate_execute(1)] have "sched_inv n s1 T"
    by (simp add: round_task_def)
  with validate_execute(2) show ?thesis by (rule sched_inv_fetch_execution[rotated])
qed

section \<open>Suspending on a dependency\<close>

lemma try_add_dependency_cases:
  assumes "try_add_dependency i dep s = Inr (b, s')"
  shows "dep < length (txn_dependency s)"
    and "b \<longleftrightarrow> is_executed dep s = None"
    and "\<not> b \<Longrightarrow> s' = s"
    and "b \<Longrightarrow> s' = s\<lparr>txn_dependency := (txn_dependency s)[dep := txn_dependency s ! dep @ [i]]\<rparr>"
  using assms by (auto simp: try_add_dependency_def fault_simps split: if_splits)

lemma drop_task_Inr [fault_simps]:
  "drop_task s = Inr (t, s') \<longleftrightarrow>
     t = NoTask \<and> num_active_tasks s > 0 \<and> s' = s\<lparr>num_active_tasks := num_active_tasks s - 1\<rparr>"
  by (auto simp: drop_task_def guard_drop_def fault_simps)

lemma sched_inv_drop_task:
  "sched_inv n s (add_mset (ValidationTask v) T) \<Longrightarrow> drop_task s = Inr (t, s') \<Longrightarrow> sched_inv n s' (add_mset t T)"
  by (auto simp: fault_simps sched_inv_drop_validation)

lemma sched_inv_suspend:
  assumes inv: "sched_inv n s (add_mset (ExecutionTask (i, c)) T)" and lower: "dep < i"
    and add: "try_add_dependency i dep s = Inr (True, s1)"
    and s': "s' = s1\<lparr>num_active_tasks := num_active_tasks s1 - 1\<rparr>"
  shows "sched_inv n s' T"
proof -
  note len = sched_inv_lengths[OF inv]
  note exec = sched_inv_in_hand[OF inv]
  have nd: "\<not> done_marker s" using sched_inv_active_not_done[OF inv] by simp
  have dep: "dep < n" "is_executed dep s = None"
    and s1: "s1 = s\<lparr>txn_dependency := (txn_dependency s)[dep := txn_dependency s ! dep @ [i]]\<rparr>"
    using try_add_dependency_cases[OF add] len by auto
  have status' [simp]: "txn_status s' = txn_status s" using s' s1 by simp
  have deps': "txn_dependency s' ! j = (if j = dep then txn_dependency s ! dep @ [i] else txn_dependency s ! j)"
    for j using s' s1 dep(1) len by (simp add: nth_list_update)
  have waiting': "waiting s' = insert i (waiting s)"
    using set_concat_update_snoc[of dep "txn_dependency s" i] dep(1) len(2) by (simp add: s' s1)
  note once = sched_inv_in_hand(4)[OF inv]
  have "inv_shape n s' T" using inv s' s1 by (auto simp: sched_inv_def inv_shape_def)
  moreover have "inv_exec n s' T"
  proof (rule inv_execI)
    show "count T (ExecutionTask v) \<le> 1" for v
      using sched_inv_count[OF inv, of v] by (auto split: if_splits)
    show "j \<notin> waiting s'" if "ExecutionTask (j, d) \<in># T" for j d
      using sched_inv_exec_task(3)[OF inv, of j d] that once waiting' by auto
    show "ExecutionTask (j, d) \<in># T \<or> j \<in> waiting s'"
      if "j < n" "status_of s' j = Executing d" for j d
      using sched_inv_executing[OF inv that(1), of d] that(2) waiting' by auto
  qed (simp_all add: sched_inv_other_task[OF inv])
  moreover have "inv_deps n s'"
  proof (rule inv_depsI)
    show "distinct (concat (txn_dependency s'))"
      using distinct_concat_update_snoc[OF sched_inv_distinct_deps[OF inv], of dep i] dep(1) len exec(3) s' s1
      by simp
  next
    fix j d assume j: "j < n" and d: "d \<in> set (txn_dependency s' ! j)"
    from d consider "j = dep" "d = i" | "d \<in> set (txn_dependency s ! j)"
      by (auto simp: deps' split: if_splits)
    then show "j < d" and "d < n" and "\<exists>c. status_of s' d = Executing c"
      and "status_of s' j \<noteq> Executed c'" for c'
      using sched_inv_dep[OF inv j, of d] lower exec dep(2) j len(1)
      by (cases; auto simp: is_executed_def)+
  qed
  moreover have "inv_progress n s'"
    by (rule inv_progressI)
      (use sched_inv_not_aborting[OF inv] sched_inv_below_exec[OF inv] nd s' s1 in auto)
  ultimately show ?thesis by (simp add: sched_inv_def)
qed

end
