(* ===== verification/SchedulerFinish.thy ===== *)
theory SchedulerFinish
  imports SchedulerInv
begin

text \<open>
  The end of an execution and the end of an abort: what \<open>finish_execution\<close> and
  \<open>finish_abort\<close> do to the scheduler, that they keep its invariant, and that neither can
  panic where the invariant holds. In particular \<open>resume\<close> never reaches its
  \<open>unreachable!()\<close>.
\<close>

section \<open>Resuming the transactions that waited\<close>

fun bump :: "TransactionStatus \<Rightarrow> TransactionStatus" where
  "bump (Executing c) = ReadyToExecute (c + 1)"
| "bump st = st"

lemma rfold_resume:
  assumes "distinct ds" and "\<And>d. d \<in> set ds \<Longrightarrow> d < length (txn_status s) \<and> (\<exists>c. status_of s d = Executing c)"
  shows "\<exists>st. rfold resume ds s = Inr (s\<lparr>txn_status := st\<rparr>) \<and> length st = length (txn_status s)
    \<and> (\<forall>j. st ! j = (if j \<in> set ds then bump (status_of s j) else status_of s j))"
  using assms
proof (induction ds arbitrary: s)
  case Nil
  show ?case by (intro exI[of _ "txn_status s"]) simp
next
  case (Cons d ds)
  obtain c where d: "d < length (txn_status s)" "status_of s d = Executing c"
    using Cons.prems(2)[of d] by auto
  let ?s1 = "s\<lparr>txn_status := (txn_status s)[d := ReadyToExecute (c + 1)]\<rparr>"
  have res: "resume d s = Inr ?s1" using d by (simp add: resume_def)
  have "\<exists>st. rfold resume ds ?s1 = Inr (?s1\<lparr>txn_status := st\<rparr>) \<and> length st = length (txn_status ?s1)
    \<and> (\<forall>j. st ! j = (if j \<in> set ds then bump (status_of ?s1 j) else status_of ?s1 j))"
    using Cons.prems by (intro Cons.IH) (auto simp: nth_list_update)
  then obtain st where st: "rfold resume ds ?s1 = Inr (?s1\<lparr>txn_status := st\<rparr>)"
    "length st = length (txn_status s)"
    "\<And>j. st ! j = (if j \<in> set ds then bump (status_of ?s1 j) else status_of ?s1 j)" by auto
  have "st ! j = (if j \<in> set (d # ds) then bump (status_of s j) else status_of s j)" for j
    using st(3)[of j] Cons.prems(1) d by (cases "j = d") auto
  with st(1,2) res show ?case by (intro exI[of _ st]) simp
qed

lemma fold_min_le: "fold min xs a \<le> a \<and> (\<forall>x \<in> set xs. fold min xs a \<le> x)" for a :: nat
proof (induction xs arbitrary: a)
  case (Cons x xs)
  from Cons.IH[of "min x a"] show ?case by (auto intro: order_trans)
qed simp

lemma min_list_opt_le: "min_list_opt xs = Some m \<Longrightarrow> x \<in> set xs \<Longrightarrow> m \<le> x"
  using fold_min_le[of xs "hd xs"] by (auto simp: min_list_opt_def split: if_splits)

lemma min_list_opt_None: "min_list_opt xs = None \<longleftrightarrow> xs = []"
  by (simp add: min_list_opt_def)

section \<open>Finishing an execution\<close>

text \<open>
  The state after the waiting transactions have been resumed, before the guard is dropped or
  handed on; the remaining branches only look at the validation index.
\<close>

definition after_execution :: "TxnIndex \<Rightarrow> Incarnation \<Rightarrow> Scheduler \<Rightarrow> Scheduler \<Rightarrow> bool" where
  "after_execution i c s s3 \<longleftrightarrow>
     length (txn_status s3) = length (txn_status s) \<and>
     (\<forall>j. status_of s3 j = (if j = i then Executed c
            else if j \<in> set (txn_dependency s ! i) then bump (status_of s j) else status_of s j)) \<and>
     txn_dependency s3 = (txn_dependency s)[i := []] \<and>
     execution_idx s3 \<le> execution_idx s \<and>
     (\<forall>d \<in> set (txn_dependency s ! i). execution_idx s3 \<le> d) \<and>
     validation_idx s3 = validation_idx s \<and> num_active_tasks s3 = num_active_tasks s \<and>
     stop_idx s3 = stop_idx s \<and> done_marker s3 = done_marker s"

lemma finish_execution_state:
  assumes inv: "sched_inv n s (add_mset (ExecutionTask (i, c)) T)"
  obtains s3 where "after_execution i c s s3"
    and "finish_execution i c b s =
      (if validation_idx s > i
       then (if b then drop_task (decrease_validation_idx i s3) else Inr (ValidationTask (i, c), s3))
       else drop_task s3)"
proof -
  note len = sched_inv_lengths[OF inv]
  note i = sched_inv_in_hand(1)[OF inv]
  let ?ds = "txn_dependency s ! i"
  let ?s1 = "s\<lparr>txn_status := (txn_status s)[i := Executed c],
               txn_dependency := (txn_dependency s)[i := []]\<rparr>"
  have ds: "d < n" "i < d" "\<exists>c. status_of s d = Executing c" if "d \<in> set ?ds" for d
    using sched_inv_dep[OF inv i that] by auto
  have "\<exists>st. rfold resume ?ds ?s1 = Inr (?s1\<lparr>txn_status := st\<rparr>) \<and> length st = length (txn_status ?s1)
    \<and> (\<forall>j. st ! j = (if j \<in> set ?ds then bump (status_of ?s1 j) else status_of ?s1 j))"
  proof (rule rfold_resume)
    have "?ds \<in> set (txn_dependency s)" using i len by simp
    then show "distinct ?ds" using sched_inv_distinct_deps[OF inv] by (simp add: distinct_concat_iff)
  next
    fix d assume "d \<in> set ?ds"
    with ds[OF this] len show "d < length (txn_status ?s1) \<and> (\<exists>c. status_of ?s1 d = Executing c)" by auto
  qed
  then obtain st where st: "rfold resume ?ds ?s1 = Inr (?s1\<lparr>txn_status := st\<rparr>)"
    "length st = n" "\<And>j. st ! j = (if j \<in> set ?ds then bump (status_of ?s1 j) else status_of ?s1 j)"
    using len by auto
  let ?s2 = "?s1\<lparr>txn_status := st\<rparr>"
  define s3 where "s3 = (case min_list_opt ?ds of Some t \<Rightarrow> decrease_execution_idx t ?s2 | None \<Rightarrow> ?s2)"
  have s3_eq: "(case min_list_opt ?ds of
        None \<Rightarrow> s\<lparr>txn_dependency := (txn_dependency s)[i := []], txn_status := st\<rparr>
      | Some t \<Rightarrow> decrease_execution_idx t (s\<lparr>txn_dependency := (txn_dependency s)[i := []], txn_status := st\<rparr>)) = s3"
    by (simp add: s3_def split: option.split)
  have frame: "txn_status s3 = st" "txn_dependency s3 = (txn_dependency s)[i := []]"
    "validation_idx s3 = validation_idx s" "num_active_tasks s3 = num_active_tasks s"
    "stop_idx s3 = stop_idx s" "done_marker s3 = done_marker s" "execution_idx s3 \<le> execution_idx s"
    by (auto simp: s3_def decrease_execution_idx_def Let_def split: option.splits)
  have low: "execution_idx s3 \<le> d" if "d \<in> set ?ds" for d
  proof (cases "min_list_opt ?ds")
    case None
    with that show ?thesis by (simp add: min_list_opt_None)
  next
    case (Some m)
    with min_list_opt_le[OF Some that] show ?thesis
      by (simp add: s3_def decrease_execution_idx_def Let_def)
  qed
  have status3: "st ! j = (if j = i then Executed c
            else if j \<in> set ?ds then bump (status_of s j) else status_of s j)" for j
    using st(3)[of j] ds(2)[of j] i len by (cases "j = i") auto
  have "after_execution i c s s3"
    unfolding after_execution_def using frame low status3 st(2) len by auto
  moreover have "finish_execution i c b s =
      (if validation_idx s > i
       then (if b then drop_task (decrease_validation_idx i s3) else Inr (ValidationTask (i, c), s3))
       else drop_task s3)"
    using st(1) i len frame(3)
    by (simp add: finish_execution_def set_executed_status_def s3_eq Let_def)
  ultimately show ?thesis by (rule that)
qed

text \<open>The worker may keep its guard as a validation task for the version it just wrote.\<close>

lemma sched_inv_after_execution:
  assumes inv: "sched_inv n s (add_mset (ExecutionTask (i, c)) T)" and after: "after_execution i c s s3"
  shows "sched_inv n s3 (add_mset (ValidationTask (i, c)) T)"
proof -
  note len = sched_inv_lengths[OF inv]
  note exec = sched_inv_in_hand[OF inv]
  let ?ds = "txn_dependency s ! i"
  have s3: "length (txn_status s3) = n" "txn_dependency s3 = (txn_dependency s)[i := []]"
    "num_active_tasks s3 = num_active_tasks s" "stop_idx s3 = stop_idx s" "\<not> done_marker s3"
    "execution_idx s3 \<le> execution_idx s"
    using after len sched_inv_active_not_done[OF inv] by (auto simp: after_execution_def)
  have status3: "status_of s3 j = (if j = i then Executed c
            else if j \<in> set ?ds then bump (status_of s j) else status_of s j)" for j
    using after by (simp add: after_execution_def)
  have low: "execution_idx s3 \<le> d" if "d \<in> set ?ds" for d
    using after that by (simp add: after_execution_def)
  have waiting3: "waiting s3 = waiting s - set ?ds"
    using set_concat_update_Nil[OF sched_inv_distinct_deps[OF inv], of i] exec(1) len s3(2) by simp
  have deps3: "txn_dependency s3 ! j = (if j = i then [] else txn_dependency s ! j)" for j
    using s3(2) exec(1) len by (simp add: nth_list_update)
  have executing3: "status_of s3 j = Executing d \<longleftrightarrow> j \<noteq> i \<and> j \<notin> set ?ds \<and> status_of s j = Executing d"
    for j d using status3[of j] by (cases "status_of s j") auto
  have in_ds: "j \<in> waiting s" if "j \<in> set ?ds" for j
    using that exec(1) len unfolding set_concat_nth by auto
  note once = exec(4)
  have "inv_shape n s3 (add_mset (ValidationTask (i, c)) T)"
    using inv s3 by (auto simp: sched_inv_def inv_shape_def)
  moreover have "inv_exec n s3 (add_mset (ValidationTask (i, c)) T)"
  proof (rule inv_execI)
    show "count (add_mset (ValidationTask (i, c)) T) (ExecutionTask v) \<le> 1" for v
      using sched_inv_count[OF inv, of v] by (auto split: if_splits)
    show "j < n" if "ExecutionTask (j, d) \<in># add_mset (ValidationTask (i, c)) T" for j d
      using sched_inv_other_task(1)[OF inv, of j d] that by simp
    show "status_of s3 j = Executing d" if "ExecutionTask (j, d) \<in># add_mset (ValidationTask (i, c)) T" for j d
    proof -
      from that have "ExecutionTask (j, d) \<in># T" by simp
      with sched_inv_other_task(2,3)[OF inv, of j d] once[of d] in_ds[of j]
      have "status_of s j = Executing d" and "j \<notin> set ?ds" and "j \<noteq> i" by blast+
      then show ?thesis using executing3 by blast
    qed
    show "j \<notin> waiting s3" if "ExecutionTask (j, d) \<in># add_mset (ValidationTask (i, c)) T" for j d
      using sched_inv_other_task(3)[OF inv, of j d] that waiting3 by auto
    show "j < n" if "ValidationTask (j, d) \<in># add_mset (ValidationTask (i, c)) T" for j d
      using sched_inv_other_task(4)[OF inv, of j d] that exec(1) by auto
    show "ExecutionTask (j, d) \<in># add_mset (ValidationTask (i, c)) T \<or> j \<in> waiting s3"
      if "j < n" "status_of s3 j = Executing d" for j d
      using sched_inv_executing[OF inv that(1), of d] that(2) executing3 waiting3 by auto
  qed
  moreover have "inv_deps n s3"
  proof (rule inv_depsI)
    show "distinct (concat (txn_dependency s3))"
      using distinct_concat_update_Nil[OF sched_inv_distinct_deps[OF inv]] s3(2) by simp
  next
    fix j d assume j: "j < n" and d: "d \<in> set (txn_dependency s3 ! j)"
    then have ji: "j \<noteq> i" and d': "d \<in> set (txn_dependency s ! j)" by (auto simp: deps3 split: if_splits)
    note dep = sched_inv_dep[OF inv j d']
    show "j < d" and "d < n" by (rule dep)+
    have "d \<notin> set ?ds"
      using distinct_concat_nth_inj[OF sched_inv_distinct_deps[OF inv], of i j d] exec(1) j d' ji len by auto
    moreover have "d \<noteq> i" using exec(3) d' j len unfolding set_concat_nth by auto
    ultimately show "\<exists>c. status_of s3 d = Executing c" using dep(3) executing3 by auto
    show "status_of s3 j \<noteq> Executed e" for e
      using status3[of j] ji dep(4) by (cases "status_of s j") auto
  qed
  moreover have "inv_progress n s3"
  proof (rule inv_progressI)
    show "status_of s3 j \<noteq> Aborting d" if "j < n" for j d
      using status3[of j] sched_inv_not_aborting[OF inv that] by (cases "status_of s j") auto
    show "status_of s3 j \<noteq> ReadyToExecute d" if "j < n" "j < execution_idx s3" for j d
      using status3[of j] sched_inv_below_exec[OF inv that(1)] low[of j] that(2) s3(6)
      by (cases "status_of s j") auto
  qed (use s3(5) in simp)
  ultimately show ?thesis by (simp add: sched_inv_def)
qed

lemma sched_inv_decrease_validation:
  assumes inv: "sched_inv n s T" and "\<not> done_marker s"
  shows "sched_inv n (decrease_validation_idx i s) T"
  by (rule sched_inv_frame[OF inv]) (use assms(2) in \<open>auto simp: decrease_validation_idx_def Let_def\<close>)

lemma sched_inv_finish_execution:
  assumes inv: "sched_inv n s (add_mset (ExecutionTask (i, c)) T)"
    and run: "finish_execution i c b s = Inr (t, s')"
  shows "sched_inv n s' (add_mset t T)"
proof -
  obtain s3 where after: "after_execution i c s s3"
    and fin: "finish_execution i c b s =
      (if validation_idx s > i
       then (if b then drop_task (decrease_validation_idx i s3) else Inr (ValidationTask (i, c), s3))
       else drop_task s3)"
    by (rule finish_execution_state[OF inv])
  note inv3 = sched_inv_after_execution[OF inv after]
  have nd: "\<not> done_marker s3" using sched_inv_active_not_done[OF inv3] by simp
  consider (rev) "validation_idx s > i" b | (val) "validation_idx s > i" "\<not> b" | (low) "\<not> validation_idx s > i"
    by blast
  then show ?thesis
  proof cases
    case rev
    then have "drop_task (decrease_validation_idx i s3) = Inr (t, s')" using run fin by simp
    with sched_inv_decrease_validation[OF inv3 nd] show ?thesis by (rule sched_inv_drop_task)
  next
    case val
    with run fin inv3 show ?thesis by simp
  next
    case low
    then have "drop_task s3 = Inr (t, s')" using run fin by simp
    with inv3 show ?thesis by (rule sched_inv_drop_task)
  qed
qed

lemma finish_execution_no_fault:
  assumes inv: "sched_inv n s (add_mset (ExecutionTask (i, c)) T)"
  shows "\<exists>t s'. finish_execution i c b s = Inr (t, s')"
proof -
  obtain s3 where after: "after_execution i c s s3"
    and fin: "finish_execution i c b s =
      (if validation_idx s > i
       then (if b then drop_task (decrease_validation_idx i s3) else Inr (ValidationTask (i, c), s3))
       else drop_task s3)"
    by (rule finish_execution_state[OF inv])
  have "num_active_tasks s3 > 0"
    using sched_inv_guards[OF sched_inv_after_execution[OF inv after]] by simp
  then show ?thesis
    by (auto simp: fin drop_task_def guard_drop_def decrease_validation_idx_def Let_def)
qed

section \<open>Finishing an abort\<close>

text \<open>Putting an executed transaction back, with the execution index below it.\<close>

lemma sched_inv_reset:
  assumes inv: "sched_inv n s T" and nd: "\<not> done_marker s" and i: "i < n"
    and ex: "status_of s i = Executed c"
    and s': "txn_status s' = (txn_status s)[i := ReadyToExecute d]" "txn_dependency s' = txn_dependency s"
      "num_active_tasks s' = num_active_tasks s" "stop_idx s' = stop_idx s" "\<not> done_marker s'"
      "execution_idx s' \<le> execution_idx s" "execution_idx s' \<le> i"
  shows "sched_inv n s' T"
proof -
  note len = sched_inv_lengths[OF inv]
  have status': "status_of s' j = (if j = i then ReadyToExecute d else status_of s j)" for j
    using s'(1) i len by (simp add: nth_list_update)
  have not_i: "j \<noteq> i" if "status_of s j = Executing e" for j e using that ex by auto
  have "inv_shape n s' T" using inv s' by (auto simp: sched_inv_def inv_shape_def)
  moreover have "inv_exec n s' T"
  proof (rule inv_execI)
    show "status_of s' j = Executing e" if "ExecutionTask (j, e) \<in># T" for j e
      using sched_inv_exec_task(2)[OF inv that] not_i status' by simp
    show "j \<notin> waiting s'" if "ExecutionTask (j, e) \<in># T" for j e
      using sched_inv_exec_task(3)[OF inv that] s'(2) by simp
    show "ExecutionTask (j, e) \<in># T \<or> j \<in> waiting s'" if "j < n" "status_of s' j = Executing e" for j e
      using sched_inv_executing[OF inv that(1), of e] that(2) status' s'(2) by (auto split: if_splits)
  qed (use sched_inv_count[OF inv] sched_inv_exec_task(1)[OF inv] sched_inv_val_task[OF inv] in auto)
  moreover have "inv_deps n s'"
  proof (rule inv_depsI)
    show "distinct (concat (txn_dependency s'))" using sched_inv_distinct_deps[OF inv] s'(2) by simp
  next
    fix j e assume je: "j < n" "e \<in> set (txn_dependency s' ! j)"
    note dep = sched_inv_dep[OF inv je(1) je(2)[unfolded s'(2)]]
    show "j < e" and "e < n" by (rule dep)+
    show "\<exists>c. status_of s' e = Executing c" using dep(3) status' not_i by fastforce
    show "status_of s' j \<noteq> Executed c'" for c' using dep(4) status' by simp
  qed
  moreover have "inv_progress n s'"
  proof (rule inv_progressI)
    show "status_of s' j \<noteq> Aborting e" if "j < n" for j e
      using sched_inv_not_aborting[OF inv that] status' by simp
    show "status_of s' j \<noteq> ReadyToExecute e" if "j < n" "j < execution_idx s'" for j e
      using sched_inv_below_exec[OF inv that(1), of e] that(2) s'(6,7) status' by auto
  qed (use s'(5) in simp)
  ultimately show ?thesis by (simp add: sched_inv_def)
qed

text \<open>
  What \<open>finish_abort\<close> does after \<open>try_abort\<close> succeeded: the next incarnation is ready, or it is
  in the hands of the same worker when the execution index has already passed it.
\<close>

lemma finish_abort_cases:
  assumes i: "i < length (txn_status s)"
    and run: "finish_abort i c (s\<lparr>txn_status := (txn_status s)[i := Aborting c]\<rparr>) = Inr (t, s')"
  obtains (ready) s2 where "execution_idx s \<le> i" "t = NoTask"
      "txn_status s2 = (txn_status s)[i := ReadyToExecute (c + 1)]" "drop_task s2 = Inr (t, s')"
      "txn_dependency s2 = txn_dependency s" "execution_idx s2 = execution_idx s"
      "validation_idx s2 = min (validation_idx s) (i + 1)" "num_active_tasks s2 = num_active_tasks s"
      "stop_idx s2 = stop_idx s" "done_marker s2 = done_marker s"
  | (again) "execution_idx s > i" "t = ExecutionTask (i, c + 1)"
      "txn_status s' = (txn_status s)[i := Executing (c + 1)]"
      "txn_dependency s' = txn_dependency s" "execution_idx s' = execution_idx s"
      "validation_idx s' = min (validation_idx s) (i + 1)" "num_active_tasks s' = num_active_tasks s"
      "stop_idx s' = stop_idx s" "done_marker s' = done_marker s"
proof -
  let ?s2 = "decrease_validation_idx (i + 1)
    (s\<lparr>abort_count := abort_count s + 1, txn_status := (txn_status s)[i := ReadyToExecute (c + 1)]\<rparr>)"
  have s2: "txn_status ?s2 = (txn_status s)[i := ReadyToExecute (c + 1)]"
    "txn_dependency ?s2 = txn_dependency s" "execution_idx ?s2 = execution_idx s"
    "validation_idx ?s2 = min (validation_idx s) (i + 1)" "num_active_tasks ?s2 = num_active_tasks s"
    "stop_idx ?s2 = stop_idx s" "done_marker ?s2 = done_marker s"
    by (auto simp: decrease_validation_idx_def Let_def)
  have fin: "finish_abort i c (s\<lparr>txn_status := (txn_status s)[i := Aborting c]\<rparr>) =
      (if execution_idx s > i
       then Inr (ExecutionTask (i, c + 1), ?s2\<lparr>txn_status := (txn_status s)[i := Executing (c + 1)]\<rparr>)
       else drop_task ?s2)"
    using i s2 by (simp add: finish_abort_def set_aborted_status_def try_incarnate_def Let_def)
  show ?thesis
  proof (cases "execution_idx s > i")
    case True
    with run fin have "t = ExecutionTask (i, c + 1)"
      and s': "s' = ?s2\<lparr>txn_status := (txn_status s)[i := Executing (c + 1)]\<rparr>" by simp_all
    with True s2 show ?thesis by (intro again) (simp_all add: s')
  next
    case False
    with run fin have d: "drop_task ?s2 = Inr (t, s')" by simp
    then have "t = NoTask" by (simp add: fault_simps)
    with False d s2 show ?thesis by (intro ready[of ?s2]) simp_all
  qed
qed

lemma sched_inv_finish_abort:
  assumes inv: "sched_inv n s (add_mset (ValidationTask (i, c0)) T)" and ex: "status_of s i = Executed c"
    and i: "i < n"
    and run: "finish_abort i c (s\<lparr>txn_status := (txn_status s)[i := Aborting c]\<rparr>) = Inr (t, s')"
  shows "sched_inv n s' (add_mset t T)"
proof -
  note len = sched_inv_lengths[OF inv]
  have nd: "\<not> done_marker s" using sched_inv_active_not_done[OF inv] by simp
  have il: "i < length (txn_status s)" using i len by simp
  show ?thesis using il run
  proof (cases rule: finish_abort_cases)
    case (ready s2)
    have "sched_inv n s2 (add_mset (ValidationTask (i, c0)) T)"
      by (rule sched_inv_reset[OF inv nd i ex]) (use ready nd in auto)
    then show ?thesis using ready(4) by (rule sched_inv_drop_task)
  next
    case again
    let ?s0 = "s\<lparr>txn_status := (txn_status s)[i := ReadyToExecute (c + 1)], execution_idx := i,
      num_active_tasks := num_active_tasks s - 1\<rparr>"
    have "sched_inv n (s\<lparr>txn_status := (txn_status s)[i := ReadyToExecute (c + 1)], execution_idx := i\<rparr>)
      (add_mset (ValidationTask (i, c0)) T)"
      by (rule sched_inv_reset[OF inv nd i ex]) (use again nd in auto)
    then have inv0: "sched_inv n ?s0 T" by (rule sched_inv_drop_validation) simp
    have pos: "num_active_tasks s > 0" using sched_inv_guards[OF inv] by simp
    show ?thesis unfolding again(2)
    proof (rule sched_inv_start_execution[OF inv0])
      show "status_of ?s0 j \<noteq> ReadyToExecute d" if "j < n" "j < execution_idx s'" "j \<noteq> i" for j d
        using sched_inv_below_exec[OF inv that(1), of d] that again(5) by simp
    qed (use again nd i len pos in auto)
  qed
qed

lemma finish_abort_no_fault:
  assumes inv: "sched_inv n s (add_mset (ValidationTask (i, c0)) T)" and "i < n"
  shows "\<exists>t s'. finish_abort i c (s\<lparr>txn_status := (txn_status s)[i := Aborting c]\<rparr>) = Inr (t, s')"
proof -
  have "num_active_tasks s > 0" using sched_inv_guards[OF inv] by simp
  with assms(2) sched_inv_lengths[OF inv] show ?thesis
    by (auto simp: finish_abort_def set_aborted_status_def try_incarnate_def drop_task_def
        guard_drop_def decrease_validation_idx_def Let_def)
qed

end
