(* ===== verification/EngineMemory.thy ===== *)
theory EngineMemory
  imports Executor SchedulerFinish
begin

text \<open>
  What the loops of \<open>execute_one\<close> and \<open>validate_one\<close> do to the multi-version memory, and what
  a recorded read set says about the execution that produced it. The history \<open>H\<close> gives for
  every version \<open>(j, c)\<close> the values that incarnation \<open>c\<close> of transaction \<open>j\<close> wrote; it is a
  ghost of the proofs, the memory keeps only the newest incarnation.
\<close>

type_synonym ('k, 'v) history = "Version \<Rightarrow> 'k \<rightharpoonup> 'v"

section \<open>Loops over the memory\<close>

lemma apply_writes_Inr:
  assumes "apply_writes (i, c) ws (prev, outside, mv) = Inr (stale, outside', mv')"
  shows "mv_tree mv' k j = (if j = i \<and> k \<in> fst ` set ws
           then Some \<lparr>cell_flag = FLAG_DONE, cell_incarnation = c, cell_data = the (map_of ws k)\<rparr>
           else mv_tree mv k j)"
    and "distinct (map fst ws)"
    and "set stale = set prev - fst ` set ws"
    and "outside' \<longleftrightarrow> outside \<or> \<not> fst ` set ws \<subseteq> set prev"
proof -
  let ?cell = "\<lambda>v. \<lparr>cell_flag = FLAG_DONE, cell_incarnation = c, cell_data = v\<rparr>"
  have "(\<forall>k j. mv_tree mv' k j = (if j = i \<and> k \<in> fst ` set ws
           then Some (?cell (the (map_of ws k))) else mv_tree mv k j)) \<and>
    distinct (map fst ws) \<and> set stale = set prev - fst ` set ws \<and>
    (outside' \<longleftrightarrow> outside \<or> \<not> fst ` set ws \<subseteq> set prev) \<and>
    (\<forall>k \<in> fst ` set ws. \<forall>cl. mv_tree mv k i = Some cl \<longrightarrow> cell_incarnation cl < c)"
    using assms
  proof (induction ws arbitrary: prev outside mv)
    case (Cons kv ws)
    obtain k0 v0 where kv: "kv = (k0, v0)" by fastforce
    from Cons.prems obtain mv1 where w: "mv_write k0 (i, c) v0 mv = Inr mv1"
      and rest: "apply_writes (i, c) ws (removeAll k0 prev, outside \<or> k0 \<notin> set prev, mv1)
                   = Inr (stale, outside', mv')"
      by (auto simp: kv fault_simps)
    from w have old: "\<forall>cl. mv_tree mv k0 i = Some cl \<longrightarrow> cell_incarnation cl < c"
      and tree1: "mv_tree mv1 k j = (if k = k0 \<and> j = i then Some (?cell v0) else mv_tree mv k j)" for k j
      by (auto simp: fault_simps)
    note IH = Cons.IH[OF rest]
    from IH tree1[of k0 i] have new: "k0 \<notin> fst ` set ws" by fastforce
    have "fst ` set ws \<subseteq> set (removeAll k0 prev) \<longleftrightarrow> fst ` set ws \<subseteq> set prev" using new by auto
    moreover have "\<forall>k \<in> fst ` set ws. mv_tree mv1 k i = mv_tree mv k i" using new tree1 by auto
    ultimately show ?case using IH new old tree1 by (auto simp: kv)
  qed auto
  then show "mv_tree mv' k j = (if j = i \<and> k \<in> fst ` set ws then Some (?cell (the (map_of ws k)))
      else mv_tree mv k j)" "distinct (map fst ws)" "set stale = set prev - fst ` set ws"
    "outside' \<longleftrightarrow> outside \<or> \<not> fst ` set ws \<subseteq> set prev" by blast+
qed

lemma apply_writes_stale_distinct:
  "apply_writes ver ws (prev, outside, mv) = Inr (stale, outside', mv') \<Longrightarrow> distinct prev \<Longrightarrow> distinct stale"
  by (induction ws arbitrary: prev outside mv) (auto simp: fault_simps distinct_removeAll)

lemma apply_writes_no_fault:
  assumes "distinct (map fst ws)"
    and "\<And>k cl. k \<in> fst ` set ws \<Longrightarrow> mv_tree mv k i = Some cl \<Longrightarrow> cell_incarnation cl < c"
  shows "\<exists>st. apply_writes (i, c) ws (prev, outside, mv) = Inr st"
  using assms
proof (induction ws arbitrary: prev outside mv)
  case (Cons kv ws)
  obtain k0 v0 where kv: "kv = (k0, v0)" by fastforce
  let ?mv1 = "mv(k0 \<mapsto> (mv_tree mv k0)(i \<mapsto>
    \<lparr>cell_flag = FLAG_DONE, cell_incarnation = c, cell_data = v0\<rparr>))"
  have w: "mv_write k0 (i, c) v0 mv = Inr ?mv1"
    using Cons.prems(2) by (auto simp: kv fault_simps)
  have "\<exists>st. apply_writes (i, c) ws (removeAll k0 prev, outside \<or> k0 \<notin> set prev, ?mv1) = Inr st"
  proof (rule Cons.IH)
    show "distinct (map fst ws)" using Cons.prems(1) by simp
    fix k cl assume k: "k \<in> fst ` set ws" and cl: "mv_tree ?mv1 k i = Some cl"
    then have "k \<noteq> k0" using Cons.prems(1) by (auto simp: kv)
    with cl have "mv_tree mv k i = Some cl" by simp
    with k Cons.prems(2)[of k cl] show "cell_incarnation cl < c" by simp
  qed
  with w show ?case by (simp add: kv)
qed auto

lemma rfold_mv_delete_Inr:
  "rfold (\<lambda>k m. mv_delete k i m) ks mv = Inr mv' \<Longrightarrow>
   mv_tree mv' k j = (if j = i \<and> k \<in> set ks then None else mv_tree mv k j)"
proof (induction ks arbitrary: mv)
  case (Cons k0 ks)
  from Cons.prems obtain mv1 where d: "mv_delete k0 i mv = Inr mv1"
    and rest: "rfold (\<lambda>k m. mv_delete k i m) ks mv1 = Inr mv'" by (auto simp: fault_simps)
  from d have "mv_tree mv1 k j = (if k = k0 \<and> j = i then None else mv_tree mv k j)"
    by (simp add: fault_simps)
  with Cons.IH[OF rest] show ?case by auto
qed simp

lemma rfold_mv_delete_no_fault:
  "(\<And>k. k \<in> set ks \<Longrightarrow> mv_tree mv k i \<noteq> None) \<Longrightarrow> distinct ks \<Longrightarrow>
   \<exists>mv'. rfold (\<lambda>k m. mv_delete k i m) ks mv = Inr mv'"
proof (induction ks arbitrary: mv)
  case (Cons k0 ks)
  let ?mv1 = "mv(k0 \<mapsto> (mv_tree mv k0)(i := None))"
  have "mv k0 \<noteq> None" using Cons.prems(1)[of k0] by (auto simp: mv_tree_def split: option.splits)
  then have "mv_delete k0 i mv = Inr ?mv1" by (simp add: fault_simps)
  moreover have "\<exists>mv'. rfold (\<lambda>k m. mv_delete k i m) ks ?mv1 = Inr mv'"
  proof (rule Cons.IH)
    fix k assume "k \<in> set ks"
    moreover with Cons.prems(2) have "k \<noteq> k0" by auto
    ultimately show "mv_tree ?mv1 k i \<noteq> None" using Cons.prems(1)[of k] by simp
  qed (use Cons.prems(2) in simp)
  ultimately show ?case by simp
qed simp

lemma rfold_mark_estimate_Inr:
  assumes "rfold (\<lambda>k m. mv_mark_estimate k i m) ks mv = Inr mv'"
  shows "mv_tree mv' k j = (if j = i \<and> k \<in> set ks
      then map_option (cell_flag_update (\<lambda>_. FLAG_ESTIMATE)) (mv_tree mv k j) else mv_tree mv k j)"
    and "k \<in> set ks \<Longrightarrow> mv_tree mv k i \<noteq> None"
proof -
  have "(\<forall>k j. mv_tree mv' k j = (if j = i \<and> k \<in> set ks
      then map_option (cell_flag_update (\<lambda>_. FLAG_ESTIMATE)) (mv_tree mv k j) else mv_tree mv k j)) \<and>
    (\<forall>k \<in> set ks. mv_tree mv k i \<noteq> None)"
    using assms
  proof (induction ks arbitrary: mv)
    case (Cons k0 ks)
    from Cons.prems obtain mv1 c where c: "mv_tree mv k0 i = Some c"
      and mv1: "mv1 = mv(k0 \<mapsto> (mv_tree mv k0)(i \<mapsto> c\<lparr>cell_flag := FLAG_ESTIMATE\<rparr>))"
      and rest: "rfold (\<lambda>k m. mv_mark_estimate k i m) ks mv1 = Inr mv'" by (auto simp: fault_simps)
    have tree1: "mv_tree mv1 k j = (if k = k0 \<and> j = i then Some (c\<lparr>cell_flag := FLAG_ESTIMATE\<rparr>)
      else mv_tree mv k j)" for k j by (simp add: mv1)
    from Cons.IH[OF rest] show ?case by (auto simp: c tree1 split: if_splits)
  qed simp
  then show "mv_tree mv' k j = (if j = i \<and> k \<in> set ks
      then map_option (cell_flag_update (\<lambda>_. FLAG_ESTIMATE)) (mv_tree mv k j) else mv_tree mv k j)"
    and "k \<in> set ks \<Longrightarrow> mv_tree mv k i \<noteq> None" by blast+
qed

lemma rfold_mark_estimate_no_fault:
  "(\<And>k. k \<in> set ks \<Longrightarrow> mv_tree mv k i \<noteq> None) \<Longrightarrow>
   \<exists>mv'. rfold (\<lambda>k m. mv_mark_estimate k i m) ks mv = Inr mv'"
proof (induction ks arbitrary: mv)
  case (Cons k0 ks)
  from Cons.prems[of k0] obtain c where c: "mv_tree mv k0 i = Some c" by auto
  let ?mv1 = "mv(k0 \<mapsto> (mv_tree mv k0)(i \<mapsto> c\<lparr>cell_flag := FLAG_ESTIMATE\<rparr>))"
  have "mv_mark_estimate k0 i mv = Inr ?mv1" by (auto simp: fault_simps c)
  moreover have "\<exists>mv'. rfold (\<lambda>k m. mv_mark_estimate k i m) ks ?mv1 = Inr mv'"
  proof (rule Cons.IH)
    fix k assume "k \<in> set ks"
    then show "mv_tree ?mv1 k i \<noteq> None" using Cons.prems[of k] by (cases "k = k0") simp_all
  qed
  ultimately show ?case by simp
qed simp

section \<open>Read sets and histories\<close>

definition read_value :: "('k, 'v) history \<Rightarrow> 'k ReadDescriptor \<Rightarrow> 'v option" where
  "read_value H r = (case kind r of Storage \<Rightarrow> None | MVHashMap j c \<Rightarrow> H (j, c) (access_path r))"

text \<open>Running a program again on the values its read set stands for.\<close>

primrec replay :: "('k, 'v) history \<Rightarrow> ('k, 'v, 'a) view_prog \<Rightarrow> 'k ReadDescriptor list \<Rightarrow> 'a option" where
  "replay H (Return a) = (\<lambda>rs. if rs = [] then Some a else None)"
| "replay H (ViewRead k f) =
     (\<lambda>rs. case rs of
        [] \<Rightarrow> None
      | r # rs' \<Rightarrow> if access_path r = k then replay H (f (ReadVal (read_value H r))) rs' else None)"

lemma all_results_replay: "all_results P p \<Longrightarrow> replay H p rs = Some a \<Longrightarrow> P a"
  by (induction p arbitrary: rs) (auto split: list.splits if_splits)

lemma replay_cong:
  "(\<And>r. r \<in> set rs \<Longrightarrow> read_value H r = read_value H' r) \<Longrightarrow> replay H p rs = replay H' p rs"
proof (induction p arbitrary: rs)
  case (ViewRead k f)
  show ?case
  proof (cases rs)
    case (Cons r rs')
    with ViewRead.prems have r: "read_value H r = read_value H' r" by simp
    have "replay H (f (ReadVal (read_value H r))) rs' = replay H' (f (ReadVal (read_value H r))) rs'"
      by (rule ViewRead.IH) (use ViewRead.prems Cons in auto)
    with Cons r show ?thesis by simp
  qed simp
qed simp

text \<open>The memory agrees with the history when every cell carries what its version wrote.\<close>

definition cells_from :: "('k, 'v) history \<Rightarrow> ('k, 'v) MVHashMap \<Rightarrow> bool" where
  "cells_from H mv \<longleftrightarrow>
     (\<forall>k j cl. mv_tree mv k j = Some cl \<longrightarrow> H (j, cell_incarnation cl) k = Some (cell_data cl))"

text \<open>The state transaction \<open>i\<close> would see if nothing below it were an estimate.\<close>

definition snapshot :: "('k, 'v) MVHashMap \<Rightarrow> TxnIndex \<Rightarrow> 'k \<rightharpoonup> 'v" where
  "snapshot mv i k = map_option (\<lambda>(j, cl). cell_data cl) (last_below (mv_tree mv k) i)"

lemma read_valid_iff:
  "read_valid mv i r \<longleftrightarrow>
     (case last_below (mv_tree mv (access_path r)) i of
        None \<Rightarrow> kind r = Storage
      | Some (j, cl) \<Rightarrow> cell_flag cl = FLAG_DONE \<and> kind r = MVHashMap j (cell_incarnation cl))"
proof (cases "last_below (mv_tree mv (access_path r)) i")
  case (Some jc)
  then show ?thesis
    by (cases jc; cases "cell_flag (snd jc)")
      (auto simp: read_valid_def mv_read_tree validate_version_def)
qed (simp add: read_valid_def mv_read_tree validate_storage_def)

lemma read_valid_value:
  assumes "cells_from H mv" and "read_valid mv i r"
  shows "read_value H r = snapshot mv i (access_path r)"
proof (cases "last_below (mv_tree mv (access_path r)) i")
  case None
  with assms(2) show ?thesis by (simp add: read_valid_iff read_value_def snapshot_def)
next
  case (Some jc)
  obtain j cl where jc: "jc = (j, cl)" by fastforce
  from Some jc have "mv_tree mv (access_path r) j = Some cl" by (simp add: last_below_Some)
  with assms(1) have "H (j, cell_incarnation cl) (access_path r) = Some (cell_data cl)"
    by (simp add: cells_from_def)
  with Some jc assms(2) show ?thesis by (simp add: read_valid_iff read_value_def snapshot_def)
qed

text \<open>A replayed execution whose reads are still valid is the serial execution on the snapshot.\<close>

lemma replay_serial:
  assumes "cells_from H mv"
  shows "list_all (read_valid mv i) rs \<Longrightarrow> replay H p rs = Some a \<Longrightarrow> run_serial (snapshot mv i) p = a"
proof (induction p arbitrary: rs)
  case (ViewRead k f)
  then obtain r rs' where rs: "rs = r # rs'" and k: "access_path r = k"
    and rest: "replay H (f (ReadVal (read_value H r))) rs' = Some a"
    by (auto split: list.splits if_splits)
  have "read_value H r = snapshot mv i k"
    using read_valid_value[OF assms, of i r] ViewRead.prems(1) rs k by simp
  with ViewRead.IH[of "f (ReadVal (read_value H r))" rs'] rest ViewRead.prems(1) rs show ?case by simp
qed (simp split: if_splits)

text \<open>What a run of the view captures, when it is not cut short by a dependency.\<close>

definition done_read :: "('k, 'v) MVHashMap \<Rightarrow> TxnIndex \<Rightarrow> 'k ReadDescriptor \<Rightarrow> bool" where
  "done_read mv i r \<longleftrightarrow>
     (\<forall>j c. kind r = MVHashMap j c \<longrightarrow> j < i \<and>
        (\<exists>cl. mv_tree mv (access_path r) j = Some cl \<and> cell_flag cl = FLAG_DONE \<and> cell_incarnation cl = c))"

lemma read_valid_done: "read_valid mv i r \<Longrightarrow> done_read mv i r"
  by (auto simp: read_valid_iff done_read_def last_below_Some split: option.splits prod.splits)

lemma view_read_cases:
  assumes "view_read mv i k w = Inr (x, w')"
  obtains (found) r where "access_path r = k" "read_valid mv i r" "x = ReadVal (snapshot mv i k)"
      "w' = w\<lparr>captured_reads := captured_reads w @ [r]\<rparr>"
  | (again) "read_dependency w" "x = ReadErr" "w' = w"
  | (suspend) dep cl s' where "\<not> read_dependency w" "x = ReadErr" "dep < i"
      "mv_tree mv k dep = Some cl" "cell_flag cl = FLAG_ESTIMATE"
      "try_add_dependency i dep (view_scheduler w) = Inr (True, s')"
      "w' = w\<lparr>view_scheduler := s', read_dependency := True\<rparr>"
proof (cases "last_below (mv_tree mv k) i")
  case None
  show ?thesis
    by (rule found[of "from_storage k"])
      (use None assms in \<open>simp_all add: view_read_def mv_read_tree from_storage_def read_valid_iff snapshot_def\<close>)
next
  case (Some jc)
  obtain j cl where jc: "jc = (j, cl)" by fastforce
  show ?thesis
  proof (cases "cell_flag cl")
    case FLAG_DONE
    show ?thesis
      by (rule found[of "descriptor_from k j (cell_incarnation cl)"])
        (use FLAG_DONE Some jc assms in
          \<open>simp_all add: view_read_def mv_read_tree descriptor_from_def read_valid_iff snapshot_def\<close>)
  next
    case FLAG_ESTIMATE
    have jt: "j < i" "mv_tree mv k j = Some cl" using Some jc by (simp_all add: last_below_Some)
    show ?thesis
    proof (cases "read_dependency w")
      case True
      show ?thesis
        by (rule again) (use True FLAG_ESTIMATE Some jc assms in \<open>simp_all add: view_read_def mv_read_tree\<close>)
    next
      case False
      from assms FLAG_ESTIMATE Some jc False obtain s' where
        "try_add_dependency i j (view_scheduler w) = Inr (True, s')" "x = ReadErr"
        "w' = w\<lparr>view_scheduler := s', read_dependency := True\<rparr>"
        by (auto simp: view_read_def mv_read_tree fault_simps split: if_splits)
      with suspend False jt FLAG_ESTIMATE show ?thesis by blast
    qed
  qed
qed

text \<open>Once a dependency is recorded, further reads leave the scheduler alone.\<close>

lemma run_view_suspended:
  "run_view mv i p w = Inr (a, w') \<Longrightarrow> read_dependency w \<Longrightarrow>
   read_dependency w' \<and> view_scheduler w' = view_scheduler w"
proof (induction p arbitrary: w)
  case (ViewRead k f)
  from ViewRead.prems(1) obtain x w1 where first: "view_read mv i k w = Inr (x, w1)"
    and rest: "run_view mv i (f x) w1 = Inr (a, w')" by (auto simp: fault_simps)
  have "read_dependency w1 \<and> view_scheduler w1 = view_scheduler w"
    using first by (cases rule: view_read_cases) (use ViewRead.prems(2) in auto)
  with ViewRead.IH[OF _ rest] show ?case by auto
qed auto

lemma run_view_cases:
  assumes "run_view mv i p w = Inr (a, w')" and "\<not> read_dependency w" and "cells_from H mv"
  shows "if read_dependency w'
         then \<exists>k dep cl. dep < i \<and> mv_tree mv k dep = Some cl \<and> cell_flag cl = FLAG_ESTIMATE
                \<and> try_add_dependency i dep (view_scheduler w) = Inr (True, view_scheduler w')
         else \<exists>rs. captured_reads w' = captured_reads w @ rs \<and> view_scheduler w' = view_scheduler w
                \<and> list_all (read_valid mv i) rs \<and> replay H p rs = Some a"
  using assms(1,2)
proof (induction p arbitrary: w)
  case (ViewRead k f)
  from ViewRead.prems(1) obtain x w1 where first: "view_read mv i k w = Inr (x, w1)"
    and rest: "run_view mv i (f x) w1 = Inr (a, w')" by (auto simp: fault_simps)
  from first show ?case
  proof (cases rule: view_read_cases)
    case (found r)
    have rv: "read_value H r = snapshot mv i k"
      using read_valid_value[OF assms(3) found(2)] found(1) by simp
    have IH: "if read_dependency w'
      then \<exists>k dep cl. dep < i \<and> mv_tree mv k dep = Some cl \<and> cell_flag cl = FLAG_ESTIMATE
             \<and> try_add_dependency i dep (view_scheduler w1) = Inr (True, view_scheduler w')
      else \<exists>rs. captured_reads w' = captured_reads w1 @ rs \<and> view_scheduler w' = view_scheduler w1
             \<and> list_all (read_valid mv i) rs \<and> replay H (f x) rs = Some a"
      by (rule ViewRead.IH[OF _ rest]) (use found ViewRead.prems(2) in auto)
    show ?thesis
    proof (cases "read_dependency w'")
      case True
      with IH found(4) show ?thesis by simp
    next
      case False
      with IH obtain rs where "captured_reads w' = captured_reads w1 @ rs"
        "view_scheduler w' = view_scheduler w1" "list_all (read_valid mv i) rs"
        "replay H (f x) rs = Some a" by auto
      with False found rv show ?thesis by (auto intro!: exI[of _ "r # rs"])
    qed
  next
    case again
    with ViewRead.prems(2) show ?thesis by simp
  next
    case (suspend dep cl s')
    with run_view_suspended[OF rest] show ?thesis by auto
  qed
qed auto

end
