(* ===== verification/EngineInv.thy ===== *)
theory EngineInv
  imports EngineMemory
begin

text \<open>
  The invariant of the whole engine: scheduler, memory, recorded reads and writes, and the
  tasks in the workers' hands. Every round of every worker keeps it.
\<close>

section \<open>The invariant\<close>

fun next_incarnation :: "TransactionStatus \<Rightarrow> Incarnation" where
  "next_incarnation (ReadyToExecute c) = c"
| "next_incarnation (Executing c) = c"
| "next_incarnation (Executed c) = c + 1"
| "next_incarnation (Aborting c) = c + 1"

text \<open>
  A cell of an executed transaction is final and of its last incarnation; any other cell is an
  estimate left over from an earlier incarnation.
\<close>

fun cell_ok :: "TransactionStatus \<Rightarrow> 'v WriteCell \<Rightarrow> bool" where
  "cell_ok (Executed c) cl = (cell_flag cl = FLAG_DONE \<and> cell_incarnation cl = c)"
| "cell_ok st cl = (cell_flag cl = FLAG_ESTIMATE \<and> cell_incarnation cl < next_incarnation st)"

definition inv_cells ::
  "('o \<Rightarrow> ('k \<times> 'v) list) \<Rightarrow> ('k, 'v) history \<Rightarrow> TransactionStatus list \<Rightarrow> ('k, 'v) MVHashMap
   \<Rightarrow> ('k, 'o, 'e) TxnLastInputOutput \<Rightarrow> bool" where
  "inv_cells writes H st mv io \<longleftrightarrow>
     cells_from H mv \<and>
     (\<forall>k j. mv_tree mv k j \<noteq> None \<longleftrightarrow>
        j < length (outputs io) \<and> k \<in> set (output_keys writes (outputs io ! j))) \<and>
     (\<forall>k j cl. mv_tree mv k j = Some cl \<longrightarrow> cell_ok (st ! j) cl)"

text \<open>
  What is recorded for an executed transaction: its result is the one its reads lead to, its
  last incarnation wrote what the result says, and it read only lower versions that exist.
\<close>

definition executed_ok ::
  "('k, 'v, 't, 'o, 'e) vm \<Rightarrow> 't list \<Rightarrow> ('k, 'v) history \<Rightarrow> TransactionStatus list
   \<Rightarrow> ('k, 'o, 'e) TxnLastInputOutput \<Rightarrow> TxnIndex \<Rightarrow> Incarnation \<Rightarrow> bool" where
  "executed_ok vm block H st io i c \<longleftrightarrow>
     (\<exists>rs res. inputs io ! i = Some rs \<and> outputs io ! i = Some (wrap_result res) \<and>
        replay H (execute_transaction vm (block ! i)) rs = Some res \<and>
        distinct (map fst (status_writes (get_writes vm) res)) \<and>
        H (i, c) = map_of (status_writes (get_writes vm) res) \<and>
        (\<forall>r \<in> set rs. \<forall>j d. kind r = MVHashMap j d \<longrightarrow> j < i \<and> d < next_incarnation (st ! j)))"

definition mem_inv ::
  "('k, 'v, 't, 'o, 'e) vm \<Rightarrow> 't list \<Rightarrow> ('k, 'v) history \<Rightarrow> TransactionStatus list
   \<Rightarrow> ('k, 'v) MVHashMap \<Rightarrow> ('k, 'o, 'e) TxnLastInputOutput \<Rightarrow> bool" where
  "mem_inv vm block H st mv io \<longleftrightarrow>
     length (inputs io) = length block \<and> length (outputs io) = length block \<and>
     length st = length block \<and>
     inv_cells (get_writes vm) H st mv io \<and>
     (\<forall>i < length block. \<forall>c. st ! i = Executed c \<longrightarrow> executed_ok vm block H st io i c)"

fun reads_valid :: "('k, 'v) MVHashMap \<Rightarrow> TxnIndex \<Rightarrow> 'k ReadDescriptor list option \<Rightarrow> bool" where
  "reads_valid mv i None = False"
| "reads_valid mv i (Some rs) = list_all (read_valid mv i) rs"

text \<open>An executed transaction below the validation index is valid, or its validation is pending.\<close>

definition val_inv ::
  "usize \<Rightarrow> TransactionStatus list \<Rightarrow> ('k, 'v) MVHashMap \<Rightarrow> 'k ReadDescriptor list option list
   \<Rightarrow> SchedulerTask multiset \<Rightarrow> bool" where
  "val_inv vidx st mv ins T \<longleftrightarrow>
     (\<forall>i < length st. \<forall>c. i < vidx \<longrightarrow> st ! i = Executed c \<longrightarrow>
        ValidationTask (i, c) \<in># T \<or> reads_valid mv i (ins ! i))"

definition data_inv ::
  "('k, 'v, 't, 'o, 'e) vm \<Rightarrow> 't list \<Rightarrow> Scheduler \<Rightarrow> ('k, 'v) MVHashMap
   \<Rightarrow> ('k, 'o, 'e) TxnLastInputOutput \<Rightarrow> SchedulerTask multiset \<Rightarrow> bool" where
  "data_inv vm block s mv io T \<longleftrightarrow>
     (\<exists>H. mem_inv vm block H (txn_status s) mv io) \<and>
     val_inv (validation_idx s) (txn_status s) mv (inputs io) T \<and>
     (\<forall>i c. ValidationTask (i, c) \<in># T \<longrightarrow> inputs io ! i \<noteq> None) \<and>
     (Done \<in># T \<longrightarrow> done_marker s)"

definition engine_inv ::
  "('k, 'v, 't, 'o, 'e) vm \<Rightarrow> 't list \<Rightarrow> ('k, 'v, 'o, 'e) Shared \<Rightarrow> SchedulerTask multiset \<Rightarrow> bool" where
  "engine_inv vm block sh T \<longleftrightarrow>
     sched_inv (length block) (scheduler sh) T \<and>
     data_inv vm block (scheduler sh) (versioned_data sh) (last_io sh) T"

section \<open>Memory: the moves\<close>

text \<open>A status that changes without passing through \<open>Executed\<close> and without losing incarnations.\<close>

fun quiet_change :: "TransactionStatus \<Rightarrow> TransactionStatus \<Rightarrow> bool" where
  "quiet_change (Executed c) st' = (st' = Executed c)"
| "quiet_change st (Executed c) = False"
| "quiet_change st st' = (next_incarnation st \<le> next_incarnation st')"

lemma quiet_refl [simp]: "quiet_change st st"
  by (cases st) auto

lemma quiet_next: "quiet_change st st' \<Longrightarrow> next_incarnation st \<le> next_incarnation st'"
  by (cases st; cases st') auto

lemma quiet_cell: "quiet_change st st' \<Longrightarrow> cell_ok st cl \<Longrightarrow> cell_ok st' cl"
  by (cases st; cases st') auto

lemma quiet_Executed: "quiet_change st (Executed c) \<longleftrightarrow> st = Executed c"
  by (cases st) auto

lemma mem_inv_executed:
  "mem_inv vm block H st mv io \<Longrightarrow> i < length block \<Longrightarrow> st ! i = Executed c \<Longrightarrow>
   executed_ok vm block H st io i c"
  by (simp add: mem_inv_def)

lemma mem_inv_cell:
  assumes "mem_inv vm block H st mv io"
  shows "mv_tree mv k j \<noteq> None \<longleftrightarrow> j < length block \<and> k \<in> set (output_keys (get_writes vm) (outputs io ! j))"
    and "mv_tree mv k j = Some cl \<Longrightarrow> cell_ok (st ! j) cl"
    and "mv_tree mv k j = Some cl \<Longrightarrow> H (j, cell_incarnation cl) k = Some (cell_data cl)"
  using assms unfolding mem_inv_def inv_cells_def cells_from_def by metis+

text \<open>What is recorded stays true while the versions it mentions keep their values.\<close>

lemma executed_ok_transfer:
  assumes ok: "executed_ok vm block H st io i c"
    and io: "inputs io' ! i = inputs io ! i" "outputs io' ! i = outputs io ! i"
    and grow: "\<And>j. j < i \<Longrightarrow> next_incarnation (st ! j) \<le> next_incarnation (st' ! j)"
    and own: "H' (i, c) = H (i, c)"
    and old: "\<And>j d. j < i \<Longrightarrow> d < next_incarnation (st ! j) \<Longrightarrow> H' (j, d) = H (j, d)"
  shows "executed_ok vm block H' st' io' i c"
proof -
  from ok obtain rs res where r: "inputs io ! i = Some rs" "outputs io ! i = Some (wrap_result res)"
      "replay H (execute_transaction vm (block ! i)) rs = Some res"
      "distinct (map fst (status_writes (get_writes vm) res))"
      "H (i, c) = map_of (status_writes (get_writes vm) res)"
    and low: "\<And>r j d. r \<in> set rs \<Longrightarrow> kind r = MVHashMap j d \<Longrightarrow> j < i \<and> d < next_incarnation (st ! j)"
    unfolding executed_ok_def by blast
  have "read_value H' r = read_value H r" if "r \<in> set rs" for r
    using low[OF that] old by (auto simp: read_value_def split: ReadKind.split)
  then have "replay H' (execute_transaction vm (block ! i)) rs = Some res"
    using r(3) replay_cong[of rs H' H "execute_transaction vm (block ! i)"] by simp
  moreover have "\<forall>r \<in> set rs. \<forall>j d. kind r = MVHashMap j d \<longrightarrow> j < i \<and> d < next_incarnation (st' ! j)"
    using low grow by (meson order.strict_trans2)
  ultimately show ?thesis unfolding executed_ok_def using r io own by metis
qed

lemma mem_inv_quiet:
  assumes inv: "mem_inv vm block H st mv io" and len: "length st' = length st"
    and q: "\<And>j. j < length st \<Longrightarrow> quiet_change (st ! j) (st' ! j)"
  shows "mem_inv vm block H st' mv io"
proof -
  note m = inv[unfolded mem_inv_def inv_cells_def]
  have "cell_ok (st' ! j) cl" if cl: "mv_tree mv k j = Some cl" for k j cl
  proof -
    have "j < length st" "cell_ok (st ! j) cl" using m cl by fastforce+
    with quiet_cell[OF q] show ?thesis by blast
  qed
  moreover have "executed_ok vm block H st' io i c" if i: "i < length block" "st' ! i = Executed c" for i c
  proof -
    have lt: "i < length st" using m i by simp
    have "st ! i = Executed c" using q[OF lt] i by (simp add: quiet_Executed)
    with mem_inv_executed[OF inv i(1)] have "executed_ok vm block H st io i c" by simp
    then show ?thesis by (rule executed_ok_transfer) (use lt quiet_next[OF q] in auto)
  qed
  ultimately show ?thesis using m len by (simp add: mem_inv_def inv_cells_def)
qed

text \<open>Aborting: the cells of transaction \<open>i\<close> become estimates of the incarnation that is over.\<close>

lemma mem_inv_abort:
  assumes inv: "mem_inv vm block H st mv io" and i: "i < length block" "st ! i = Executed c"
    and mark: "rfold (\<lambda>k m. mv_mark_estimate k i m) (output_keys (get_writes vm) (outputs io ! i)) mv = Inr mv'"
  shows "mem_inv vm block H (st[i := ReadyToExecute (c + 1)]) mv' io"
proof -
  let ?ks = "output_keys (get_writes vm) (outputs io ! i)" and ?st' = "st[i := ReadyToExecute (c + 1)]"
  note m = inv[unfolded mem_inv_def inv_cells_def]
  note tree = rfold_mark_estimate_Inr(1)[OF mark]
  have dom: "mv_tree mv' k j \<noteq> None \<longleftrightarrow> mv_tree mv k j \<noteq> None" for k j by (auto simp: tree)
  have here: "k \<in> set ?ks" if "mv_tree mv k i = Some cl" for k cl using m that by fastforce
  have "cell_ok (?st' ! j) cl \<and> H (j, cell_incarnation cl) k = Some (cell_data cl)"
    if cl: "mv_tree mv' k j = Some cl" for k j cl
  proof (cases "j = i")
    case True
    with cl here obtain cl0 where cl0: "mv_tree mv k i = Some cl0" "cl = cl0\<lparr>cell_flag := FLAG_ESTIMATE\<rparr>"
      by (auto simp: tree split: if_splits)
    have "cell_ok (st ! i) cl0" "H (i, cell_incarnation cl0) k = Some (cell_data cl0)"
      using m cl0(1) by (auto simp: cells_from_def)
    with True cl0(2) i m show ?thesis by simp
  next
    case False
    with cl have "mv_tree mv k j = Some cl" by (simp add: tree)
    with False m show ?thesis by (auto simp: cells_from_def)
  qed
  then have cells: "inv_cells (get_writes vm) H ?st' mv' io"
    using m dom by (auto simp: inv_cells_def cells_from_def)
  have "executed_ok vm block H ?st' io j d" if j: "j < length block" "?st' ! j = Executed d" for j d
  proof -
    have "j \<noteq> i" using j i m by auto
    with j have "executed_ok vm block H st io j d" using m by simp
    then show ?thesis
    proof (rule executed_ok_transfer)
      show "next_incarnation (st ! l) \<le> next_incarnation (?st' ! l)" for l
        using i m by (cases "l = i") auto
    qed auto
  qed
  with cells m show ?thesis by (simp add: mem_inv_def)
qed

lemma output_keys_wrap [simp]:
  "output_keys writes (Some (wrap_result res)) = remdups (map fst (status_writes writes res))"
  by (cases res) (auto simp: output_keys_def wrap_result_def status_writes_def)

text \<open>Executing: transaction \<open>i\<close> gets a new version, which nobody can have read before.\<close>

lemma mem_inv_execute:
  fixes vm :: "('k, 'v, 't, 'o, 'e) vm"
  assumes inv: "mem_inv vm block H st mv io" and i: "i < length block" "st ! i = Executing c"
    and run: "replay H (execute_transaction vm (block ! i)) rs = Some res" "list_all (read_valid mv i) rs"
    and app: "apply_writes (i, c) (status_writes (get_writes vm) res)
        (output_keys (get_writes vm) (outputs io ! i), False, mv) = Inr (stale, outside, mv1)"
    and del: "rfold (\<lambda>k m. mv_delete k i m) stale mv1 = Inr mv2"
    and rec: "record_io i rs (wrap_result res) io = Inr io'"
  defines "ws \<equiv> status_writes (get_writes vm) res"
  shows "mem_inv vm block (H((i, c) := map_of ws)) (st[i := Executed c]) mv2 io'"
proof -
  let ?H = "H((i, c) := map_of ws)" and ?st = "st[i := Executed c]"
  note m = inv[unfolded mem_inv_def inv_cells_def]
  note app' = apply_writes_Inr[OF app, folded ws_def]
  have ilen: "i < length st" "i < length (inputs io)" "i < length (outputs io)" using m i by auto
  have io': "inputs io' = (inputs io)[i := Some rs]" "outputs io' = (outputs io)[i := Some (wrap_result res)]"
    using rec ilen by (auto simp: record_io_def)
  have tree: "mv_tree mv2 k j = (if j = i then
       (if k \<in> fst ` set ws then Some \<lparr>cell_flag = FLAG_DONE, cell_incarnation = c, cell_data = the (map_of ws k)\<rparr>
        else None) else mv_tree mv k j)" for k j
  proof -
    have "mv_tree mv k i = None" if "k \<notin> set stale" "k \<notin> fst ` set ws"
      using that app'(3) m by auto
    moreover have "k \<notin> set stale" if "k \<in> fst ` set ws" using that app'(3) by auto
    ultimately show ?thesis by (auto simp: rfold_mv_delete_Inr[OF del] app'(1))
  qed
  have fresh: "(j, d) \<noteq> (i, c)" if "d < next_incarnation (st ! j)" for j d using that i by auto
  have valid: "j < i \<and> d < next_incarnation (st ! j)" if "r \<in> set rs" "kind r = MVHashMap j d" for r j d
  proof -
    have "done_read mv i r" using run(2) that(1) by (auto simp: list_all_iff read_valid_done)
    with that(2) obtain cl where "j < i" "mv_tree mv (access_path r) j = Some cl"
      "cell_flag cl = FLAG_DONE" "cell_incarnation cl = d" by (auto simp: done_read_def)
    moreover then have "cell_ok (st ! j) cl" using m by blast
    ultimately show ?thesis by (cases "st ! j") auto
  qed
  have "cell_ok (?st ! j) cl \<and> ?H (j, cell_incarnation cl) k = Some (cell_data cl)"
    if cl: "mv_tree mv2 k j = Some cl" for k j cl
  proof (cases "j = i")
    case True
    with cl have "k \<in> fst ` set ws"
      "cl = \<lparr>cell_flag = FLAG_DONE, cell_incarnation = c, cell_data = the (map_of ws k)\<rparr>"
      by (auto simp: tree split: if_splits)
    moreover then have "map_of ws k \<noteq> None" by (simp add: map_of_eq_None_iff)
    ultimately show ?thesis using True ilen by auto
  next
    case False
    with cl have "mv_tree mv k j = Some cl" by (simp add: tree)
    with False m show ?thesis by (auto simp: cells_from_def)
  qed
  moreover have "mv_tree mv2 k j \<noteq> None \<longleftrightarrow>
      j < length (outputs io') \<and> k \<in> set (output_keys (get_writes vm) (outputs io' ! j))" for k j
    using m ilen by (cases "j = i") (auto simp: tree io' ws_def)
  ultimately have cells: "inv_cells (get_writes vm) ?H ?st mv2 io'"
    by (auto simp: inv_cells_def cells_from_def)
  have keep: "read_value ?H r = read_value H r" if "r \<in> set rs" for r
    using valid[OF that] fresh by (auto simp: read_value_def split: ReadKind.split)
  have bound: "next_incarnation (st ! j) \<le> next_incarnation (?st ! j)" for j
    using i ilen by (cases "j = i") auto
  have "executed_ok vm block ?H ?st io' j d" if j: "j < length block" "?st ! j = Executed d" for j d
  proof (cases "j = i")
    case True
    with j ilen have "d = c" by simp
    moreover have "replay ?H (execute_transaction vm (block ! i)) rs = Some res"
      using run(1) replay_cong[of rs ?H H "execute_transaction vm (block ! i)"] keep by simp
    moreover have "\<forall>r \<in> set rs. \<forall>j d. kind r = MVHashMap j d \<longrightarrow> j < i \<and> d < next_incarnation (?st ! j)"
      using valid bound by (meson order.strict_trans2)
    ultimately show ?thesis unfolding executed_ok_def using True io' ilen app'(2)
      by (auto simp: ws_def)
  next
    case False
    with j m have "executed_ok vm block H st io j d" by simp
    then show ?thesis
      by (rule executed_ok_transfer) (use False io' bound fresh in \<open>auto simp: fun_upd_def\<close>)
  qed
  with cells m show ?thesis by (simp add: mem_inv_def io')
qed

end
