(* ===== verification/EngineStep.thy ===== *)
theory EngineStep
  imports EngineInv
begin

text \<open>
  Every round of the worker loop keeps the invariant of the engine: fetching a task,
  executing or suspending a transaction, validating or aborting one.
\<close>

section \<open>Read sets under changes of the memory\<close>

lemma reads_valid_Some:
  "reads_valid mv i ins \<longleftrightarrow> (\<exists>rs. ins = Some rs \<and> (\<forall>r \<in> set rs. read_valid mv i r))"
  by (cases ins) (auto simp: list_all_iff)

lemma reads_valid_mono:
  "(\<And>r. read_valid mv i r \<Longrightarrow> read_valid mv' i r) \<Longrightarrow> reads_valid mv i ins \<Longrightarrow> reads_valid mv' i ins"
  unfolding reads_valid_Some by blast

text \<open>Changes at a transaction that is not lower do not matter.\<close>

lemma reads_valid_above:
  assumes "\<And>k j. j \<noteq> i \<Longrightarrow> mv_tree mv' k j = mv_tree mv k j" and "l \<le> i"
  shows "reads_valid mv l ins \<Longrightarrow> reads_valid mv' l ins"
proof (rule reads_valid_mono)
  fix r assume r: "read_valid mv l r"
  have "last_below (mv_tree mv' (access_path r)) l = last_below (mv_tree mv (access_path r)) l"
    by (rule last_below_cong) (use assms in auto)
  with r show "read_valid mv' l r" by (simp add: read_valid_iff)
qed

text \<open>
  A re-execution that writes no new location: a valid read of a higher transaction cannot have
  looked at an estimate, so it does not depend on the cells that change.
\<close>

lemma reads_valid_rewrite:
  assumes same: "\<And>k j. j \<noteq> i \<Longrightarrow> mv_tree mv' k j = mv_tree mv k j"
    and est: "\<And>k cl. mv_tree mv k i = Some cl \<Longrightarrow> cell_flag cl = FLAG_ESTIMATE"
    and inside: "\<And>k. mv_tree mv k i = None \<Longrightarrow> mv_tree mv' k i = None"
  shows "reads_valid mv l ins \<Longrightarrow> reads_valid mv' l ins"
proof (rule reads_valid_mono)
  fix r assume r: "read_valid mv l r"
  let ?t = "mv_tree mv (access_path r)" and ?t' = "mv_tree mv' (access_path r)"
  have "last_below ?t' l = last_below ?t l"
  proof (cases "last_below ?t l")
    case None
    have "?t' j = None" if "j < l" for j
      using None that same[of j] inside by (cases "j = i") (auto simp: last_below_None)
    then have "last_below ?t' l = None" by (simp add: last_below_None)
    with None show ?thesis by simp
  next
    case (Some jc)
    obtain j cl where jc: "jc = (j, cl)" by fastforce
    from Some jc have j: "j < l" "?t j = Some cl" "\<And>m. j < m \<Longrightarrow> m < l \<Longrightarrow> ?t m = None"
      by (auto simp: last_below_Some)
    have "cell_flag cl = FLAG_DONE" using r Some jc by (simp add: read_valid_iff)
    then have "j \<noteq> i" using j(2) est by fastforce
    moreover have "?t' m = None" if "j < m" "m < l" for m
      using j(3)[OF that] same[of m] inside by (cases "m = i") auto
    ultimately have "last_below ?t' l = Some (j, cl)" using j same by (simp add: last_below_Some)
    with Some jc show ?thesis by simp
  qed
  with r show "read_valid mv' l r" by (simp add: read_valid_iff)
qed

section \<open>Frame rules\<close>

lemma data_inv_inactive [simp]: "data_inv vm block s mv io (add_mset NoTask T) = data_inv vm block s mv io T"
  by (simp add: data_inv_def val_inv_def)

lemma val_inv_quiet:
  assumes inv: "val_inv v st mv ins T" and "v' \<le> v" and len: "length st' = length st"
    and q: "\<And>j. j < length st \<Longrightarrow> quiet_change (st ! j) (st' ! j)"
    and T: "\<And>w. ValidationTask w \<in># T \<Longrightarrow> ValidationTask w \<in># T'"
  shows "val_inv v' st' mv ins T'"
  unfolding val_inv_def
proof (intro allI impI)
  fix i c assume i: "i < length st'" "i < v'" "st' ! i = Executed c"
  then have "st ! i = Executed c" using q[of i] len by (simp add: quiet_Executed)
  with inv i assms(2) len T show "ValidationTask (i, c) \<in># T' \<or> reads_valid mv i (ins ! i)"
    unfolding val_inv_def by (metis order.strict_trans2)
qed

text \<open>Statuses move quietly, the memory stays, no validation task appears or vanishes.\<close>

lemma data_inv_quiet:
  assumes inv: "data_inv vm block s mv io T" and "validation_idx s' \<le> validation_idx s"
    and len: "length (txn_status s') = length (txn_status s)"
    and q: "\<And>j. j < length (txn_status s) \<Longrightarrow> quiet_change (status_of s j) (status_of s' j)"
    and T: "\<And>w. ValidationTask w \<in># T' \<longleftrightarrow> ValidationTask w \<in># T"
    and d: "Done \<in># T' \<Longrightarrow> Done \<in># T \<or> done_marker s'" and d': "done_marker s \<Longrightarrow> done_marker s'"
  shows "data_inv vm block s' mv io T'"
proof -
  from inv obtain H where H: "mem_inv vm block H (txn_status s) mv io"
    and v: "val_inv (validation_idx s) (txn_status s) mv (inputs io) T"
    and rest: "\<And>i c. ValidationTask (i, c) \<in># T \<Longrightarrow> inputs io ! i \<noteq> None"
      "Done \<in># T \<Longrightarrow> done_marker s" unfolding data_inv_def by blast
  have "mem_inv vm block H (txn_status s') mv io" by (rule mem_inv_quiet[OF H len q])
  moreover have "val_inv (validation_idx s') (txn_status s') mv (inputs io) T'"
    by (rule val_inv_quiet[OF v assms(2) len q]) (simp_all add: T)
  ultimately show ?thesis using rest T d d' unfolding data_inv_def by blast
qed

section \<open>Fetching a task\<close>

lemma check_done_frame [simp]:
  "txn_status (snd (check_done m s)) = txn_status s"
  "validation_idx (snd (check_done m s)) = validation_idx s"
  "done_marker s \<Longrightarrow> done_marker (snd (check_done m s))"
  by (auto simp: check_done_def Let_def)

lemma data_inv_fetch_validation:
  assumes inv: "data_inv vm block s mv io T" and sinv: "sched_inv (length block) s T"
    and run: "fetch_validation s = Inr (r, s')"
  shows "data_inv vm block s' mv io (add_mset (round_task r) T)"
proof -
  from run obtain v where v: "try_validate_next_version s = Inr (v, s')" and r: "r = map_option ValidationTask v"
    by (auto simp: fetch_validation_def fault_simps)
  from inv obtain H where H: "mem_inv vm block H (txn_status s) mv io"
    and val: "val_inv (validation_idx s) (txn_status s) mv (inputs io) T"
    and rest: "\<And>i c. ValidationTask (i, c) \<in># T \<Longrightarrow> inputs io ! i \<noteq> None"
      "Done \<in># T \<Longrightarrow> done_marker s" unfolding data_inv_def by blast
  note len = sched_inv_lengths[OF sinv]
  from v show ?thesis
  proof (cases rule: try_validate_cases)
    case finished
    have "data_inv vm block s' mv io T" by (rule data_inv_quiet[OF inv]) (simp_all add: finished(3))
    then show ?thesis by (simp add: r finished(2) round_task_def)
  next
    case (task c)
    let ?i = "validation_idx s"
    have i: "?i < length block" "status_of s ?i = Executed c"
      using task(1,2) len by (auto simp: is_executed_def split: if_splits TransactionStatus.splits)
    have ok: "executed_ok vm block H (txn_status s) io ?i c" by (rule mem_inv_executed[OF H i])
    have s': "txn_status s' = txn_status s" "validation_idx s' = ?i + 1" "done_marker s' = done_marker s"
      using task(4) by simp_all
    have "val_inv (?i + 1) (txn_status s) mv (inputs io) (add_mset (ValidationTask (?i, c)) T)"
      using val i(2) unfolding val_inv_def by (auto simp: less_Suc_eq)
    moreover have "inputs io ! ?i \<noteq> None" using ok by (auto simp: executed_ok_def)
    ultimately show ?thesis using H rest
      by (auto simp: data_inv_def s' r task(3) round_task_def)
  next
    case skip
    let ?i = "validation_idx s"
    have i: "\<And>c. ?i < length (txn_status s) \<Longrightarrow> status_of s ?i \<noteq> Executed c"
      using skip(2) by (auto simp: is_executed_def)
    have "val_inv (?i + 1) (txn_status s) mv (inputs io) T"
      using val i unfolding val_inv_def by (auto simp: less_Suc_eq)
    then have "data_inv vm block s' mv io T" using H rest by (auto simp: data_inv_def skip(4))
    then show ?thesis by (simp add: r skip(3) round_task_def)
  qed
qed

lemma data_inv_fetch_execution:
  assumes inv: "data_inv vm block s mv io T" and run: "fetch_execution s = Inr (r, s')"
  shows "data_inv vm block s' mv io (add_mset (round_task r) T)"
proof -
  from run obtain v where v: "try_execute_next_version s = Inr (v, s')" and r: "r = map_option ExecutionTask v"
    by (auto simp: fetch_execution_def fault_simps)
  from v show ?thesis
  proof (cases rule: try_execute_cases)
    case finished
    show ?thesis
      by (rule data_inv_quiet[OF inv]) (auto simp: finished r round_task_def)
  next
    case (task c)
    show ?thesis
      by (rule data_inv_quiet[OF inv]) (use task in \<open>auto simp: r round_task_def nth_list_update\<close>)
  next
    case skip
    show ?thesis
      by (rule data_inv_quiet[OF inv]) (auto simp: skip r round_task_def)
  qed
qed

lemma engine_inv_fetch_validation:
  "engine_inv vm block sh T \<Longrightarrow> fetch_validation (scheduler sh) = Inr (r, s') \<Longrightarrow>
   engine_inv vm block (sh\<lparr>scheduler := s'\<rparr>) (add_mset (round_task r) T)"
  by (auto simp: engine_inv_def intro: sched_inv_fetch_validation data_inv_fetch_validation)

lemma engine_inv_fetch_execution:
  "engine_inv vm block sh T \<Longrightarrow> fetch_execution (scheduler sh) = Inr (r, s') \<Longrightarrow>
   engine_inv vm block (sh\<lparr>scheduler := s'\<rparr>) (add_mset (round_task r) T)"
  by (auto simp: engine_inv_def intro: sched_inv_fetch_execution data_inv_fetch_execution)

lemma engine_inv_idle [simp]: "engine_inv vm block sh (add_mset NoTask T) = engine_inv vm block sh T"
  by (simp add: engine_inv_def)

lemma engine_inv_waited:
  assumes "engine_inv vm block sh T"
  shows "engine_inv vm block (sh\<lparr>scheduler := (scheduler sh)\<lparr>wait_count := w\<rparr>\<rparr>) T"
proof -
  have s: "sched_inv (length block) (scheduler sh) T"
    and d: "data_inv vm block (scheduler sh) (versioned_data sh) (last_io sh) T"
    using assms by (auto simp: engine_inv_def)
  have "sched_inv (length block) ((scheduler sh)\<lparr>wait_count := w\<rparr>) T"
    by (rule sched_inv_frame[OF s]) (use sched_inv_done[OF s] in auto)
  moreover have "data_inv vm block ((scheduler sh)\<lparr>wait_count := w\<rparr>) (versioned_data sh) (last_io sh) T"
    by (rule data_inv_quiet[OF d]) auto
  ultimately show ?thesis by (simp add: engine_inv_def)
qed

lemma engine_inv_next_task:
  assumes inv: "engine_inv vm block sh T" and run: "next_task_round (scheduler sh) = Inr (r, s')"
  shows "engine_inv vm block (sh\<lparr>scheduler := s'\<rparr>) (add_mset (round_task r) T)"
  using run
proof (cases rule: next_task_round_cases)
  case finished
  have "data_inv vm block (scheduler sh) (versioned_data sh) (last_io sh) (add_mset Done T)"
    using inv finished(1) by (simp add: engine_inv_def data_inv_def val_inv_def)
  with inv finished show ?thesis by (simp add: engine_inv_def round_task_def)
next
  case (validate s0)
  have "engine_inv vm block (sh\<lparr>scheduler := s0\<rparr>) T"
    using validate(1) inv engine_inv_waited[OF inv] by auto
  from engine_inv_fetch_validation[OF this, of r s'] validate(3) show ?thesis by simp
next
  case execute
  with inv show ?thesis by (rule engine_inv_fetch_execution)
next
  case (validate_twice s1)
  from engine_inv_fetch_validation[OF inv validate_twice(1)]
  have "engine_inv vm block (sh\<lparr>scheduler := s1\<rparr>) T" by (simp add: round_task_def)
  from engine_inv_fetch_validation[OF this, of r s'] validate_twice(2) show ?thesis by simp
next
  case (validate_execute s1)
  from engine_inv_fetch_validation[OF inv validate_execute(1)]
  have "engine_inv vm block (sh\<lparr>scheduler := s1\<rparr>) T" by (simp add: round_task_def)
  from engine_inv_fetch_execution[OF this, of r s'] validate_execute(2) show ?thesis by simp
qed

section \<open>Validating\<close>

lemma data_inv_validated:
  assumes inv: "data_inv vm block s mv io (add_mset (ValidationTask (i, c)) T)"
    and valid: "status_of s i = Executed c \<Longrightarrow> reads_valid mv i (inputs io ! i)"
    and s': "txn_status s' = txn_status s" "validation_idx s' = validation_idx s" "done_marker s' = done_marker s"
  shows "data_inv vm block s' mv io T"
proof -
  have "val_inv (validation_idx s) (txn_status s) mv (inputs io) T"
    using inv valid unfolding data_inv_def val_inv_def by auto
  with inv show ?thesis unfolding data_inv_def s' by auto
qed

lemma data_inv_abort:
  assumes inv: "data_inv vm block s mv io (add_mset (ValidationTask (i, c)) T)"
    and i: "i < length block" "status_of s i = Executed c"
    and mark: "rfold (\<lambda>k m. mv_mark_estimate k i m) (output_keys (get_writes vm) (outputs io ! i)) mv = Inr mv'"
    and st: "txn_status s' = (txn_status s)[i := st]" "quiet_change (ReadyToExecute (c + 1)) st"
    and s': "validation_idx s' = min (validation_idx s) (i + 1)" "done_marker s' = done_marker s"
    and T': "\<And>w. ValidationTask w \<in># T' \<longleftrightarrow> ValidationTask w \<in># T" "Done \<in># T' \<Longrightarrow> Done \<in># T"
  shows "data_inv vm block s' mv' io T'"
proof -
  from inv obtain H where H: "mem_inv vm block H (txn_status s) mv io"
    and val: "val_inv (validation_idx s) (txn_status s) mv (inputs io) (add_mset (ValidationTask (i, c)) T)"
    unfolding data_inv_def by blast
  have len: "i < length (txn_status s)" using H i by (simp add: mem_inv_def)
  have "mem_inv vm block H ((txn_status s)[i := ReadyToExecute (c + 1)]) mv' io"
    by (rule mem_inv_abort[OF H i mark])
  then have "mem_inv vm block H (txn_status s') mv' io"
    by (rule mem_inv_quiet) (use st len in \<open>auto simp: nth_list_update\<close>)
  moreover have "val_inv (validation_idx s') (txn_status s') mv' (inputs io) T'"
    unfolding val_inv_def
  proof (intro allI impI)
    fix l d assume l: "l < length (txn_status s')" "l < validation_idx s'" "status_of s' l = Executed d"
    have "l \<noteq> i" using l(3) st len by (cases st) auto
    with l st s' val have "ValidationTask (l, d) \<in># T \<or> reads_valid mv l (inputs io ! l)"
      unfolding val_inv_def by auto
    moreover have "l \<le> i" using l(2) s' by simp
    ultimately show "ValidationTask (l, d) \<in># T' \<or> reads_valid mv' l (inputs io ! l)"
      using reads_valid_above[of i mv' mv l] T'(1) by (auto simp: rfold_mark_estimate_Inr(1)[OF mark])
  qed
  ultimately show ?thesis using inv T' s' unfolding data_inv_def by auto
qed

lemma engine_inv_validate_one:
  assumes inv: "engine_inv vm block sh (add_mset (ValidationTask (i, c)) T)"
    and run: "validate_one vm (i, c) sh = Inr (t, sh')"
  shows "engine_inv vm block sh' (add_mset t T)"
proof -
  let ?s = "scheduler sh" and ?mv = "versioned_data sh" and ?io = "last_io sh"
  have sinv: "sched_inv (length block) ?s (add_mset (ValidationTask (i, c)) T)"
    and dinv: "data_inv vm block ?s ?mv ?io (add_mset (ValidationTask (i, c)) T)"
    using inv by (auto simp: engine_inv_def)
  have i: "i < length block" using sched_inv_val_task[OF sinv, of i c] by simp
  have len: "i < length (txn_status ?s)" using i sched_inv_lengths[OF sinv] by simp
  have dropped: "engine_inv vm block (sh\<lparr>scheduler := s'\<rparr>) (add_mset t T)"
    if "status_of ?s i = Executed c \<Longrightarrow> reads_valid ?mv i (inputs ?io ! i)" "drop_task ?s = Inr (t, s')" for s'
    using sched_inv_drop_task[OF sinv that(2)] data_inv_validated[OF dinv that(1)] that(2)
    by (auto simp: engine_inv_def fault_simps)
  from run obtain rs where rs: "inputs ?io ! i = Some rs"
    by (auto simp: validate_one_def read_set_def fault_simps Let_def split: option.splits)
  then have il: "read_set i ?io = Inr (Some rs)"
    using run by (auto simp: validate_one_def read_set_def fault_simps Let_def)
  consider (valid) "list_all (read_valid ?mv i) rs" | (stale) "status_of ?s i \<noteq> Executed c"
    | (abort) "\<not> list_all (read_valid ?mv i) rs" "status_of ?s i = Executed c" by blast
  then show ?thesis
  proof cases
    case valid
    with run il rs show ?thesis using dropped
      by (auto simp: validate_one_def Let_def fault_simps split: if_splits)
  next
    case stale
    with run il rs len show ?thesis using dropped
      by (auto simp: validate_one_def try_abort_def Let_def fault_simps split: if_splits)
  next
    case abort
    have ta: "try_abort i c ?s = Inr (True, ?s\<lparr>txn_status := (txn_status ?s)[i := Aborting c]\<rparr>)"
      using abort(2) len by (simp add: try_abort_def)
    from run il rs abort ta obtain mv1 s2 where
      mark: "rfold (\<lambda>k m. mv_mark_estimate k i m) (output_keys (get_writes vm) (outputs ?io ! i)) ?mv = Inr mv1"
      and fin: "finish_abort i c (?s\<lparr>txn_status := (txn_status ?s)[i := Aborting c]\<rparr>) = Inr (t, s2)"
      and sh': "sh' = sh\<lparr>scheduler := s2, versioned_data := mv1\<rparr>"
      by (auto simp: validate_one_def write_set_def Let_def fault_simps)
    have sinv': "sched_inv (length block) s2 (add_mset t T)"
      by (rule sched_inv_finish_abort[OF sinv abort(2) i fin])
    have "data_inv vm block s2 mv1 ?io (add_mset t T)" using len fin
    proof (cases rule: finish_abort_cases)
      case (ready s0)
      then have s2: "txn_status s2 = (txn_status ?s)[i := ReadyToExecute (c + 1)]"
        "validation_idx s2 = min (validation_idx ?s) (i + 1)" "done_marker s2 = done_marker ?s"
        by (auto simp: fault_simps)
      show ?thesis by (rule data_inv_abort[OF dinv i abort(2) mark s2(1) _ s2(2,3)]) (auto simp: ready(2))
    next
      case again
      show ?thesis
        by (rule data_inv_abort[OF dinv i abort(2) mark again(3) _ again(6,9)]) (auto simp: again(2))
    qed
    with sinv' show ?thesis by (simp add: engine_inv_def sh')
  qed
qed

section \<open>Executing\<close>

lemma precheck_reads_cases:
  "precheck_reads mv i rs s = Inr (b, s') \<Longrightarrow>
   if b then \<exists>k dep cl. dep < i \<and> mv_tree mv k dep = Some cl \<and> cell_flag cl = FLAG_ESTIMATE
               \<and> try_add_dependency i dep s = Inr (True, s')
   else s' = s"
proof (induction rs)
  case (Cons r rs)
  show ?case
  proof (cases "\<exists>dep. mv_read mv (access_path r) i = Inl (Some dep)")
    case True
    then obtain dep where dep: "mv_read mv (access_path r) i = Inl (Some dep)" by blast
    then obtain cl where cl: "dep < i" "mv_tree mv (access_path r) dep = Some cl" "cell_flag cl = FLAG_ESTIMATE"
      by (auto simp: mv_read_tree last_below_Some split: option.splits prod.splits if_splits)
    from Cons.prems dep obtain added s1 where add: "try_add_dependency i dep s = Inr (added, s1)"
      and rest: "(if added then Inr (True, s1) else precheck_reads mv i rs s1) = Inr (b, s')"
      by (auto simp: fault_simps)
    show ?thesis
    proof (cases added)
      case True
      with add cl rest show ?thesis by auto
    next
      case False
      with try_add_dependency_cases(3)[OF add] rest Cons.IH show ?thesis by simp
    qed
  next
    case False
    with Cons show ?thesis by (auto split: sum.splits option.splits)
  qed
qed auto

lemma execute_one_cases:
  assumes run: "execute_one vm block (i, c) sh = Inr (t, sh')" and H: "cells_from H (versioned_data sh)"
  obtains (suspended) dep s1 s' where "dep < i" "try_add_dependency i dep (scheduler sh) = Inr (True, s1)"
      "drop_task s1 = Inr (t, s')" "sh' = sh\<lparr>scheduler := s'\<rparr>"
  | (executed) rs res stale outside mv1 mv2 io' s' where
      "list_all (read_valid (versioned_data sh) i) rs"
      "replay H (execute_transaction vm (block ! i)) rs = Some res"
      "apply_writes (i, c) (status_writes (get_writes vm) res)
        (output_keys (get_writes vm) (outputs (last_io sh) ! i), False, versioned_data sh) = Inr (stale, outside, mv1)"
      "rfold (\<lambda>k m. mv_delete k i m) stale mv1 = Inr mv2"
      "record_io i rs (wrap_result res) (last_io sh) = Inr io'"
      "finish_execution i c outside (stop_after i res (scheduler sh)) = Inr (t, s')"
      "sh' = \<lparr>scheduler = s', versioned_data = mv2, last_io = io'\<rparr>"
proof -
  let ?mv = "versioned_data sh" and ?s = "scheduler sh"
  let ?pre = "case inputs (last_io sh) ! i of None \<Rightarrow> Inr (False, ?s) | Some rs \<Rightarrow> precheck_reads ?mv i rs ?s"
  from run obtain b s0 where pre: "?pre = Inr (b, s0)"
    by (auto simp: execute_one_def read_set_def Let_def fault_simps)
  from run pre have rest: "(if b then rbind (drop_task s0) (\<lambda>(t, s'). Inr (t, sh\<lparr>scheduler := s'\<rparr>))
      else rbind (run_view ?mv i (execute_transaction vm (block ! i))
              \<lparr>view_scheduler = s0, read_dependency = False, captured_reads = []\<rparr>) (\<lambda>(res, w).
             if read_dependency w then rbind (drop_task (view_scheduler w)) (\<lambda>(t, s'). Inr (t, sh\<lparr>scheduler := s'\<rparr>))
             else rbind (write_set (get_writes vm) i (last_io sh)) (\<lambda>prev.
                  rbind (apply_writes (i, c) (status_writes (get_writes vm) res) (prev, False, ?mv)) (\<lambda>(stale, outside, mv1).
                  rbind (rfold (\<lambda>k m. mv_delete k i m) stale mv1) (\<lambda>mv2.
                  rbind (record_io i (captured_reads w) (wrap_result res) (last_io sh)) (\<lambda>io.
                  rbind (finish_execution i c outside (stop_after i res (view_scheduler w))) (\<lambda>(t, s').
                    Inr (t, \<lparr>scheduler = s', versioned_data = mv2, last_io = io\<rparr>))))))))
      = Inr (t, sh')"
    by (auto simp: execute_one_def read_set_def Let_def fault_simps)
  have pre': "if b then \<exists>dep. dep < i \<and> try_add_dependency i dep ?s = Inr (True, s0) else s0 = ?s"
  proof (cases "inputs (last_io sh) ! i")
    case None
    with pre show ?thesis by auto
  next
    case (Some rs)
    with pre precheck_reads_cases[of ?mv i rs ?s b s0] show ?thesis by (cases b) auto
  qed
  show ?thesis
  proof (cases b)
    case True
    with pre' rest show ?thesis using suspended by (auto simp: fault_simps)
  next
    case False
    with rest obtain res w where view: "run_view ?mv i (execute_transaction vm (block ! i))
        \<lparr>view_scheduler = s0, read_dependency = False, captured_reads = []\<rparr> = Inr (res, w)"
      by (auto simp: fault_simps)
    note vc = run_view_cases[OF view _ H]
    show ?thesis
    proof (cases "read_dependency w")
      case True
      with vc pre' False obtain dep where dep: "dep < i" "try_add_dependency i dep ?s = Inr (True, view_scheduler w)"
        by auto
      from rest False view True obtain s' where "drop_task (view_scheduler w) = Inr (t, s')"
        "sh' = sh\<lparr>scheduler := s'\<rparr>" by (auto simp: fault_simps)
      with dep show ?thesis by (rule suspended)
    next
      case completed: False
      with vc pre' False have w: "view_scheduler w = ?s" "list_all (read_valid ?mv i) (captured_reads w)"
        "replay H (execute_transaction vm (block ! i)) (captured_reads w) = Some res" by auto
      from rest False view completed w(1) obtain stale outside mv1 mv2 io' s' where
        "apply_writes (i, c) (status_writes (get_writes vm) res)
           (output_keys (get_writes vm) (outputs (last_io sh) ! i), False, ?mv) = Inr (stale, outside, mv1)"
        "rfold (\<lambda>k m. mv_delete k i m) stale mv1 = Inr mv2"
        "record_io i (captured_reads w) (wrap_result res) (last_io sh) = Inr io'"
        "finish_execution i c outside (stop_after i res ?s) = Inr (t, s')"
        "sh' = \<lparr>scheduler = s', versioned_data = mv2, last_io = io'\<rparr>"
        by (auto simp: fault_simps write_set_def)
      with w(2,3) show ?thesis by (rule executed)
    qed
  qed
qed

lemma quiet_bump [simp]: "quiet_change st (bump st)"
  by (cases st) auto

lemma stop_after_frame [simp]:
  "txn_status (stop_after i res s) = txn_status s" "txn_dependency (stop_after i res s) = txn_dependency s"
  "validation_idx (stop_after i res s) = validation_idx s" "execution_idx (stop_after i res s) = execution_idx s"
  "num_active_tasks (stop_after i res s) = num_active_tasks s" "done_marker (stop_after i res s) = done_marker s"
  "stop_idx (stop_after i res s) \<le> stop_idx s"
  by (cases res; simp add: stop_after_def set_stop_idx_def)+

text \<open>The memory part of a completed execution, whatever the scheduler answers with.\<close>

lemma data_inv_execute:
  assumes inv: "data_inv vm block s mv io (add_mset (ExecutionTask (i, c)) T)"
    and H: "mem_inv vm block H (txn_status s) mv io"
    and i: "i < length block" "status_of s i = Executing c" and len: "length (txn_status s) = length block"
    and run: "replay H (execute_transaction vm (block ! i)) rs = Some res" "list_all (read_valid mv i) rs"
    and app: "apply_writes (i, c) (status_writes (get_writes vm) res)
        (output_keys (get_writes vm) (outputs io ! i), False, mv) = Inr (stale, outside, mv1)"
    and del: "rfold (\<lambda>k m. mv_delete k i m) stale mv1 = Inr mv2"
    and rec: "record_io i rs (wrap_result res) io = Inr io'"
    and after: "after_execution i c (stop_after i res s) s3"
    and s': "txn_status s' = txn_status s3" "done_marker s' = done_marker s" "validation_idx s' \<le> validation_idx s"
    and revalidate: "outside \<Longrightarrow> validation_idx s' \<le> i"
    and pending: "t = NoTask \<and> validation_idx s' \<le> i \<or> t = ValidationTask (i, c)"
  shows "data_inv vm block s' mv2 io' (add_mset t T)"
proof -
  note m = H[unfolded mem_inv_def inv_cells_def]
  note app' = apply_writes_Inr[OF app]
  have st3: "length (txn_status s3) = length (txn_status s)" "status_of s3 i = Executed c"
    "\<And>j. j \<noteq> i \<Longrightarrow> quiet_change (status_of s j) (status_of s3 j)"
    using after by (auto simp: after_execution_def)
  let ?H = "H((i, c) := map_of (status_writes (get_writes vm) res))"
  have "mem_inv vm block ?H ((txn_status s)[i := Executed c]) mv2 io'"
    by (rule mem_inv_execute[OF H i run app del rec])
  then have mem: "mem_inv vm block ?H (txn_status s3) mv2 io'"
  proof (rule mem_inv_quiet)
    show "quiet_change ((txn_status s)[i := Executed c] ! j) (status_of s3 j)" for j
      using st3 i len by (cases "j = i") auto
  qed (simp add: st3)
  have ins: "inputs io' = (inputs io)[i := Some rs]" using rec m i by (auto simp: record_io_def)
  have same: "mv_tree mv2 k j = mv_tree mv k j" if "j \<noteq> i" for k j
    using that by (simp add: rfold_mv_delete_Inr[OF del] app'(1))
  have est: "cell_flag cl = FLAG_ESTIMATE" if "mv_tree mv k i = Some cl" for k cl
    using mem_inv_cell(2)[OF H that] i by simp
  have inside: "mv_tree mv2 k i = None" if "\<not> outside" "mv_tree mv k i = None" for k
  proof -
    have "k \<notin> set (output_keys (get_writes vm) (outputs io ! i))" using mem_inv_cell(1)[OF H, of k i] i that(2) by simp
    then have "k \<notin> fst ` set (status_writes (get_writes vm) res)" using app'(4) that(1) by auto
    with that(2) show ?thesis by (simp add: rfold_mv_delete_Inr[OF del] app'(1))
  qed
  have "val_inv (validation_idx s') (txn_status s3) mv2 (inputs io') (add_mset t T)"
    unfolding val_inv_def
  proof (intro allI impI)
    fix l d assume l: "l < length (txn_status s3)" "l < validation_idx s'" "status_of s3 l = Executed d"
    show "ValidationTask (l, d) \<in># add_mset t T \<or> reads_valid mv2 l (inputs io' ! l)"
    proof (cases "l = i")
      case True
      with l st3 pending show ?thesis by auto
    next
      case False
      then have "status_of s l = Executed d" using st3(3)[of l] l(3) by (simp add: quiet_Executed)
      with inv l s'(3) st3(1) have "ValidationTask (l, d) \<in># T \<or> reads_valid mv l (inputs io ! l)"
        unfolding data_inv_def val_inv_def by auto
      moreover have "reads_valid mv2 l (inputs io ! l)" if "reads_valid mv l (inputs io ! l)"
      proof (cases outside)
        case True
        with revalidate l(2) have "l \<le> i" by simp
        with reads_valid_above[OF same] that show ?thesis by blast
      next
        case False
        show ?thesis
          by (rule reads_valid_rewrite[where i = i and mv = mv]) (use same est inside False that in blast)+
      qed
      ultimately show ?thesis using False ins by auto
    qed
  qed
  moreover have "inputs io' ! j \<noteq> None" if "ValidationTask (j, d) \<in># add_mset t T" for j d
    using that inv pending m i ins unfolding data_inv_def by (cases "j = i") auto
  ultimately show ?thesis using mem inv pending unfolding data_inv_def s'(1,2) by auto
qed

lemma engine_inv_execute_one:
  assumes inv: "engine_inv vm block sh (add_mset (ExecutionTask (i, c)) T)"
    and run: "execute_one vm block (i, c) sh = Inr (t, sh')"
  shows "engine_inv vm block sh' (add_mset t T)"
proof -
  let ?s = "scheduler sh" and ?mv = "versioned_data sh" and ?io = "last_io sh"
  have sinv: "sched_inv (length block) ?s (add_mset (ExecutionTask (i, c)) T)"
    and dinv: "data_inv vm block ?s ?mv ?io (add_mset (ExecutionTask (i, c)) T)"
    using inv by (auto simp: engine_inv_def)
  note hand = sched_inv_in_hand[OF sinv]
  note len = sched_inv_lengths[OF sinv]
  have nd: "\<not> done_marker ?s" using sched_inv_active_not_done[OF sinv] by simp
  obtain H where H: "mem_inv vm block H (txn_status ?s) ?mv ?io" using dinv by (auto simp: data_inv_def)
  then have "cells_from H ?mv" by (simp add: mem_inv_def inv_cells_def)
  with run show ?thesis
  proof (cases rule: execute_one_cases)
    case (suspended dep s1 s')
    then have t: "t = NoTask" and s': "s' = s1\<lparr>num_active_tasks := num_active_tasks s1 - 1\<rparr>"
      by (auto simp: fault_simps)
    have "sched_inv (length block) s' T" by (rule sched_inv_suspend[OF sinv suspended(1,2) s'])
    moreover have "data_inv vm block s' ?mv ?io T"
      by (rule data_inv_quiet[OF dinv]) (use try_add_dependency_cases(4)[OF suspended(2)] s' in auto)
    ultimately show ?thesis by (simp add: engine_inv_def suspended(4) t)
  next
    case (executed rs res stale outside mv1 mv2 io' s')
    let ?stopped = "stop_after i res ?s"
    have sinv0: "sched_inv (length block) ?stopped (add_mset (ExecutionTask (i, c)) T)"
      by (rule sched_inv_frame[OF sinv]) (use nd in auto)
    obtain s3 where after: "after_execution i c ?stopped s3"
      and fin: "finish_execution i c outside ?stopped =
        (if validation_idx ?stopped > i
         then (if outside then drop_task (decrease_validation_idx i s3) else Inr (ValidationTask (i, c), s3))
         else drop_task s3)"
      by (rule finish_execution_state[OF sinv0])
    have s3: "validation_idx s3 = validation_idx ?s" "done_marker s3 = done_marker ?s"
      using after by (auto simp: after_execution_def)
    have fin': "(if validation_idx ?s > i
         then (if outside then drop_task (decrease_validation_idx i s3) else Inr (ValidationTask (i, c), s3))
         else drop_task s3) = Inr (t, s')"
      using executed(6) unfolding fin by simp
    have s': "txn_status s' = txn_status s3" "done_marker s' = done_marker ?s"
      "validation_idx s' \<le> validation_idx ?s" "outside \<Longrightarrow> validation_idx s' \<le> i"
      "t = NoTask \<and> validation_idx s' \<le> i \<or> t = ValidationTask (i, c)"
      using fin' s3
      by (auto simp: fault_simps decrease_validation_idx_def Let_def split: if_splits)
    have "data_inv vm block s' mv2 io' (add_mset t T)"
      by (rule data_inv_execute[OF dinv H hand(1,2) len(1) executed(2,1,3,4,5) after s'])
    with sched_inv_finish_execution[OF sinv0 executed(6)] show ?thesis
      by (simp add: engine_inv_def executed(7))
  qed
qed

section \<open>The worker loop\<close>

lemma engine_inv_round:
  assumes inv: "engine_inv vm block sh (add_mset t T)" and run: "worker_round vm block t sh = Inr (t', sh')"
  shows "engine_inv vm block sh' (add_mset t' T)"
proof (cases t)
  case (ExecutionTask v)
  obtain i c where "v = (i, c)" by fastforce
  with ExecutionTask inv run show ?thesis by (auto intro: engine_inv_execute_one)
next
  case (ValidationTask v)
  obtain i c where "v = (i, c)" by fastforce
  with ValidationTask inv run show ?thesis by (auto intro: engine_inv_validate_one)
next
  case NoTask
  with run obtain r s' where "next_task_round (scheduler sh) = Inr (r, s')"
    "t' = round_task r" "sh' = sh\<lparr>scheduler := s'\<rparr>"
    by (auto simp: fault_simps round_task_def)
  with engine_inv_next_task[of vm block sh T r s'] inv NoTask show ?thesis by simp
next
  case Done
  with inv run show ?thesis by simp
qed

lemma engine_inv_step:
  assumes "worker_step vm block (sh, ts) (sh', ts')" and "engine_inv vm block sh (mset ts)"
  shows "engine_inv vm block sh' (mset ts')"
  using assms(1)
proof cases
  case (round w t')
  let ?T = "mset ts - {#ts ! w#}"
  have "mset ts = add_mset (ts ! w) ?T" using round(2) by simp
  with assms(2) have "engine_inv vm block sh (add_mset (ts ! w) ?T)" by simp
  from engine_inv_round[OF this round(4)] round(1,2) show ?thesis by (simp add: mset_update)
qed

lemma engine_inv_initial:
  assumes "length block = n"
  shows "engine_inv vm block (fst (initial_system n cpus w bounds lookup)) (mset (snd (initial_system n cpus w bounds lookup)))"
proof -
  let ?s = "initial_scheduler n w bounds lookup"
  have s: "txn_status ?s = replicate n (ReadyToExecute 0)" "validation_idx ?s = 0"
    by (auto simp: initial_scheduler_def with_backpressure_def with_domain_plan_def)
  have idle: "engine_inv vm block sh (replicate_mset m NoTask) = engine_inv vm block sh {#}" for sh m
    by (induction m) auto
  have "sched_inv n ?s {#}" using sched_inv_initial by (simp add: initial_scheduler_def)
  moreover have "mem_inv vm block H (txn_status ?s) mv_new (last_io_new n)" for H
    using assms by (auto simp: mem_inv_def inv_cells_def cells_from_def s last_io_new_def output_keys_def)
  then have "data_inv vm block ?s mv_new (last_io_new n) {#}" by (auto simp: data_inv_def val_inv_def s)
  ultimately show ?thesis using assms
    by (simp add: initial_system_def shared_new_def idle) (simp add: engine_inv_def)
qed

lemma engine_inv_reachable:
  assumes "reachable_from vm block (initial_system (length block) cpus w bounds lookup) sys"
  shows "engine_inv vm block (fst sys) (mset (snd sys))"
  using assms
proof induction
  case start
  show ?case by (rule engine_inv_initial) simp
next
  case (step s s')
  then show ?case using engine_inv_step[of vm block "fst s" "snd s" "fst s'" "snd s'"] by simp
qed

end
