(* ===== verification/EngineSafety.thy ===== *)
theory EngineSafety
  imports EngineStep
begin

text \<open>
  What the invariant of the engine gives: no round of a worker panics or spins, and when the
  scheduler reports that the block is done, the recorded outputs are those of executing the
  block one transaction after the other.
\<close>

section \<open>Serial execution\<close>

definition apply_updates :: "('k \<times> 'v) list \<Rightarrow> ('k \<rightharpoonup> 'v) \<Rightarrow> 'k \<rightharpoonup> 'v" where
  "apply_updates ws m = fold (\<lambda>(k, v) m. m(k \<mapsto> v)) ws m"

lemma apply_updates_distinct:
  "distinct (map fst ws) \<Longrightarrow> apply_updates ws m = m ++ map_of ws"
proof (induction ws arbitrary: m)
  case (Cons kv ws)
  obtain k v where kv: "kv = (k, v)" by fastforce
  have "k \<notin> dom (map_of ws)" using Cons.prems kv by (simp add: dom_map_of_conv_image_fst)
  with Cons kv show ?case
    by (simp add: apply_updates_def map_add_upd_left fun_eq_iff map_add_def split: option.splits)
      (auto simp: dom_def)
qed (simp add: apply_updates_def)

text \<open>One transaction after the other, each on the writes of the ones before.\<close>

fun serial_run :: "('k, 'v, 't, 'o, 'e) vm \<Rightarrow> ('k \<rightharpoonup> 'v) \<Rightarrow> 't list \<Rightarrow> ('o, 'e) ExecutionStatus list" where
  "serial_run vm m [] = []"
| "serial_run vm m (t # ts) =
     (let res = run_serial m (execute_transaction vm t)
      in res # serial_run vm (apply_updates (status_writes (get_writes vm) res) m) ts)"

fun serial_state :: "('k, 'v, 't, 'o, 'e) vm \<Rightarrow> ('k \<rightharpoonup> 'v) \<Rightarrow> 't list \<Rightarrow> 'k \<rightharpoonup> 'v" where
  "serial_state vm m [] = m"
| "serial_state vm m (t # ts) =
     serial_state vm (apply_updates (status_writes (get_writes vm)
       (run_serial m (execute_transaction vm t))) m) ts"

lemma length_serial_run [simp]: "length (serial_run vm m ts) = length ts"
  by (induction ts arbitrary: m) (auto simp: Let_def)

lemma serial_run_nth:
  "i < length ts \<Longrightarrow> serial_run vm m ts ! i =
     run_serial (serial_state vm m (take i ts)) (execute_transaction vm (ts ! i))"
proof (induction ts arbitrary: m i)
  case (Cons t ts)
  then show ?case by (cases i) (simp_all add: Let_def)
qed simp

lemma serial_state_append:
  "serial_state vm m (xs @ ys) = serial_state vm (serial_state vm m xs) ys"
  by (induction xs arbitrary: m) auto

section \<open>When the block is done\<close>

text \<open>Nobody can be left waiting: a waiting transaction waits for a lower one.\<close>

lemma done_executed:
  assumes inv: "sched_inv n s T" and d: "done_marker s" and "i < stop_idx s"
  shows "\<exists>c. status_of s i = Executed c"
  using assms(3)
proof (induction i rule: less_induct)
  case (less i)
  note fin = sched_inv_done[OF inv d]
  have i: "i < n" using less.prems sched_inv_lengths(3)[OF inv] by simp
  have noexec: "ExecutionTask v \<notin># T" for v
    by (rule sched_inv_done_no_task[OF inv d]) simp
  show ?case
  proof (cases "status_of s i")
    case (ReadyToExecute c)
    then show ?thesis using sched_inv_below_exec[OF inv i, of c] fin(2) less.prems by simp
  next
    case (Executing c)
    with sched_inv_executing[OF inv i] noexec have "i \<in> waiting s" by blast
    then obtain j where j: "j < n" "i \<in> set (txn_dependency s ! j)"
      unfolding set_concat_nth sched_inv_lengths(2)[OF inv] by blast
    note dep = sched_inv_dep[OF inv j]
    obtain c' where "status_of s j = Executed c'" using less.IH[OF dep(1)] dep(1) less.prems by auto
    with dep(4) show ?thesis by blast
  next
    case (Aborting c)
    then show ?thesis using sched_inv_not_aborting[OF inv i] by simp
  qed blast
qed

lemma engine_done_valid:
  assumes inv: "engine_inv vm block sh T" and d: "done_marker (scheduler sh)"
    and i: "i < stop_idx (scheduler sh)"
  shows "reads_valid (versioned_data sh) i (inputs (last_io sh) ! i)"
proof -
  have s: "sched_inv (length block) (scheduler sh) T" using inv by (simp add: engine_inv_def)
  note fin = sched_inv_done[OF s d]
  have noval: "ValidationTask v \<notin># T" for v
    by (rule sched_inv_done_no_task[OF s d]) simp
  obtain c where "status_of (scheduler sh) i = Executed c" using done_executed[OF s d i] by blast
  moreover have "i < length (txn_status (scheduler sh))" using i sched_inv_lengths[OF s] by simp
  moreover have "i < validation_idx (scheduler sh)" using i fin(1) by simp
  ultimately show ?thesis using inv noval unfolding engine_inv_def data_inv_def val_inv_def by blast
qed

text \<open>The snapshot below \<open>i\<close> is the state of the serial execution.\<close>

lemma snapshot_0: "snapshot mv 0 = Map.empty"
  by (rule ext) (simp add: snapshot_def)

lemma snapshot_Suc:
  "snapshot mv (Suc i) k = (case mv_tree mv k i of Some cl \<Rightarrow> Some (cell_data cl) | None \<Rightarrow> snapshot mv i k)"
  by (simp add: snapshot_def split: option.split)

lemma snapshot_executed:
  assumes H: "mem_inv vm block H st mv io" and i: "i < length block" "st ! i = Executed c"
    and out: "outputs io ! i = Some (wrap_result res)"
    and d: "distinct (map fst (status_writes (get_writes vm) res))"
    and h: "H (i, c) = map_of (status_writes (get_writes vm) res)"
  shows "snapshot mv (Suc i) = apply_updates (status_writes (get_writes vm) res) (snapshot mv i)"
proof
  fix k
  let ?ws = "status_writes (get_writes vm) res"
  show "snapshot mv (Suc i) k = apply_updates ?ws (snapshot mv i) k"
  proof (cases "mv_tree mv k i")
    case None
    then have "k \<notin> fst ` set ?ws" using mem_inv_cell(1)[OF H, of k i] i out by simp
    then have "map_of ?ws k = None" by (simp add: map_of_eq_None_iff)
    with None d show ?thesis by (simp add: snapshot_Suc apply_updates_distinct map_add_def)
  next
    case (Some cl)
    have "cell_incarnation cl = c" using mem_inv_cell(2)[OF H Some] i(2) by simp
    then have "map_of ?ws k = Some (cell_data cl)" using mem_inv_cell(3)[OF H Some] h by simp
    with Some d show ?thesis by (simp add: snapshot_Suc apply_updates_distinct map_add_def)
  qed
qed

lemma done_serial:
  assumes inv: "engine_inv vm block sh T" and d: "done_marker (scheduler sh)"
  shows "i \<le> stop_idx (scheduler sh) \<Longrightarrow>
      snapshot (versioned_data sh) i = serial_state vm Map.empty (take i block)"
    and "i < stop_idx (scheduler sh) \<Longrightarrow>
      outputs (last_io sh) ! i = Some (wrap_result (serial_run vm Map.empty block ! i))"
proof -
  let ?s = "scheduler sh" and ?mv = "versioned_data sh" and ?io = "last_io sh"
  have s: "sched_inv (length block) ?s T" using inv by (simp add: engine_inv_def)
  obtain H where H: "mem_inv vm block H (txn_status ?s) ?mv ?io"
    using inv by (auto simp: engine_inv_def data_inv_def)
  then have cells: "cells_from H ?mv" by (simp add: mem_inv_def inv_cells_def)
  have one: "\<exists>res. outputs ?io ! i = Some (wrap_result res) \<and>
      res = run_serial (snapshot ?mv i) (execute_transaction vm (block ! i)) \<and>
      snapshot ?mv (Suc i) = apply_updates (status_writes (get_writes vm) res) (snapshot ?mv i)"
    if i: "i < stop_idx ?s" for i
  proof -
    obtain c where c: "status_of ?s i = Executed c" using done_executed[OF s d i] by blast
    have il: "i < length block" using i sched_inv_lengths[OF s] by simp
    from mem_inv_executed[OF H il c] obtain rs res where r: "inputs ?io ! i = Some rs"
      "outputs ?io ! i = Some (wrap_result res)" "replay H (execute_transaction vm (block ! i)) rs = Some res"
      "distinct (map fst (status_writes (get_writes vm) res))" "H (i, c) = map_of (status_writes (get_writes vm) res)"
      unfolding executed_ok_def by blast
    have "list_all (read_valid ?mv i) rs" using engine_done_valid[OF inv d i] r(1) by simp
    from replay_serial[OF cells this r(3)] snapshot_executed[OF H il c r(2,4,5)] r(2) show ?thesis by auto
  qed
  have state: "snapshot ?mv i = serial_state vm Map.empty (take i block)" if "i \<le> stop_idx ?s" for i
    using that
  proof (induction i)
    case (Suc i)
    have il: "i < length block" using Suc.prems sched_inv_lengths(3)[OF s] by simp
    from Suc one[of i] show ?case by (auto simp: take_Suc_conv_app_nth[OF il] serial_state_append)
  qed (simp add: snapshot_0)
  then show "i \<le> stop_idx ?s \<Longrightarrow> snapshot ?mv i = serial_state vm Map.empty (take i block)" .
  show "outputs ?io ! i = Some (wrap_result (serial_run vm Map.empty block ! i))" if i: "i < stop_idx ?s"
  proof -
    have il: "i < length block" using i sched_inv_lengths(3)[OF s] by simp
    from one[OF i] state[of i] i show ?thesis by (auto simp: serial_run_nth[OF il])
  qed
qed

section \<open>Collecting the outcome\<close>

lemma move_outputs:
  assumes "m \<le> length (outputs io)" and "\<And>i. i < m \<Longrightarrow> outputs io ! i \<noteq> None"
    and "m \<le> n"
  shows "\<exists>io'. rfold move_output [0..<m] (io, outcome_new n) =
      Inr (io', take m (outputs io) @ replicate (n - m) None)
    \<and> outputs io' = replicate m None @ drop m (outputs io)"
  using assms
proof (induction m)
  case 0
  then show ?case by (intro exI[of _ io]) (simp add: outcome_new_def)
next
  case (Suc m)
  then obtain io' where io': "rfold move_output [0..<m] (io, outcome_new n) =
      Inr (io', take m (outputs io) @ replicate (n - m) None)"
    "outputs io' = replicate m None @ drop m (outputs io)" by auto
  from Suc.prems(2)[of m] obtain out where out: "outputs io ! m = Some out" by auto
  have m: "m < length (outputs io)" using Suc.prems(1) by simp
  have drop: "drop m (outputs io) = Some out # drop (Suc m) (outputs io)"
    using m out by (metis Cons_nth_drop_Suc)
  have rep: "replicate (n - m) None = None # replicate (n - Suc m) None"
    using Suc.prems(3) by (metis Suc_diff_Suc Suc_le_lessD replicate_Suc)
  have "move_output m (io', take m (outputs io) @ replicate (n - m) None) =
      Inr (io'\<lparr>outputs := (outputs io')[m := None]\<rparr>, take (Suc m) (outputs io) @ replicate (n - Suc m) None)"
    using m out by (simp add: move_output_def take_output_def set_result_def vget_def io'(2) rep drop
      nth_append list_update_append take_Suc_conv_app_nth)
  moreover have "(outputs io')[m := None] = replicate (Suc m) None @ drop (Suc m) (outputs io)"
    by (simp add: io'(2) drop list_update_append replicate_append_same [symmetric])
  ultimately show ?case using io'(1) by (auto simp: rfold_append)
qed

lemma collect_results_length:
  "collect_results idx stop rs = Inr os \<Longrightarrow> length os = length rs"
  by (induction rs arbitrary: idx os)
    (auto simp: Let_def split: option.splits ExecutionStatus.splits sum.splits if_splits)

text \<open>The result of the block, computed from the serial statuses of the first \<open>stop\<close> transactions.\<close>

definition block_outcome ::
  "('k, 'v, 't, 'o, 'e) vm \<Rightarrow> 't list \<Rightarrow> usize \<Rightarrow> 'e Error + 'o list" where
  "block_outcome vm block stop =
     (case collect_results 0 stop (map (\<lambda>r. Some (wrap_result r)) (take stop (serial_run vm Map.empty block))) of
        Inl e \<Rightarrow> Inl e
      | Inr os \<Rightarrow> Inr (os @ replicate (length block - stop) (skip_output vm)))"

lemma engine_outcome:
  assumes inv: "engine_inv vm block sh T" and d: "done_marker (scheduler sh)"
  shows "execution_outcome vm (length block) sh = Inr (block_outcome vm block (stop_idx (scheduler sh)))"
proof -
  let ?m = "stop_idx (scheduler sh)" and ?n = "length block" and ?outs = "outputs (last_io sh)"
  have s: "sched_inv ?n (scheduler sh) T" using inv by (simp add: engine_inv_def)
  have m: "?m \<le> ?n" using sched_inv_lengths[OF s] by simp
  have len: "length ?outs = ?n" using inv by (auto simp: engine_inv_def data_inv_def mem_inv_def)
  have outs: "?outs ! i = Some (wrap_result (serial_run vm Map.empty block ! i))" if "i < ?m" for i
    using done_serial(2)[OF inv d that] .
  then have take: "take ?m ?outs = map (\<lambda>r. Some (wrap_result r)) (take ?m (serial_run vm Map.empty block))"
    using m len by (intro nth_equalityI) auto
  obtain io' where "rfold move_output [0..<?m] (last_io sh, outcome_new ?n) =
      Inr (io', take ?m ?outs @ replicate (?n - ?m) None)"
    using move_outputs[of ?m "last_io sh" ?n] m len outs by auto
  then show ?thesis using m len
    by (auto simp: execution_outcome_def num_txn_to_execute_def get_all_results_def Let_def take
        block_outcome_def dest!: collect_results_length split: sum.splits)
qed

end
