(* ===== verification/EngineNoFault.thy ===== *)
theory EngineNoFault
  imports EngineSafety
begin

text \<open>
  No round of a worker faults: vector accesses are in range, the \<open>assert\<close>, \<open>expect\<close> and
  \<open>unreachable\<close> sites of the engine are never hit, guards never underflow and no read spins. The
  one thing the engine needs of the virtual machine is that an output never writes the same
  key twice.
\<close>

definition distinct_writes :: "('k, 'v, 't, 'o, 'e) vm \<Rightarrow> 't \<Rightarrow> bool" where
  "distinct_writes vm t \<longleftrightarrow>
     all_results (\<lambda>res. distinct (map fst (status_writes (get_writes vm) res))) (execute_transaction vm t)"

definition always_success :: "('k, 'v, 't, 'o, 'e) vm \<Rightarrow> 't \<Rightarrow> bool" where
  "always_success vm t \<longleftrightarrow> all_results (\<lambda>res. \<exists>out. res = Success out) (execute_transaction vm t)"

lemma all_results_run_view:
  "all_results P p \<Longrightarrow> run_view mv i p w = Inr (a, w') \<Longrightarrow> P a"
  by (induction p arbitrary: w) (auto simp: fault_simps)

section \<open>Fetching\<close>

lemma next_task_round_no_fault: "\<exists>r s'. next_task_round s = Inr (r, s')"
proof -
  have v: "\<exists>r s'. fetch_validation s = Inr (r, s')" for s
    by (cases "is_executed (validation_idx s) s")
      (auto simp: fetch_validation_def try_validate_next_version_def guard_new_def guard_drop_def Let_def)
  have e: "\<exists>r s'. fetch_execution s = Inr (r, s')" for s
    by (auto simp: fetch_execution_def try_execute_next_version_def try_incarnate_def guard_new_def
        guard_drop_def Let_def split: TransactionStatus.split)
  from v[of s] obtain r1 s1 where first: "fetch_validation s = Inr (r1, s1)" by blast
  have "\<exists>r s'. (case r1 of Some t \<Rightarrow> Inr (Some t, s1) | None \<Rightarrow>
      if validation_idx s < execution_idx s then fetch_validation s1 else fetch_execution s1) = Inr (r, s')"
    using v[of s1] e[of s1] by (cases r1) auto
  with first v e[of s] show ?thesis by (auto simp: next_task_round_def)
qed

section \<open>Reading\<close>

text \<open>An estimate belongs to a transaction one can wait for.\<close>

definition can_wait :: "('k, 'v) MVHashMap \<Rightarrow> Scheduler \<Rightarrow> bool" where
  "can_wait mv s \<longleftrightarrow>
     (\<forall>k j cl. mv_tree mv k j = Some cl \<longrightarrow> cell_flag cl = FLAG_ESTIMATE \<longrightarrow>
        j < length (txn_dependency s) \<and> is_executed j s = None)"

lemma engine_inv_can_wait:
  assumes "engine_inv vm block sh T"
  shows "can_wait (versioned_data sh) (scheduler sh)"
proof -
  let ?s = "scheduler sh"
  have s: "sched_inv (length block) ?s T" using assms by (simp add: engine_inv_def)
  obtain H where H: "mem_inv vm block H (txn_status ?s) (versioned_data sh) (last_io sh)"
    using assms by (auto simp: engine_inv_def data_inv_def)
  show ?thesis unfolding can_wait_def
  proof (intro allI impI)
    fix k j cl assume cl: "mv_tree (versioned_data sh) k j = Some cl" and e: "cell_flag cl = FLAG_ESTIMATE"
    have "j < length block" using mem_inv_cell(1)[OF H, of k j] cl by simp
    moreover have "status_of ?s j \<noteq> Executed c" for c using mem_inv_cell(2)[OF H cl] e by auto
    ultimately show "j < length (txn_dependency ?s) \<and> is_executed j ?s = None"
      using sched_inv_lengths[OF s] by (auto simp: is_executed_def split: TransactionStatus.split)
  qed
qed

lemma mv_read_estimate:
  assumes "can_wait mv s" and "mv_read mv k i = Inl (Some dep)"
  shows "\<exists>s'. try_add_dependency i dep s = Inr (True, s') \<and> can_wait mv s' \<and> num_active_tasks s' = num_active_tasks s"
proof -
  from assms(2) obtain cl where "mv_tree mv k dep = Some cl" "cell_flag cl = FLAG_ESTIMATE"
    by (auto simp: mv_read_tree last_below_Some split: option.splits prod.splits if_splits)
  with assms(1) have "dep < length (txn_dependency s)" "is_executed dep s = None" unfolding can_wait_def by blast+
  moreover have "is_executed j (s\<lparr>txn_dependency := d\<rparr>) = is_executed j s" for j d
    by (simp add: is_executed_def)
  ultimately show ?thesis using assms(1) by (simp add: try_add_dependency_def can_wait_def)
qed

lemma precheck_reads_no_fault:
  "can_wait mv s \<Longrightarrow> \<exists>b s'. precheck_reads mv i rs s = Inr (b, s') \<and> can_wait mv s' \<and> num_active_tasks s' = num_active_tasks s"
proof (induction rs)
  case (Cons r rs)
  show ?case
  proof (cases "\<exists>dep. mv_read mv (access_path r) i = Inl (Some dep)")
    case True
    with mv_read_estimate[OF Cons.prems] show ?thesis by fastforce
  next
    case False
    with Cons show ?thesis by (auto split: sum.split option.split)
  qed
qed auto

lemma run_view_no_fault:
  "can_wait mv (view_scheduler w) \<Longrightarrow>
   \<exists>a w'. run_view mv i p w = Inr (a, w') \<and> num_active_tasks (view_scheduler w') = num_active_tasks (view_scheduler w)"
proof (induction p arbitrary: w)
  case (ViewRead k f)
  have "\<exists>x w1. view_read mv i k w = Inr (x, w1) \<and> can_wait mv (view_scheduler w1)
      \<and> num_active_tasks (view_scheduler w1) = num_active_tasks (view_scheduler w)"
  proof (cases "\<exists>dep. mv_read mv k i = Inl (Some dep)")
    case True
    with mv_read_estimate[OF ViewRead.prems] ViewRead.prems show ?thesis
      by (fastforce simp: view_read_def)
  next
    case False
    with ViewRead.prems show ?thesis by (auto simp: view_read_def split: sum.split option.split)
  qed
  with ViewRead.IH show ?case by fastforce
qed simp

section \<open>Executing and validating\<close>

lemma record_io_no_fault:
  "i < length (inputs io) \<Longrightarrow> i < length (outputs io) \<Longrightarrow> \<exists>io'. record_io i rs res io = Inr io'"
  by (simp add: record_io_def)

lemma execute_one_no_fault:
  assumes inv: "engine_inv vm block sh (add_mset (ExecutionTask (i, c)) T)"
    and vm: "distinct_writes vm (block ! i)"
  shows "\<exists>t sh'. execute_one vm block (i, c) sh = Inr (t, sh')"
proof -
  let ?s = "scheduler sh" and ?mv = "versioned_data sh" and ?io = "last_io sh"
  have sinv: "sched_inv (length block) ?s (add_mset (ExecutionTask (i, c)) T)" using inv by (simp add: engine_inv_def)
  note hand = sched_inv_in_hand[OF sinv]
  obtain H where H: "mem_inv vm block H (txn_status ?s) ?mv ?io" using inv by (auto simp: engine_inv_def data_inv_def)
  then have cells: "cells_from H ?mv" and len: "length (inputs ?io) = length block" "length (outputs ?io) = length block"
    by (auto simp: mem_inv_def inv_cells_def)
  note wait = engine_inv_can_wait[OF inv]
  have act: "num_active_tasks ?s > 0" using sched_inv_guards[OF sinv] by simp
  have nd: "\<not> done_marker ?s" using sched_inv_active_not_done[OF sinv] by simp
  have dropped: "\<exists>t s'. drop_task s = Inr (t, s')" if "num_active_tasks s = num_active_tasks ?s" for s
    using that act by (auto simp: drop_task_def guard_drop_def)
  let ?pre = "case inputs ?io ! i of None \<Rightarrow> Inr (False, ?s) | Some rs \<Rightarrow> precheck_reads ?mv i rs ?s"
  obtain b s0 where pre: "?pre = Inr (b, s0)" "can_wait ?mv s0" "num_active_tasks s0 = num_active_tasks ?s" "\<not> b \<longrightarrow> s0 = ?s"
  proof (cases "inputs ?io ! i")
    case None
    with wait show ?thesis by (intro that[of False ?s]) simp_all
  next
    case (Some rs)
    obtain b s0 where p: "precheck_reads ?mv i rs ?s = Inr (b, s0)" "can_wait ?mv s0"
      "num_active_tasks s0 = num_active_tasks ?s" using precheck_reads_no_fault[OF wait, of i rs] by blast
    have "\<not> b \<longrightarrow> s0 = ?s" using precheck_reads_cases[OF p(1)] by simp
    with p Some show ?thesis by (intro that) simp_all
  qed
  let ?view = "\<lparr>view_scheduler = s0, read_dependency = False, captured_reads = []\<rparr>"
  obtain res w where view: "run_view ?mv i (execute_transaction vm (block ! i)) ?view = Inr (res, w)"
    and wact: "num_active_tasks (view_scheduler w) = num_active_tasks s0"
    using run_view_no_fault[of ?mv ?view i "execute_transaction vm (block ! i)"] pre(2) by auto
  let ?ws = "status_writes (get_writes vm) res" and ?prev = "output_keys (get_writes vm) (outputs ?io ! i)"
  have dist: "distinct (map fst ?ws)" using vm all_results_run_view[OF _ view] by (auto simp: distinct_writes_def)
  have "cell_incarnation cl < c" if "mv_tree ?mv k i = Some cl" for k cl
    using mem_inv_cell(2)[OF H that] hand(2) by simp
  then obtain stale outside mv1 where app: "apply_writes (i, c) ?ws (?prev, False, ?mv) = Inr (stale, outside, mv1)"
    using apply_writes_no_fault[OF dist, of ?mv i c ?prev False] by (metis prod_cases3)
  note app' = apply_writes_Inr[OF app]
  have "\<exists>mv2. rfold (\<lambda>k m. mv_delete k i m) stale mv1 = Inr mv2"
  proof (rule rfold_mv_delete_no_fault)
    show "distinct stale" using app by (rule apply_writes_stale_distinct) simp
    fix k assume "k \<in> set stale"
    with app'(3) have "k \<in> set ?prev" "k \<notin> fst ` set ?ws" by auto
    with mem_inv_cell(1)[OF H, of k i] hand(1) app'(1)[of k i] show "mv_tree mv1 k i \<noteq> None" by simp
  qed
  then obtain mv2 where del: "rfold (\<lambda>k m. mv_delete k i m) stale mv1 = Inr mv2" by blast
  obtain io' where rec: "record_io i (captured_reads w) (wrap_result res) ?io = Inr io'"
    using record_io_no_fault[of i ?io] hand(1) len by metis
  have rest: "\<exists>t s'. finish_execution i c outside (stop_after i res (view_scheduler w)) = Inr (t, s')"
    if "\<not> b" "\<not> read_dependency w"
  proof -
    have "view_scheduler w = ?s" using run_view_cases[OF view _ cells] that pre(4) by auto
    moreover have "sched_inv (length block) (stop_after i res ?s) (add_mset (ExecutionTask (i, c)) T)"
      by (rule sched_inv_frame[OF sinv]) (use nd in auto)
    ultimately show ?thesis using finish_execution_no_fault by metis
  qed
  show ?thesis
  proof (cases "b \<or> read_dependency w")
    case True
    with dropped[of s0] dropped[of "view_scheduler w"] pre wact view hand(1) len show ?thesis
      by (auto simp: execute_one_def read_set_def Let_def)
  next
    case False
    with rest pre view app del rec hand(1) len show ?thesis
      by (auto simp: execute_one_def read_set_def write_set_def Let_def)
  qed
qed

lemma validate_one_no_fault:
  assumes inv: "engine_inv vm block sh (add_mset (ValidationTask (i, c)) T)"
  shows "\<exists>t sh'. validate_one vm (i, c) sh = Inr (t, sh')"
proof -
  let ?s = "scheduler sh" and ?mv = "versioned_data sh" and ?io = "last_io sh"
  have sinv: "sched_inv (length block) ?s (add_mset (ValidationTask (i, c)) T)" using inv by (simp add: engine_inv_def)
  have i: "i < length block" using sched_inv_val_task[OF sinv, of i c] by simp
  obtain H where H: "mem_inv vm block H (txn_status ?s) ?mv ?io" using inv by (auto simp: engine_inv_def data_inv_def)
  then have len: "length (inputs ?io) = length block" "length (outputs ?io) = length block" by (auto simp: mem_inv_def)
  obtain rs where rs: "inputs ?io ! i = Some rs" using inv by (auto simp: engine_inv_def data_inv_def)
  have "num_active_tasks ?s > 0" using sched_inv_guards[OF sinv] by simp
  then obtain s2 where dropped: "drop_task ?s = Inr (NoTask, s2)" by (auto simp: drop_task_def guard_drop_def)
  have "\<exists>mv'. rfold (\<lambda>k m. mv_mark_estimate k i m) (output_keys (get_writes vm) (outputs ?io ! i)) ?mv = Inr mv'"
    using mem_inv_cell(1)[OF H, of _ i] i by (intro rfold_mark_estimate_no_fault) simp
  then obtain mv1 where mark: "rfold (\<lambda>k m. mv_mark_estimate k i m) (output_keys (get_writes vm) (outputs ?io ! i)) ?mv = Inr mv1"
    by blast
  obtain t s3 where fin: "finish_abort i c (?s\<lparr>txn_status := (txn_status ?s)[i := Aborting c]\<rparr>) = Inr (t, s3)"
    using finish_abort_no_fault[OF sinv i] by blast
  show ?thesis using rs dropped mark fin i len sched_inv_lengths[OF sinv]
    by (auto simp: validate_one_def read_set_def write_set_def try_abort_def Let_def)
qed

lemma worker_round_no_fault:
  assumes inv: "engine_inv vm block sh (add_mset t T)"
    and vm: "\<And>x. x \<in> set block \<Longrightarrow> distinct_writes vm x"
  shows "\<exists>t' sh'. worker_round vm block t sh = Inr (t', sh')"
proof (cases t)
  case (ExecutionTask v)
  obtain i c where v: "v = (i, c)" by fastforce
  have "i < length block"
    using inv ExecutionTask v sched_inv_in_hand(1) by (fastforce simp: engine_inv_def)
  with execute_one_no_fault[of vm block sh i c T] inv ExecutionTask v vm show ?thesis by simp
next
  case (ValidationTask v)
  obtain i c where "v = (i, c)" by fastforce
  with validate_one_no_fault[of vm block sh i c T] inv ValidationTask show ?thesis by simp
next
  case NoTask
  with next_task_round_no_fault[of "scheduler sh"] show ?thesis by auto
qed simp

end
