(* ===== verification/EngineRuns.thy ===== *)
theory EngineRuns
  imports EngineNoFault
begin

text \<open>
  Whole runs of the engine: the number of transactions it will deliver when every transaction
  succeeds, and an executable scheduler of workers with which concrete runs are computed.
\<close>

section \<open>The stop index\<close>

lemma fetch_validation_stop: "fetch_validation s = Inr (r, s') \<Longrightarrow> stop_idx s' = stop_idx s"
  by (auto simp: fetch_validation_def fault_simps check_done_def Let_def elim!: try_validate_cases)

lemma fetch_execution_stop: "fetch_execution s = Inr (r, s') \<Longrightarrow> stop_idx s' = stop_idx s"
  by (auto simp: fetch_execution_def fault_simps check_done_def Let_def elim!: try_execute_cases)

lemma next_task_round_stop: "next_task_round s = Inr (r, s') \<Longrightarrow> stop_idx s' = stop_idx s"
  by (erule next_task_round_cases) (auto dest!: fetch_validation_stop fetch_execution_stop)

lemma drop_task_stop: "drop_task s = Inr (t, s') \<Longrightarrow> stop_idx s' = stop_idx s"
  by (auto simp: fault_simps)

lemma try_incarnate_stop: "try_incarnate i s = (r, s') \<Longrightarrow> stop_idx s' = stop_idx s"
  by (auto simp: try_incarnate_def split: if_splits TransactionStatus.splits)

lemma finish_abort_stop: "finish_abort i c s = Inr (t, s') \<Longrightarrow> stop_idx s' = stop_idx s"
  by (auto simp: finish_abort_def set_aborted_status_def decrease_validation_idx_def fault_simps Let_def
      split: if_splits prod.splits option.splits dest!: try_incarnate_stop)

lemma try_abort_stop: "try_abort i c s = Inr (b, s') \<Longrightarrow> stop_idx s' = stop_idx s"
  by (auto simp: try_abort_def fault_simps split: if_splits)

lemma validate_one_stop: "validate_one vm (i, c) sh = Inr (t, sh') \<Longrightarrow> stop_idx (scheduler sh') = stop_idx (scheduler sh)"
  by (auto simp: validate_one_def fault_simps Let_def split: option.splits if_splits
      dest!: finish_abort_stop try_abort_stop)

lemma execute_one_stop:
  assumes inv: "engine_inv vm block sh (add_mset (ExecutionTask (i, c)) T)"
    and vm: "always_success vm (block ! i)"
    and run: "execute_one vm block (i, c) sh = Inr (t, sh')"
  shows "stop_idx (scheduler sh') = stop_idx (scheduler sh)"
proof -
  let ?s = "scheduler sh"
  have sinv: "sched_inv (length block) ?s (add_mset (ExecutionTask (i, c)) T)" using inv by (simp add: engine_inv_def)
  obtain H where "mem_inv vm block H (txn_status ?s) (versioned_data sh) (last_io sh)"
    using inv by (auto simp: engine_inv_def data_inv_def)
  then have "cells_from H (versioned_data sh)" by (simp add: mem_inv_def inv_cells_def)
  with run show ?thesis
  proof (cases rule: execute_one_cases)
    case (suspended dep s1 s')
    then show ?thesis using try_add_dependency_cases(4)[OF suspended(2)] by (auto simp: fault_simps)
  next
    case (executed rs res stale outside mv1 mv2 io' s')
    have "\<exists>out. res = Success out" using vm executed(2)
      unfolding always_success_def by (rule all_results_replay)
    then have s: "stop_after i res ?s = ?s" by (auto simp: stop_after_def)
    obtain s3 where after: "after_execution i c ?s s3"
      and fin: "finish_execution i c outside ?s =
        (if validation_idx ?s > i
         then (if outside then drop_task (decrease_validation_idx i s3) else Inr (ValidationTask (i, c), s3))
         else drop_task s3)"
      by (rule finish_execution_state[OF sinv])
    have "(if validation_idx ?s > i
         then (if outside then drop_task (decrease_validation_idx i s3) else Inr (ValidationTask (i, c), s3))
         else drop_task s3) = Inr (t, s')" using executed(6) fin s by simp
    then have "stop_idx s' = stop_idx s3"
      by (auto simp: fault_simps decrease_validation_idx_def Let_def split: if_splits)
    with after executed(7) show ?thesis by (simp add: after_execution_def)
  qed
qed

lemma reachable_stop:
  assumes reach: "reachable_from vm block (initial_system (length block) cpus w bounds lookup) sys"
    and vm: "\<And>t. t \<in> set block \<Longrightarrow> always_success vm t"
  shows "stop_idx (scheduler (fst sys)) = length block"
  using reach
proof induction
  case start
  show ?case
    by (simp add: initial_system_def shared_new_def initial_scheduler_def with_backpressure_def with_domain_plan_def)
next
  case (step sys sys')
  have inv: "engine_inv vm block (fst sys) (mset (snd sys))" by (rule engine_inv_reachable[OF step.hyps(1)])
  from step.hyps(2) show ?case
  proof cases
    case (round i ts sh t' sh')
    have "mset ts = add_mset (ts ! i) (mset ts - {#ts ! i#})" using round(3) by simp
    with inv round(1) have inv': "engine_inv vm block sh (add_mset (ts ! i) (mset ts - {#ts ! i#}))" by simp
    have "stop_idx (scheduler sh') = stop_idx (scheduler sh)"
    proof (cases "ts ! i")
      case (ExecutionTask v)
      obtain j c where v: "v = (j, c)" by fastforce
      have "j < length block"
        using inv' ExecutionTask v sched_inv_in_hand(1) by (fastforce simp: engine_inv_def)
      with execute_one_stop[of vm block sh j c] inv' vm round(5) ExecutionTask v show ?thesis by simp
    next
      case (ValidationTask v)
      obtain j c where "v = (j, c)" by fastforce
      with validate_one_stop round(5) ValidationTask show ?thesis by simp
    next
      case NoTask
      with round(5) show ?thesis by (auto simp: fault_simps dest: next_task_round_stop)
    qed (use round(4) in simp)
    with step.IH round(1,2) show ?thesis by simp
  qed
qed

section \<open>Computing runs\<close>

text \<open>Give the workers their rounds in the order of a list of worker numbers.\<close>

fun run_schedule ::
  "('k, 'v, 't, 'o, 'e) vm \<Rightarrow> 't list \<Rightarrow> nat list \<Rightarrow> ('k, 'v, 'o, 'e) system \<Rightarrow> ('k, 'v, 'o, 'e) system rust" where
  "run_schedule vm block [] sys = Inr sys"
| "run_schedule vm block (w # ws) (sh, ts) =
     rbind (vget ts w) (\<lambda>t.
       if t = Done then run_schedule vm block ws (sh, ts)
       else rbind (worker_round vm block t sh) (\<lambda>(t', sh').
              run_schedule vm block ws (sh', ts[w := t'])))"

lemma run_schedule_reachable:
  assumes "run_schedule vm block ws sys = Inr sys'" and "reachable_from vm block init sys"
  shows "reachable_from vm block init sys'"
  using assms
proof (induction vm block ws sys rule: run_schedule.induct)
  case (2 vm block w ws sh ts)
  from 2(3) have w: "w < length ts" by (auto simp: fault_simps)
  show ?case
  proof (cases "ts ! w = Done")
    case True
    with 2 w show ?thesis by simp
  next
    case False
    with 2(3) w obtain t' sh' where r: "worker_round vm block (ts ! w) sh = Inr (t', sh')"
      and rest: "run_schedule vm block ws (sh', ts[w := t']) = Inr sys'" by (auto simp: fault_simps)
    have "worker_step vm block (sh, ts) (sh', ts[w := t'])" by (rule worker_step.round[OF w False r])
    with 2(4) have "reachable_from vm block init (sh', ts[w := t'])" by (rule reachable_from.step)
    with 2(2) w False r rest show ?thesis by simp
  qed
qed simp

text \<open>Once a worker has left the loop, the block is done.\<close>

lemma reachable_done:
  assumes "reachable_from vm block (initial_system (length block) cpus w bounds lookup) (sh, ts)"
    and "Done \<in> set ts"
  shows "engine_inv vm block sh (mset ts)" and "done_marker (scheduler sh)"
  using engine_inv_reachable[OF assms(1)] assms(2) by (auto simp: engine_inv_def data_inv_def)

lemma block_outcome_success:
  assumes "\<And>t. t \<in> set block \<Longrightarrow> always_success vm t"
  shows "block_outcome vm block (length block) =
    Inr (map (\<lambda>r. case r of Success out \<Rightarrow> out) (serial_run vm Map.empty block))"
proof -
  have "\<exists>out. r = Success out" if "r \<in> set (serial_run vm m block)" for r m
  proof -
    from that obtain i where i: "i < length block" "r = serial_run vm m block ! i"
      by (auto simp: in_set_conv_nth)
    then show ?thesis using assms[of "block ! i"] all_results_run_serial
      by (auto simp: always_success_def serial_run_nth)
  qed
  then have succ: "\<forall>r \<in> set (serial_run vm Map.empty block). \<exists>out. r = Success out" by blast
  then have "\<forall>x \<in> set (map (\<lambda>r. Some (wrap_result r)) (serial_run vm Map.empty block)). \<exists>out. x = Some (Success out)"
    by (auto simp: wrap_result_def split: ExecutionStatus.split)
  from collect_results_Success[OF this] succ show ?thesis
    by (auto simp: block_outcome_def wrap_result_def)
qed

end
