(* ===== verification/ParallelExecutor.thy ===== *)
theory ParallelExecutor
  imports Backpressure EngineRuns
begin

text \<open>
  The executor object around the engine (\<open>leap/src/executor.rs\<close>): its construction from a
  configuration, and executing one block with all workers joined. Which interleaving the
  threads take is not determined, so executing a block is a relation. \<open>cpus\<close> stands for
  \<open>num_cpus::get()\<close>.
\<close>

record ParallelTransactionExecutor =
  num_cpus :: usize
  bp_controller :: "BackpressureController option"
  exec_segment_bounds :: "(usize \<times> usize \<times> bool) list"
  exec_txn_to_segment :: "usize list"

definition executor_new :: "usize \<Rightarrow> ParallelTransactionExecutor" where
  "executor_new cpus =
     \<lparr>num_cpus = cpus, bp_controller = None, exec_segment_bounds = [], exec_txn_to_segment = []\<rparr>"

definition with_config :: "usize \<Rightarrow> LeapConfig \<Rightarrow> ParallelTransactionExecutor" where
  "with_config cpus config =
     (let workers = (if num_workers config > 0 then num_workers config else cpus);
          bp = (if enable_backpressure config
                then let w_init = max (w_initial config) (workers * 16);
                         hi = max (cfg_w_max config) (workers * 64)
                     in Some (controller_new w_init (cfg_w_min config) hi)
                else None)
      in \<lparr>num_cpus = workers, bp_controller = bp, exec_segment_bounds = [], exec_txn_to_segment = []\<rparr>)"

definition set_segment_bounds ::
  "(usize \<times> usize \<times> bool) list \<Rightarrow> usize list \<Rightarrow> ParallelTransactionExecutor \<Rightarrow> ParallelTransactionExecutor" where
  "set_segment_bounds bounds lookup ex =
     ex\<lparr>exec_segment_bounds := bounds, exec_txn_to_segment := lookup\<rparr>"

definition block_window :: "ParallelTransactionExecutor \<Rightarrow> usize" where
  "block_window ex = (case bp_controller ex of None \<Rightarrow> 0 | Some c \<Rightarrow> window c)"

definition block_start :: "ParallelTransactionExecutor \<Rightarrow> 't list \<Rightarrow> ('k, 'v, 'o, 'e) system" where
  "block_start ex block =
     initial_system (length block) (num_cpus ex) (block_window ex) (exec_segment_bounds ex) (exec_txn_to_segment ex)"

definition adjust_controller :: "Scheduler \<Rightarrow> ParallelTransactionExecutor \<Rightarrow> ParallelTransactionExecutor" where
  "adjust_controller s ex =
     (case bp_controller ex of
        None \<Rightarrow> ex
      | Some c \<Rightarrow>
          let (executions, aborts, waits) = exec_stats s;
              stats = \<lparr>total_executions = executions, total_aborts = aborts, total_waits = waits\<rparr>
          in ex\<lparr>bp_controller := Some (adjust stats c)\<rparr>)"

inductive execute_transactions_parallel ::
  "('k, 'v, 't, 'o, 'e) vm \<Rightarrow> 't list \<Rightarrow> ParallelTransactionExecutor
   \<Rightarrow> ('e Error + 'o list) rust \<Rightarrow> ParallelTransactionExecutor \<Rightarrow> bool"
  for vm block ex where
  empty_block: "block = [] \<Longrightarrow> execute_transactions_parallel vm block ex (Inr (Inr [])) ex"
| joined: "\<lbrakk>block \<noteq> []; reachable_from vm block (block_start ex block) (sh, ts);
     \<forall>t \<in> set ts. t = Done; ex' = adjust_controller (scheduler sh) ex\<rbrakk>
   \<Longrightarrow> execute_transactions_parallel vm block ex (execution_outcome vm (length block) sh) ex'"

section \<open>Laws\<close>

lemma reachable_workers: "reachable_from vm block init sys \<Longrightarrow> length (snd sys) = length (snd init)"
  by (induction rule: reachable_from.induct) (auto elim!: worker_step.cases)

lemma joined_done:
  assumes reach: "reachable_from vm block (block_start ex block) (sh, ts)" and d: "\<forall>t \<in> set ts. t = Done"
    and cpus: "0 < num_cpus ex"
  shows "Done \<in> set ts"
proof -
  have "length ts = num_cpus ex"
    using reachable_workers[OF reach] by (simp add: block_start_def initial_system_def)
  with cpus obtain t where "t \<in> set ts" by (cases ts) auto
  with d show ?thesis by auto
qed

lemma execute_parallel_outcome:
  assumes run: "execute_transactions_parallel vm block ex r ex'" and cpus: "0 < num_cpus ex"
  shows "\<exists>stop \<le> length block. r = Inr (block_outcome vm block stop)"
  using run
proof cases
  case empty_block
  then show ?thesis by (auto simp: block_outcome_def)
next
  case (joined sh ts)
  note reach = joined(3)[unfolded block_start_def]
  note d = reachable_done[OF reach joined_done[OF joined(3,4) cpus]]
  have "stop_idx (scheduler sh) \<le> length block"
    using d(1) sched_inv_lengths(3) by (auto simp: engine_inv_def)
  with engine_outcome[OF d] joined(1) show ?thesis by auto
qed

lemma execute_parallel_success:
  assumes run: "execute_transactions_parallel vm block ex r ex'" and cpus: "0 < num_cpus ex"
    and vm: "\<And>t. t \<in> set block \<Longrightarrow> always_success vm t"
  shows "r = Inr (Inr (map (\<lambda>r. case r of Success out \<Rightarrow> out) (serial_run vm Map.empty block)))"
  using run
proof cases
  case empty_block
  then show ?thesis by simp
next
  case (joined sh ts)
  note reach = joined(3)[unfolded block_start_def]
  note d = reachable_done[OF reach joined_done[OF joined(3,4) cpus]]
  have "stop_idx (scheduler sh) = length block" using reachable_stop[OF reach vm] by simp
  with engine_outcome[OF d] block_outcome_success[OF vm] joined(1) show ?thesis by simp
qed

end
