(* ===== verification/StablecoinTx.thy ===== *)
theory StablecoinTx
  imports Executor Bytes
begin

text \<open>
  Keys, values and transactions of the stablecoin state machine
  (\<open>leap/src/stablecoin.rs\<close>, first part).
\<close>

datatype StateKey =
    Balance u64
  | Nonce u64
  | TotalSupply
  | Frozen u64
  | Delta u64 u64

type_synonym StateValue = u64

datatype StablecoinTxType =
    Transfer (tx_from: u64) (tx_to: u64) (tx_amount: u64)
  | Mint u64 u64
  | Burn u64 u64
  | InitBalance u64 u64

record StablecoinTx =
  tx_type :: StablecoinTxType
  nonce :: u64
  tx_hash :: u64

definition conflict_domain :: "StablecoinTx \<Rightarrow> u64" where
  "conflict_domain tx =
     (case tx_type tx of
        Transfer _ receiver _ \<Rightarrow> receiver
      | Mint to _ \<Rightarrow> to
      | Burn from _ \<Rightarrow> from
      | InitBalance account _ \<Rightarrow> account)"

definition sender :: "StablecoinTx \<Rightarrow> u64" where
  "sender tx =
     (case tx_type tx of
        Transfer s _ _ \<Rightarrow> s
      | Mint _ _ \<Rightarrow> 0
      | Burn _ _ \<Rightarrow> 0
      | InitBalance account _ \<Rightarrow> account)"

text \<open>Transfers from an account to itself are the one kind the state machine mistreats.\<close>

definition no_self_transfer :: "StablecoinTx \<Rightarrow> bool" where
  "no_self_transfer tx = (case tx_type tx of Transfer s r _ \<Rightarrow> s \<noteq> r | _ \<Rightarrow> True)"

text \<open>
  The simulated signature and VM work. Its result is thrown away by its callers, so the
  executors below do not mention it. \<open>sha256\<close> is the digest function of the \<open>sha2\<close> crate.
\<close>

definition simulate_tx_crypto_work :: "(u8 list \<Rightarrow> u8 list) \<Rightarrow> u64 \<Rightarrow> u32 \<Rightarrow> u8 list" where
  "simulate_tx_crypto_work sha256 hash iters =
     (sha256 ^^ unat iters) (to_le_bytes hash @ replicate 24 0)"

end
