(* ===== verification/HotDelta.thy ===== *)
theory HotDelta
  imports StablecoinTx F64 "HOL-Library.AList"
begin

text \<open>
  Sharding of the balances of hot accounts (\<open>leap/src/hot_delta.rs\<close>). A \<open>HashMap\<close> is an
  association list with distinct keys; its order carries no meaning. \<open>hash64\<close> is the
  \<open>DefaultHasher\<close> of the standard library applied to one \<open>u64\<close>.
\<close>

record HotDeltaManager =
  shard_counts :: "(u64 \<times> usize) list"
  unique_receivers :: usize
  theta_1 :: usize
  theta_2 :: usize
  p_max :: usize

definition hot_delta_new :: "usize \<Rightarrow> usize \<Rightarrow> usize \<Rightarrow> HotDeltaManager" where
  "hot_delta_new t1 t2 p =
     \<lparr>shard_counts = [], unique_receivers = 0, theta_1 = t1, theta_2 = t2, p_max = p\<rparr>"

text \<open>The account whose frequency a transaction raises.\<close>

definition freq_account :: "StablecoinTx \<Rightarrow> u64 option" where
  "freq_account tx =
     (case tx_type tx of
        Transfer _ receiver _ \<Rightarrow> Some receiver
      | Mint to _ \<Rightarrow> Some to
      | Burn from _ \<Rightarrow> Some from
      | InitBalance _ _ \<Rightarrow> None)"

definition count_receiver :: "StablecoinTx \<Rightarrow> (u64 \<times> usize) list \<Rightarrow> (u64 \<times> usize) list" where
  "count_receiver tx freq =
     (case freq_account tx of
        None \<Rightarrow> freq
      | Some a \<Rightarrow> AList.update a ((case map_of freq a of None \<Rightarrow> 0 | Some n \<Rightarrow> n) + 1) freq)"

text \<open>The number of shards of an account that received \<open>received\<close> transactions.\<close>

definition shards_for :: "HotDeltaManager \<Rightarrow> usize \<Rightarrow> usize" where
  "shards_for mgr received =
     (let p = (if received \<ge> theta_2 mgr then p_max mgr
               else let ratio = f64_div (f64_of_usize (received - theta_1 mgr))
                                  (f64_of_usize (theta_2 mgr - theta_1 mgr))
                    in usize_add 2 (f64_to_usize (f64_mul (f64_of_usize (usize_sub (p_max mgr) 2)) ratio)))
      in max (min p (p_max mgr)) 2)"

definition detect_hotspots :: "StablecoinTx list \<Rightarrow> HotDeltaManager \<Rightarrow> HotDeltaManager" where
  "detect_hotspots txs mgr =
     (let freq = fold count_receiver txs []
      in mgr\<lparr>unique_receivers := length freq,
             shard_counts := map (\<lambda>(account, received). (account, shards_for mgr received))
                               (filter (\<lambda>(account, received). received \<ge> theta_1 mgr) freq)\<rparr>)"

definition is_skewed :: "HotDeltaManager \<Rightarrow> bool" where
  "is_skewed mgr =
     (if unique_receivers mgr = 0 \<or> shard_counts mgr = [] then False
      else f64_div (f64_of_usize (length (shard_counts mgr))) (f64_of_usize (unique_receivers mgr))
             < f64_round (20 / 100))"

definition shard_count :: "HotDeltaManager \<Rightarrow> u64 \<Rightarrow> usize" where
  "shard_count mgr account = (case map_of (shard_counts mgr) account of None \<Rightarrow> 1 | Some p \<Rightarrow> p)"

definition is_hot :: "HotDeltaManager \<Rightarrow> u64 \<Rightarrow> bool" where
  "is_hot mgr account = (map_of (shard_counts mgr) account \<noteq> None)"

definition delta_key :: "(u64 \<Rightarrow> u64) \<Rightarrow> u64 \<Rightarrow> u64 \<Rightarrow> usize \<Rightarrow> StateKey" where
  "delta_key hash64 account h shards = Delta account (of_nat (unat (hash64 h) mod shards))"

definition rewrite_writes ::
  "(u64 \<Rightarrow> u64) \<Rightarrow> HotDeltaManager \<Rightarrow> StablecoinTx \<Rightarrow> (StateKey \<times> StateValue) list \<Rightarrow> (StateKey \<times> StateValue) list" where
  "rewrite_writes hash64 mgr tx writes =
     (case (case tx_type tx of Transfer _ receiver _ \<Rightarrow> Some receiver | Mint to _ \<Rightarrow> Some to | _ \<Rightarrow> None) of
        None \<Rightarrow> writes
      | Some recv \<Rightarrow>
          (let p = shard_count mgr recv
           in if p \<le> 1 then writes
              else map (\<lambda>(k, v). if k = Balance recv then (delta_key hash64 recv (tx_hash tx) p, v) else (k, v)) writes))"

definition hot_accounts :: "HotDeltaManager \<Rightarrow> (u64 \<times> usize) list" where
  "hot_accounts mgr = shard_counts mgr"

section \<open>Frequencies and shard counts\<close>

definition times_received :: "u64 \<Rightarrow> StablecoinTx list \<Rightarrow> nat" where
  "times_received a txs = length (filter (\<lambda>tx. freq_account tx = Some a) txs)"

lemma times_received_simps [simp]:
  "times_received a [] = 0"
  "times_received a (tx # txs) = (if freq_account tx = Some a then 1 else 0) + times_received a txs"
  by (simp_all add: times_received_def)

lemma fold_count_receiver:
  "map_of (fold count_receiver txs freq) a =
     (if times_received a txs = 0 then map_of freq a
      else Some ((case map_of freq a of None \<Rightarrow> 0 | Some n \<Rightarrow> n) + times_received a txs))"
proof (induction txs arbitrary: freq a)
  case (Cons tx txs)
  show ?case
  proof (cases "freq_account tx")
    case None
    then have "count_receiver tx freq = freq" by (simp add: count_receiver_def)
    with None show ?thesis by (simp add: Cons.IH)
  next
    case (Some b)
    have upd: "map_of (count_receiver tx freq) c =
        (if c = b then Some ((case map_of freq b of None \<Rightarrow> 0 | Some n \<Rightarrow> n) + 1) else map_of freq c)" for c
      by (simp add: count_receiver_def Some update_conv)
    show ?thesis
      by (cases "a = b") (simp_all add: Cons.IH upd Some)
  qed
qed simp

lemma count_receiver_distinct:
  "distinct (map fst freq) \<Longrightarrow> distinct (map fst (fold count_receiver txs freq))"
proof (induction txs arbitrary: freq)
  case (Cons tx txs)
  have "distinct (map fst (count_receiver tx freq))"
    using Cons.prems by (simp add: count_receiver_def distinct_update split: option.split)
  with Cons.IH show ?case by simp
qed simp

lemma map_of_filter_map:
  assumes "distinct (map fst xs)"
  shows "map_of (map (\<lambda>(a, c). (a, f c)) (filter (\<lambda>(a, c). P c) xs)) a =
    (case map_of xs a of Some c \<Rightarrow> if P c then Some (f c) else None | None \<Rightarrow> None)"
  using assms
proof (induction xs)
  case (Cons x xs)
  obtain b c where x: "x = (b, c)" by fastforce
  have "map_of xs b = None" using Cons.prems x by (simp add: map_of_eq_None_iff)
  with Cons x show ?case by (auto split: option.split)
qed simp

lemma detect_hotspots_lookup:
  "map_of (shard_counts (detect_hotspots txs mgr)) a =
     (if times_received a txs > 0 \<and> times_received a txs \<ge> theta_1 mgr
      then Some (shards_for mgr (times_received a txs)) else None)"
proof -
  have "distinct (map fst (fold count_receiver txs []))" by (rule count_receiver_distinct) simp
  from map_of_filter_map[OF this, of "shards_for mgr" "\<lambda>c. c \<ge> theta_1 mgr" a] show ?thesis
    by (simp add: detect_hotspots_def Let_def fold_count_receiver)
qed

lemma shards_for_bounds: "2 \<le> shards_for mgr c" "shards_for mgr c \<le> max 2 (p_max mgr)"
  by (auto simp: shards_for_def Let_def)

text \<open>What the executor relies on: a hot account has between two and \<open>2^64\<close> shards.\<close>

definition mgr_ok :: "HotDeltaManager \<Rightarrow> bool" where
  "mgr_ok mgr \<longleftrightarrow> (\<forall>a p. map_of (shard_counts mgr) a = Some p \<longrightarrow> 2 \<le> p \<and> p < 2 ^ 64)"

lemma mgr_ok_detect:
  assumes "p_max mgr < 2 ^ 64"
  shows "mgr_ok (detect_hotspots txs mgr)"
proof -
  have "shards_for mgr c < 2 ^ 64" for c
    by (rule le_less_trans[OF shards_for_bounds(2)]) (use assms in simp)
  then show ?thesis by (simp add: mgr_ok_def detect_hotspots_lookup shards_for_bounds)
qed

lemma mgr_ok_shards:
  assumes "mgr_ok mgr"
  shows "is_hot mgr a \<Longrightarrow> 0 < shard_count mgr a" and "shard_count mgr a < 2 ^ 64"
  using assms by (auto simp: mgr_ok_def is_hot_def shard_count_def split: option.splits) (metis less_le_trans pos2)

end
