(* ===== verification/Stablecoin.thy ===== *)
theory Stablecoin
  imports HotDelta
begin

text \<open>
  The stablecoin virtual machine and the serial reference executor
  (\<open>leap/src/stablecoin.rs\<close>). \<open>hash64\<close> is the hasher behind \<open>delta_key\<close>.
\<close>

section \<open>Reading helpers\<close>

definition read_u64 :: "StateKey \<Rightarrow> (StateKey, StateValue, u64) view_prog" where
  "read_u64 key =
     ViewRead key (\<lambda>r. Return (case r of
        ReadVal (Some v) \<Rightarrow> v
      | ReadVal None \<Rightarrow> 0
      | ReadErr \<Rightarrow> 0))"

definition read_balance :: "u64 \<Rightarrow> u64 \<Rightarrow> (StateKey, StateValue, u64) view_prog" where
  "read_balance account funded =
     ViewRead (Balance account) (\<lambda>r. Return (case r of
        ReadVal (Some v) \<Rightarrow> v
      | ReadVal None \<Rightarrow> funded
      | ReadErr \<Rightarrow> funded))"

text \<open>The loop over the shards, from the running total on.\<close>

fun sum_shards :: "u64 \<Rightarrow> nat list \<Rightarrow> u64 \<Rightarrow> (StateKey, StateValue, u64) view_prog" where
  "sum_shards account [] acc = Return acc"
| "sum_shards account (s # ss) acc =
     prog_bind (read_u64 (Delta account (of_nat s))) (\<lambda>d. sum_shards account ss (acc + d))"

definition read_balance_with_deltas ::
  "u64 \<Rightarrow> HotDeltaManager \<Rightarrow> u64 \<Rightarrow> (StateKey, StateValue, u64) view_prog" where
  "read_balance_with_deltas account mgr funded =
     prog_bind (read_balance account funded) (\<lambda>base.
       if \<not> is_hot mgr account then Return base
       else sum_shards account [0..<shard_count mgr account] base)"

section \<open>The virtual machine\<close>

record StablecoinExecutor =
  hot_delta :: "HotDeltaManager option"
  funded_balance :: u64

record StablecoinOutput =
  writes :: "(StateKey \<times> StateValue) list"

text \<open>\<open>is_hot\<close> under \<open>if let Some(ref mgr) = self.hot_delta\<close>.\<close>

definition hot_mgr :: "StablecoinExecutor \<Rightarrow> u64 \<Rightarrow> HotDeltaManager option" where
  "hot_mgr ex account =
     (case hot_delta ex of
        Some mgr \<Rightarrow> if is_hot mgr account then Some mgr else None
      | None \<Rightarrow> None)"

definition delta_resets :: "HotDeltaManager \<Rightarrow> u64 \<Rightarrow> (StateKey \<times> StateValue) list" where
  "delta_resets mgr account = map (\<lambda>s. (Delta account (of_nat s), 0)) [0..<shard_count mgr account]"

definition success :: "(StateKey \<times> StateValue) list \<Rightarrow> (StateKey, StateValue, (StablecoinOutput, string) ExecutionStatus) view_prog" where
  "success ws = Return (Success \<lparr>writes = ws\<rparr>)"

definition exec_transfer ::
  "(u64 \<Rightarrow> u64) \<Rightarrow> StablecoinExecutor \<Rightarrow> u64 \<Rightarrow> u64 \<Rightarrow> u64 \<Rightarrow> u64
   \<Rightarrow> (StateKey, StateValue, (StablecoinOutput, string) ExecutionStatus) view_prog" where
  "exec_transfer hash64 ex txhash s r amount =
     (let fb = funded_balance ex
      in prog_bind (case hot_mgr ex s of
             Some mgr \<Rightarrow> prog_bind (read_balance_with_deltas s mgr fb) (\<lambda>b. Return (b, delta_resets mgr s))
           | None \<Rightarrow> prog_bind (read_balance s fb) (\<lambda>b. Return (b, [])))
         (\<lambda>(sender_bal, sender_delta_resets).
           if sender_bal < amount then success []
           else
             prog_bind (read_u64 (Nonce s)) (\<lambda>sender_nonce.
             prog_bind (case hot_mgr ex r of
                 Some mgr \<Rightarrow>
                   let key = delta_key hash64 r txhash (shard_count mgr r)
                   in prog_bind (read_u64 key) (\<lambda>old_delta.
                        Return [(Balance s, sender_bal - amount), (key, old_delta + amount),
                                (Nonce s, sender_nonce + 1)])
               | None \<Rightarrow>
                   prog_bind (read_balance r fb) (\<lambda>receiver_bal.
                     Return [(Balance s, sender_bal - amount), (Balance r, receiver_bal + amount),
                             (Nonce s, sender_nonce + 1)]))
               (\<lambda>ws. success (ws @ sender_delta_resets)))))"

definition exec_mint ::
  "(u64 \<Rightarrow> u64) \<Rightarrow> StablecoinExecutor \<Rightarrow> u64 \<Rightarrow> u64 \<Rightarrow> u64
   \<Rightarrow> (StateKey, StateValue, (StablecoinOutput, string) ExecutionStatus) view_prog" where
  "exec_mint hash64 ex txhash to amount =
     prog_bind (read_u64 TotalSupply) (\<lambda>supply.
     prog_bind (read_u64 (Nonce 0)) (\<lambda>minter_nonce.
       (case hot_mgr ex to of
          Some mgr \<Rightarrow>
            let key = delta_key hash64 to txhash (shard_count mgr to)
            in prog_bind (read_u64 key) (\<lambda>old_delta.
                 success [(key, old_delta + amount), (TotalSupply, supply + amount),
                          (Nonce 0, minter_nonce + 1)])
        | None \<Rightarrow>
            prog_bind (read_balance to (funded_balance ex)) (\<lambda>bal.
              success [(Balance to, bal + amount), (TotalSupply, supply + amount),
                       (Nonce 0, minter_nonce + 1)]))))"

definition exec_burn ::
  "StablecoinExecutor \<Rightarrow> u64 \<Rightarrow> u64
   \<Rightarrow> (StateKey, StateValue, (StablecoinOutput, string) ExecutionStatus) view_prog" where
  "exec_burn ex from amount =
     prog_bind (case hot_delta ex of
         Some mgr \<Rightarrow> read_balance_with_deltas from mgr (funded_balance ex)
       | None \<Rightarrow> read_balance from (funded_balance ex))
     (\<lambda>bal.
       if bal < amount then success []
       else
         prog_bind (read_u64 TotalSupply) (\<lambda>supply.
         prog_bind (read_u64 (Nonce 0)) (\<lambda>burner_nonce.
           success ([(Balance from, bal - amount), (TotalSupply, supply - amount),
                     (Nonce 0, burner_nonce + 1)]
                    @ (case hot_mgr ex from of Some mgr \<Rightarrow> delta_resets mgr from | None \<Rightarrow> [])))))"

definition exec_init_balance ::
  "StablecoinExecutor \<Rightarrow> u64 \<Rightarrow> u64
   \<Rightarrow> (StateKey, StateValue, (StablecoinOutput, string) ExecutionStatus) view_prog" where
  "exec_init_balance ex account amount =
     success ((Balance account, amount) #
              (case hot_mgr ex account of Some mgr \<Rightarrow> delta_resets mgr account | None \<Rightarrow> []))"

definition execute_stablecoin ::
  "(u64 \<Rightarrow> u64) \<Rightarrow> StablecoinExecutor \<Rightarrow> StablecoinTx
   \<Rightarrow> (StateKey, StateValue, (StablecoinOutput, string) ExecutionStatus) view_prog" where
  "execute_stablecoin hash64 ex tx =
     (case tx_type tx of
        Transfer s r amount \<Rightarrow> exec_transfer hash64 ex (tx_hash tx) s r amount
      | Mint to amount \<Rightarrow> exec_mint hash64 ex (tx_hash tx) to amount
      | Burn from amount \<Rightarrow> exec_burn ex from amount
      | InitBalance account amount \<Rightarrow> exec_init_balance ex account amount)"

definition stablecoin_vm ::
  "(u64 \<Rightarrow> u64) \<Rightarrow> StablecoinExecutor
   \<Rightarrow> (StateKey, StateValue, StablecoinTx, StablecoinOutput, string) vm" where
  "stablecoin_vm hash64 ex =
     \<lparr>execute_transaction = execute_stablecoin hash64 ex, get_writes = writes,
      skip_output = \<lparr>writes = []\<rparr>\<rparr>"

section \<open>The serial reference\<close>

type_synonym state = "StateKey \<rightharpoonup> StateValue"

definition get_or :: "u64 \<Rightarrow> StateKey \<Rightarrow> state \<Rightarrow> u64" where
  "get_or d k st = (case st k of Some v \<Rightarrow> v | None \<Rightarrow> d)"

text \<open>One iteration of the loop; the flag is the \<open>success\<close> of the counting variant.\<close>

definition serial_step :: "u64 \<Rightarrow> StablecoinTx \<Rightarrow> state \<Rightarrow> bool \<times> state" where
  "serial_step fb tx st =
     (case tx_type tx of
        Transfer s r amount \<Rightarrow>
          (let sender_bal = get_or fb (Balance s) st
           in if sender_bal \<ge> amount
              then (let receiver_bal = get_or fb (Balance r) st;
                        sender_nonce = get_or 0 (Nonce s) st
                    in (True, st(Balance s \<mapsto> sender_bal - amount, Balance r \<mapsto> receiver_bal + amount,
                                 Nonce s \<mapsto> sender_nonce + 1)))
              else (False, st))
      | Mint to amount \<Rightarrow>
          (let bal = get_or fb (Balance to) st;
               supply = get_or 0 TotalSupply st;
               n = get_or 0 (Nonce 0) st
           in (True, st(Balance to \<mapsto> bal + amount, TotalSupply \<mapsto> supply + amount, Nonce 0 \<mapsto> n + 1)))
      | Burn from amount \<Rightarrow>
          (let bal = get_or fb (Balance from) st
           in if bal \<ge> amount
              then (let supply = get_or 0 TotalSupply st;
                        n = get_or 0 (Nonce 0) st
                    in (True, st(Balance from \<mapsto> bal - amount, TotalSupply \<mapsto> supply - amount,
                                 Nonce 0 \<mapsto> n + 1)))
              else (False, st))
      | InitBalance account amount \<Rightarrow> (True, st(Balance account \<mapsto> amount)))"

definition serial_execute_with_balance :: "StablecoinTx list \<Rightarrow> u64 \<Rightarrow> state" where
  "serial_execute_with_balance txns fb = fold (\<lambda>tx st. snd (serial_step fb tx st)) txns Map.empty"

definition serial_execute :: "StablecoinTx list \<Rightarrow> state" where
  "serial_execute txns = serial_execute_with_balance txns 0"

record ExecCounts =
  total_txns :: usize
  successful :: usize

definition serial_execute_counted :: "StablecoinTx list \<Rightarrow> u64 \<Rightarrow> state \<times> ExecCounts" where
  "serial_execute_counted txns fb =
     fold (\<lambda>tx (st, counts).
             let (ok, st') = serial_step fb tx st
             in (st', if ok then counts\<lparr>successful := successful counts + 1\<rparr> else counts))
       txns (Map.empty, \<lparr>total_txns = length txns, successful = 0\<rparr>)"

definition count_parallel_outcomes :: "StablecoinOutput list \<Rightarrow> ExecCounts" where
  "count_parallel_outcomes outs =
     \<lparr>total_txns = length outs, successful = length (filter (\<lambda>out. writes out \<noteq> []) outs)\<rparr>"

section \<open>State from parallel outputs\<close>

text \<open>Applying the writes of the outputs in order (\<open>parallel_execute_to_state\<close>).\<close>

definition outputs_to_state :: "StablecoinOutput list \<Rightarrow> state" where
  "outputs_to_state outs = fold (\<lambda>out st. fold (\<lambda>(k, v) st. st(k \<mapsto> v)) (writes out) st) outs Map.empty"

text \<open>
  Folding the delta shards into the balances. \<open>delta_keys\<close> is the list of the delta entries
  of the state, in the order the hash map is iterated.
\<close>

definition aggregate_deltas :: "(StateKey \<times> u64) list \<Rightarrow> state \<Rightarrow> state" where
  "aggregate_deltas delta_keys st =
     (let st1 = fold (\<lambda>(k, d) st. case k of
                   Delta account _ \<Rightarrow> st(Balance account \<mapsto> get_or 0 (Balance account) st + d)
                 | _ \<Rightarrow> st) delta_keys st
      in fold (\<lambda>(k, _) st. st(k := None)) delta_keys st1)"

end
