(* ===== verification/StablecoinRefine.thy ===== *)
theory StablecoinRefine
  imports Stablecoin EngineRuns
begin

text \<open>
  The virtual machine refines the serial reference: what an account owns is its balance
  entry plus, for a hot account, the sum of its delta shards, and under this reading every
  transaction of the machine does what the reference does. Without sharding the two states
  are equal. All of it is exact on 64 bit words, wrap-around included.
\<close>

section \<open>What the engine needs of the machine\<close>

lemma all_results_trivial: "(\<And>a. P a) \<Longrightarrow> all_results P p"
  by (induction p) auto

lemma of_nat_inverse_shard: "i < 2 ^ 64 \<Longrightarrow> unat (of_nat i :: u64) = i"
  by (simp add: unat_of_nat take_bit_nat_eq_self)

lemma of_nat_shard_inj:
  "i < p \<Longrightarrow> j < p \<Longrightarrow> p < 2 ^ 64 \<Longrightarrow> (of_nat i :: u64) = of_nat j \<longleftrightarrow> i = j"
  by (metis of_nat_inverse_shard order.strict_trans)

lemma distinct_delta_resets:
  "shard_count mgr a < 2 ^ 64 \<Longrightarrow> distinct (map fst (delta_resets mgr a))"
  by (auto simp: delta_resets_def distinct_map inj_on_def of_nat_shard_inj)

lemma delta_resets_keys: "k \<in> fst ` set (delta_resets mgr a) \<Longrightarrow> \<exists>s. k = Delta a s"
  by (auto simp: delta_resets_def)

definition executor_ok :: "StablecoinExecutor \<Rightarrow> bool" where
  "executor_ok ex \<longleftrightarrow> (case hot_delta ex of None \<Rightarrow> True | Some mgr \<Rightarrow> mgr_ok mgr)"

lemma hot_mgr_cases:
  assumes "executor_ok ex" and "hot_mgr ex a = Some mgr"
  shows "is_hot mgr a" and "0 < shard_count mgr a" and "shard_count mgr a < 2 ^ 64" and "hot_delta ex = Some mgr"
  using assms mgr_ok_shards[of mgr a]
  by (auto simp: executor_ok_def hot_mgr_def split: option.splits if_splits)

lemmas machine_defs =
  execute_stablecoin_def exec_transfer_def exec_mint_def exec_burn_def exec_init_balance_def success_def

lemma stablecoin_always_success: "always_success (stablecoin_vm hash64 ex) tx"
proof -
  have "all_results (\<lambda>res. \<exists>out. res = Success out) (execute_stablecoin hash64 ex tx)"
    by (cases "tx_type tx")
      (auto simp: machine_defs Let_def all_results_bind intro!: all_results_trivial split: option.split)
  then show ?thesis by (simp add: always_success_def stablecoin_vm_def)
qed

lemma stablecoin_distinct_writes:
  assumes ok: "executor_ok ex" and tx: "no_self_transfer tx"
  shows "distinct_writes (stablecoin_vm hash64 ex) tx"
proof -
  let ?P = "\<lambda>res. distinct (map fst (status_writes writes res))"
  have resets: "distinct (map fst (delta_resets mgr a))" if "hot_mgr ex a = Some mgr" for mgr a
    using hot_mgr_cases(3)[OF ok that] by (rule distinct_delta_resets)
  have keys: "x \<notin> fst ` set (delta_resets mgr a)" if "\<And>s. x \<noteq> Delta a s" for x mgr a
    using delta_resets_keys that by blast
  have "all_results ?P (execute_stablecoin hash64 ex tx)"
  proof (cases "tx_type tx")
    case (Transfer s r amount)
    then have sr: "s \<noteq> r" using tx by (simp add: no_self_transfer_def)
    show ?thesis
      by (cases "hot_mgr ex s"; cases "hot_mgr ex r")
        (use sr resets keys in \<open>auto simp: machine_defs Transfer Let_def all_results_bind status_writes_def
          delta_key_def intro!: all_results_trivial\<close>)
  next
    case (Mint to amount)
    show ?thesis
      by (cases "hot_mgr ex to")
        (auto simp: machine_defs Mint Let_def all_results_bind status_writes_def delta_key_def
          intro!: all_results_trivial)
  next
    case (Burn acc amount)
    show ?thesis
      by (cases "hot_mgr ex acc")
        (use resets keys in \<open>auto simp: machine_defs Burn Let_def all_results_bind status_writes_def
          intro!: all_results_trivial\<close>)
  next
    case (InitBalance account amount)
    show ?thesis
      by (cases "hot_mgr ex account")
        (use resets keys in \<open>auto simp: machine_defs InitBalance status_writes_def\<close>)
  qed
  then show ?thesis by (simp add: distinct_writes_def stablecoin_vm_def)
qed

section \<open>What an account owns\<close>

definition account_balance :: "StablecoinExecutor \<Rightarrow> state \<Rightarrow> u64 \<Rightarrow> u64" where
  "account_balance ex st a =
     get_or (funded_balance ex) (Balance a) st +
     (case hot_mgr ex a of
        None \<Rightarrow> 0
      | Some mgr \<Rightarrow> (\<Sum>s < shard_count mgr a. get_or 0 (Delta a (of_nat s)) st))"

lemma get_or_upd [simp]: "get_or d k (st(k' \<mapsto> v)) = (if k = k' then v else get_or d k st)"
  by (simp add: get_or_def)

lemma run_read_u64 [simp]: "run_serial st (read_u64 k) = get_or 0 k st"
  by (simp add: read_u64_def get_or_def split: option.split)

lemma run_read_balance [simp]: "run_serial st (read_balance a fb) = get_or fb (Balance a) st"
  by (simp add: read_balance_def get_or_def split: option.split)

lemma run_sum_shards:
  "run_serial st (sum_shards a ss acc) = acc + (\<Sum>s \<leftarrow> ss. get_or 0 (Delta a (of_nat s)) st)"
  by (induction ss arbitrary: acc) (simp_all add: add.assoc)

lemma run_read_with_deltas [simp]:
  "run_serial st (read_balance_with_deltas a mgr fb) =
     get_or fb (Balance a) st +
     (if is_hot mgr a then \<Sum>s < shard_count mgr a. get_or 0 (Delta a (of_nat s)) st else 0)"
proof -
  have "(\<Sum>s \<leftarrow> [0..<n]. f s) = (\<Sum>s < n. f s)" for n and f :: "nat \<Rightarrow> u64"
    by (simp add: sum_list_distinct_conv_sum_set atLeast0LessThan)
  then show ?thesis by (simp add: read_balance_with_deltas_def run_sum_shards)
qed

lemma apply_updates_Cons [simp]:
  "apply_updates [] st = st" "apply_updates ((k, v) # ws) st = apply_updates ws (st(k \<mapsto> v))"
  "apply_updates (ws @ ws') st = apply_updates ws' (apply_updates ws st)"
  by (simp_all add: apply_updates_def)

lemma apply_updates_other: "k \<notin> fst ` set ws \<Longrightarrow> apply_updates ws st k = st k"
  by (induction ws arbitrary: st) auto

lemma get_or_resets [simp]:
  "(\<And>s. k \<noteq> Delta a s) \<Longrightarrow> get_or d k (apply_updates (delta_resets mgr a) st) = get_or d k st"
  unfolding get_or_def using apply_updates_other[of k "delta_resets mgr a" st] delta_resets_keys[of k mgr a] by fastforce

lemma apply_zeros:
  "k \<in> set ks \<Longrightarrow> apply_updates (map (\<lambda>s. (s, 0)) ks) st k = Some (0 :: u64)"
proof (induction ks arbitrary: st)
  case (Cons k' ks)
  then show ?case
    by (cases "k \<in> set ks") (auto simp: apply_updates_other image_iff)
qed simp

lemma get_or_reset_shard:
  assumes "s < shard_count mgr a"
  shows "get_or d (Delta a (of_nat s)) (apply_updates (delta_resets mgr a) st) = 0"
proof -
  let ?ks = "map (\<lambda>s. Delta a (of_nat s)) [0..<shard_count mgr a]"
  have "delta_resets mgr a = map (\<lambda>k. (k, 0)) ?ks" by (simp add: delta_resets_def)
  moreover have "Delta a (of_nat s) \<in> set ?ks" using assms by simp
  ultimately have "apply_updates (delta_resets mgr a) st (Delta a (of_nat s)) = Some 0"
    using apply_zeros by metis
  then show ?thesis by (simp add: get_or_def)
qed

lemma account_balance_resets_same:
  assumes "hot_mgr ex a = Some mgr"
  shows "account_balance ex (apply_updates (delta_resets mgr a) st) a = get_or (funded_balance ex) (Balance a) st"
  using assms by (simp add: account_balance_def get_or_reset_shard)

lemma account_balance_resets_other:
  assumes "a \<noteq> b"
  shows "account_balance ex (apply_updates (delta_resets mgr a) st) b = account_balance ex st b"
  using assms by (simp add: account_balance_def split: option.split)

lemma account_balance_upd_Balance:
  "account_balance ex (st(Balance b \<mapsto> v)) a =
     (if a = b then v + (account_balance ex st a - get_or (funded_balance ex) (Balance a) st)
      else account_balance ex st a)"
  by (simp add: account_balance_def split: option.split)

lemma account_balance_upd_other [simp]:
  "account_balance ex (st(Nonce b \<mapsto> v)) a = account_balance ex st a"
  "account_balance ex (st(TotalSupply \<mapsto> v)) a = account_balance ex st a"
  by (simp_all add: account_balance_def split: option.split)

lemma account_balance_upd_Delta_other:
  "a \<noteq> b \<Longrightarrow> account_balance ex (st(Delta b x \<mapsto> v)) a = account_balance ex st a"
  by (simp add: account_balance_def split: option.split)

text \<open>Adding to one shard adds to the account.\<close>

lemma account_balance_add_delta:
  assumes ok: "executor_ok ex" and hot: "hot_mgr ex a = Some mgr" and k: "k = delta_key hash64 a h (shard_count mgr a)"
  shows "account_balance ex (st(k \<mapsto> get_or 0 k st + v)) a = account_balance ex st a + v"
proof -
  note b = hot_mgr_cases[OF ok hot]
  let ?p = "shard_count mgr a"
  define j where "j = unat (hash64 h) mod ?p"
  have j: "j < ?p" "k = Delta a (of_nat j)" using b(2) k by (simp_all add: delta_key_def j_def)
  let ?g = "\<lambda>s. get_or 0 (Delta a (of_nat s)) st"
  have "(\<Sum>s < ?p. get_or 0 (Delta a (of_nat s)) (st(k \<mapsto> get_or 0 k st + v)))
      = (\<Sum>s < ?p. if s = j then ?g s + v else ?g s)"
    using j b(3) by (intro sum.cong) (auto simp: of_nat_shard_inj)
  also have "\<dots> = (\<Sum>s < ?p. ?g s + (if s = j then v else 0))" by (intro sum.cong) auto
  also have "\<dots> = (\<Sum>s < ?p. ?g s) + v" using j(1) by (simp add: sum.distrib)
  finally show ?thesis using j(2) by (simp add: account_balance_def hot add.assoc)
qed

section \<open>The refinement\<close>

definition refines :: "StablecoinExecutor \<Rightarrow> state \<Rightarrow> state \<Rightarrow> bool" where
  "refines ex st sst \<longleftrightarrow>
     (\<forall>a. account_balance ex st a = get_or (funded_balance ex) (Balance a) sst) \<and>
     (\<forall>a. get_or 0 (Nonce a) st = get_or 0 (Nonce a) sst) \<and>
     get_or 0 TotalSupply st = get_or 0 TotalSupply sst"

lemma refines_empty: "refines ex Map.empty Map.empty"
  by (simp add: refines_def account_balance_def get_or_def split: option.split)

lemma refinesI:
  assumes "\<And>a. account_balance ex st a = get_or (funded_balance ex) (Balance a) sst"
    and "\<And>a. get_or 0 (Nonce a) st = get_or 0 (Nonce a) sst"
    and "get_or 0 TotalSupply st = get_or 0 TotalSupply sst"
  shows "refines ex st sst"
  using assms by (simp add: refines_def)

lemma refinesD:
  assumes "refines ex st sst"
  shows "account_balance ex st a = get_or (funded_balance ex) (Balance a) sst"
    and "get_or 0 (Nonce a) st = get_or 0 (Nonce a) sst"
    and "get_or 0 TotalSupply st = get_or 0 TotalSupply sst"
  using assms by (simp_all add: refines_def)

text \<open>The two ways the machine reads what an account owns.\<close>

lemma run_read_account:
  assumes "executor_ok ex" and "hot_mgr ex a = Some mgr"
  shows "run_serial st (read_balance_with_deltas a mgr (funded_balance ex)) = account_balance ex st a"
  using hot_mgr_cases(1)[OF assms] assms(2) by (simp add: account_balance_def)

lemma get_or_cold: "hot_mgr ex a = None \<Longrightarrow> get_or (funded_balance ex) (Balance a) st = account_balance ex st a"
  by (simp add: account_balance_def)

text \<open>The writes that move value: setting an account to a value, and adding to one.\<close>

definition resets_of :: "StablecoinExecutor \<Rightarrow> u64 \<Rightarrow> (StateKey \<times> StateValue) list" where
  "resets_of ex a = (case hot_mgr ex a of None \<Rightarrow> [] | Some mgr \<Rightarrow> delta_resets mgr a)"

definition credit_write ::
  "StablecoinExecutor \<Rightarrow> (u64 \<Rightarrow> u64) \<Rightarrow> u64 \<Rightarrow> state \<Rightarrow> u64 \<Rightarrow> u64 \<Rightarrow> StateKey \<times> StateValue" where
  "credit_write ex hash64 h st a v =
     (case hot_mgr ex a of
        None \<Rightarrow> (Balance a, get_or (funded_balance ex) (Balance a) st + v)
      | Some mgr \<Rightarrow> let k = delta_key hash64 a h (shard_count mgr a) in (k, get_or 0 k st + v))"

lemma account_balance_resets:
  "account_balance ex (apply_updates (resets_of ex a) st) b =
     (if b = a then get_or (funded_balance ex) (Balance a) st else account_balance ex st b)"
proof (cases "hot_mgr ex a")
  case None
  then show ?thesis by (simp add: resets_of_def get_or_cold)
next
  case (Some mgr)
  then show ?thesis
    using account_balance_resets_same[OF Some] account_balance_resets_other[of a b]
    by (simp add: resets_of_def)
qed

lemma get_or_resets_of [simp]:
  "(\<And>s. k \<noteq> Delta a s) \<Longrightarrow> get_or d k (apply_updates (resets_of ex a) st) = get_or d k st"
  by (simp add: resets_of_def split: option.split)

lemma account_balance_credit:
  assumes ok: "executor_ok ex" and c: "credit_write ex hash64 h st a v = (k, x)"
    and st': "account_balance ex st' = account_balance ex st" "get_or 0 k st' = get_or 0 k st"
      "get_or (funded_balance ex) (Balance a) st' = get_or (funded_balance ex) (Balance a) st"
  shows "account_balance ex (st'(k \<mapsto> x)) b =
    (if b = a then account_balance ex st a + v else account_balance ex st b)"
proof (cases "hot_mgr ex a")
  case None
  with c have kx: "k = Balance a" "x = get_or (funded_balance ex) (Balance a) st + v"
    by (auto simp: credit_write_def)
  with st' None show ?thesis by (simp add: account_balance_upd_Balance get_or_cold)
next
  case (Some mgr)
  with c have k: "k = delta_key hash64 a h (shard_count mgr a)" and x: "x = get_or 0 k st + v"
    by (auto simp: credit_write_def Let_def)
  have x': "x = get_or 0 k st' + v" using x st'(2) by simp
  obtain y where kd: "k = Delta a y" using k by (simp add: delta_key_def)
  show ?thesis
    using account_balance_add_delta[OF ok Some k, of st' v] account_balance_upd_Delta_other[of b a ex st' y] st'(1)
    unfolding x' kd by simp
qed

lemma credit_key:
  "credit_write ex hash64 h st a v = (k, x) \<Longrightarrow> k = Balance a \<and> hot_mgr ex a = None \<or> (\<exists>y. k = Delta a y)"
  by (auto simp: credit_write_def delta_key_def Let_def split: option.splits)

section \<open>The transactions\<close>

lemma run_transfer:
  assumes ok: "executor_ok ex" and c: "credit_write ex hash64 h st r amount = (k, x)"
  shows "run_serial st (exec_transfer hash64 ex h s r amount) =
     Success \<lparr>writes = if account_balance ex st s < amount then []
       else [(Balance s, account_balance ex st s - amount), (k, x), (Nonce s, get_or 0 (Nonce s) st + 1)] @ resets_of ex s\<rparr>"
proof -
  let ?first = "case hot_mgr ex s of
      Some mgr \<Rightarrow> prog_bind (read_balance_with_deltas s mgr (funded_balance ex)) (\<lambda>b. Return (b, delta_resets mgr s))
    | None \<Rightarrow> prog_bind (read_balance s (funded_balance ex)) (\<lambda>b. Return (b, []))"
  have first: "run_serial st ?first = (account_balance ex st s, resets_of ex s)"
    using run_read_account[OF ok] by (auto simp: resets_of_def get_or_cold split: option.split)
  show ?thesis using c
    by (cases "hot_mgr ex r") (auto simp: exec_transfer_def first success_def credit_write_def Let_def)
qed

lemma run_mint:
  assumes c: "credit_write ex hash64 h st a amount = (k, x)"
  shows "run_serial st (exec_mint hash64 ex h a amount) =
     Success \<lparr>writes = [(k, x), (TotalSupply, get_or 0 TotalSupply st + amount), (Nonce 0, get_or 0 (Nonce 0) st + 1)]\<rparr>"
  using c by (cases "hot_mgr ex a") (auto simp: exec_mint_def success_def credit_write_def Let_def)

lemma run_burn:
  assumes ok: "executor_ok ex"
  shows "run_serial st (exec_burn ex a amount) =
     Success \<lparr>writes = if account_balance ex st a < amount then []
       else [(Balance a, account_balance ex st a - amount), (TotalSupply, get_or 0 TotalSupply st - amount),
             (Nonce 0, get_or 0 (Nonce 0) st + 1)] @ resets_of ex a\<rparr>"
proof -
  have "run_serial st (case hot_delta ex of
      Some mgr \<Rightarrow> read_balance_with_deltas a mgr (funded_balance ex)
    | None \<Rightarrow> read_balance a (funded_balance ex)) = account_balance ex st a"
    by (auto simp: account_balance_def hot_mgr_def split: option.split)
  then show ?thesis by (auto simp: exec_burn_def success_def resets_of_def split: option.split)
qed

lemma run_init_balance:
  "run_serial st (exec_init_balance ex a amount) = Success \<lparr>writes = (Balance a, amount) # resets_of ex a\<rparr>"
  by (simp add: exec_init_balance_def success_def resets_of_def)

text \<open>One transaction of the machine against one iteration of the reference.\<close>

definition step_refines :: "(u64 \<Rightarrow> u64) \<Rightarrow> StablecoinExecutor \<Rightarrow> StablecoinTx \<Rightarrow> state \<Rightarrow> state \<Rightarrow> bool" where
  "step_refines hash64 ex tx st sst \<longleftrightarrow>
     (\<exists>ws. run_serial st (execute_stablecoin hash64 ex tx) = Success \<lparr>writes = ws\<rparr> \<and>
        refines ex (apply_updates ws st) (snd (serial_step (funded_balance ex) tx sst)) \<and>
        (ws \<noteq> [] \<longleftrightarrow> fst (serial_step (funded_balance ex) tx sst)))"

lemma transfer_refines:
  assumes ok: "executor_ok ex" and r: "refines ex st sst" and tx: "tx_type tx = Transfer s rcv amount" and ne: "s \<noteq> rcv"
  shows "step_refines hash64 ex tx st sst"
proof -
  obtain k x where c: "credit_write ex hash64 (tx_hash tx) st rcv amount = (k, x)" by fastforce
  note run = run_transfer[OF ok c, of s]
  note eqs = refinesD[OF r]
  show ?thesis
  proof (cases "account_balance ex st s < amount")
    case True
    with run r show ?thesis unfolding step_refines_def
      by (auto simp: execute_stablecoin_def tx serial_step_def Let_def eqs(1)[of s] not_le)
  next
    case False
    let ?fb = "funded_balance ex"
    let ?v = "account_balance ex st s - amount"
    let ?n = "get_or 0 (Nonce s) st + 1"
    let ?st1 = "st(Balance s \<mapsto> ?v, k \<mapsto> x)"
    let ?st' = "apply_updates (resets_of ex s) (?st1(Nonce s \<mapsto> ?n))"
    from credit_key[OF c] ne have k: "Balance s \<noteq> k" "k \<noteq> Balance s" "\<And>a. Nonce a \<noteq> k" "TotalSupply \<noteq> k" by auto
    have "account_balance ex ?st1 b = (if b = rcv then account_balance ex st rcv + amount else account_balance ex st b)"
      if b: "b \<noteq> s" for b
    proof -
      have "account_balance ex (st(k \<mapsto> x)) b =
          (if b = rcv then account_balance ex st rcv + amount else account_balance ex st b)"
        by (rule account_balance_credit[OF ok c]) simp_all
      moreover have "?st1 = st(k \<mapsto> x, Balance s \<mapsto> ?v)" using k(2) by (rule fun_upd_twist[symmetric])
      ultimately show ?thesis using b by (simp add: account_balance_upd_Balance)
    qed
    then have bal: "account_balance ex ?st' b = (if b = s then ?v
        else if b = rcv then account_balance ex st rcv + amount else account_balance ex st b)" for b
      using k by (simp add: account_balance_resets)
    have "refines ex ?st' (sst(Balance s \<mapsto> get_or ?fb (Balance s) sst - amount,
        Balance rcv \<mapsto> get_or ?fb (Balance rcv) sst + amount, Nonce s \<mapsto> get_or 0 (Nonce s) sst + 1))"
    proof (rule refinesI)
      show "account_balance ex ?st' a = get_or ?fb (Balance a) (sst(Balance s \<mapsto> get_or ?fb (Balance s) sst - amount,
        Balance rcv \<mapsto> get_or ?fb (Balance rcv) sst + amount, Nonce s \<mapsto> get_or 0 (Nonce s) sst + 1))" for a
        unfolding bal using ne by (simp add: eqs(1))
    qed (use k in \<open>simp_all add: eqs(2,3)\<close>)
    with False run show ?thesis unfolding step_refines_def
      by (simp add: execute_stablecoin_def tx serial_step_def Let_def eqs(1)[of s] not_less)
  qed
qed

lemma mint_refines:
  assumes ok: "executor_ok ex" and r: "refines ex st sst" and tx: "tx_type tx = Mint a amount"
  shows "step_refines hash64 ex tx st sst"
proof -
  obtain k x where c: "credit_write ex hash64 (tx_hash tx) st a amount = (k, x)" by fastforce
  note run = run_mint[OF c]
  note eqs = refinesD[OF r]
  from credit_key[OF c] have k: "\<And>a. Nonce a \<noteq> k" "TotalSupply \<noteq> k" by auto
  have "account_balance ex (st(k \<mapsto> x)) b = (if b = a then account_balance ex st a + amount else account_balance ex st b)" for b
    by (rule account_balance_credit[OF ok c]) simp_all
  with run k show ?thesis unfolding step_refines_def refines_def
    by (simp add: execute_stablecoin_def tx serial_step_def Let_def eqs)
qed

lemma burn_refines:
  assumes ok: "executor_ok ex" and r: "refines ex st sst" and tx: "tx_type tx = Burn a amount"
  shows "step_refines hash64 ex tx st sst"
proof -
  note run = run_burn[OF ok, of st a amount]
  note eqs = refinesD[OF r]
  show ?thesis
  proof (cases "account_balance ex st a < amount")
    case True
    with run r show ?thesis unfolding step_refines_def
      by (auto simp: execute_stablecoin_def tx serial_step_def Let_def eqs(1)[of a] not_le)
  next
    case False
    with run show ?thesis unfolding step_refines_def refines_def
      by (simp add: execute_stablecoin_def tx serial_step_def Let_def eqs not_less account_balance_resets
          account_balance_upd_Balance)
  qed
qed

lemma init_refines:
  assumes r: "refines ex st sst" and tx: "tx_type tx = InitBalance a amount"
  shows "step_refines hash64 ex tx st sst"
  using refinesD[OF r] unfolding step_refines_def refines_def
  by (simp add: execute_stablecoin_def tx serial_step_def run_init_balance account_balance_resets
      account_balance_upd_Balance)

lemma tx_refines:
  assumes "executor_ok ex" and "refines ex st sst" and "no_self_transfer tx"
  shows "step_refines hash64 ex tx st sst"
  using assms
  by (cases "tx_type tx") (auto simp: no_self_transfer_def intro: transfer_refines mint_refines burn_refines init_refines)

end
