(* ===== verification/StablecoinBlock.thy ===== *)
theory StablecoinBlock
  imports StablecoinRefine
begin

text \<open>
  Whole blocks of stablecoin transactions: the machine against the reference over a block, the
  state rebuilt from the outputs, folding the delta shards back into balances, and what
  the reference conserves.
\<close>

section \<open>Blocks\<close>

abbreviation machine_run ::
  "(u64 \<Rightarrow> u64) \<Rightarrow> StablecoinExecutor \<Rightarrow> StablecoinTx list \<Rightarrow> StablecoinOutput list" where
  "machine_run hash64 ex txs \<equiv>
     map (\<lambda>r. case r of Success out \<Rightarrow> out) (serial_run (stablecoin_vm hash64 ex) Map.empty txs)"

lemma vm_simps [simp]:
  "execute_transaction (stablecoin_vm hash64 ex) = execute_stablecoin hash64 ex"
  "get_writes (stablecoin_vm hash64 ex) = writes"
  "skip_output (stablecoin_vm hash64 ex) = \<lparr>writes = []\<rparr>"
  by (simp_all add: stablecoin_vm_def)

text \<open>From any pair of related states, with the outputs and the reference run in lockstep.\<close>

lemma block_refines:
  assumes ok: "executor_ok ex"
  shows "refines ex st sst \<Longrightarrow> list_all no_self_transfer txs \<Longrightarrow>
    refines ex (serial_state (stablecoin_vm hash64 ex) st txs)
      (fold (\<lambda>tx s. snd (serial_step (funded_balance ex) tx s)) txs sst) \<and>
    fold (\<lambda>out s. apply_updates (writes out) s)
      (map (\<lambda>r. case r of Success out \<Rightarrow> out) (serial_run (stablecoin_vm hash64 ex) st txs)) st
      = serial_state (stablecoin_vm hash64 ex) st txs"
proof (induction txs arbitrary: st sst)
  case (Cons tx txs)
  from tx_refines[OF ok Cons.prems(1)] Cons.prems(2) obtain ws where
    ws: "run_serial st (execute_stablecoin hash64 ex tx) = Success \<lparr>writes = ws\<rparr>"
      "refines ex (apply_updates ws st) (snd (serial_step (funded_balance ex) tx sst))"
    unfolding step_refines_def by fastforce
  from Cons.IH[OF ws(2)] Cons.prems(2) show ?case
    by (simp add: ws(1) Let_def status_writes_def)
qed simp

lemma outputs_to_state_apply:
  "outputs_to_state outs = fold (\<lambda>out s. apply_updates (writes out) s) outs Map.empty"
  by (simp add: outputs_to_state_def apply_updates_def)

lemma machine_run_refines:
  assumes "executor_ok ex" and "list_all no_self_transfer txs"
  shows "refines ex (outputs_to_state (machine_run hash64 ex txs))
    (serial_execute_with_balance txs (funded_balance ex))"
  using block_refines[OF assms(1) refines_empty assms(2), of hash64]
  by (simp add: outputs_to_state_apply serial_execute_with_balance_def)

text \<open>As many outputs with writes as transactions that succeed in the reference.\<close>

fun successes :: "u64 \<Rightarrow> StablecoinTx list \<Rightarrow> state \<Rightarrow> nat" where
  "successes fb [] st = 0"
| "successes fb (tx # txs) st =
     (if fst (serial_step fb tx st) then 1 else 0) + successes fb txs (snd (serial_step fb tx st))"

lemma serial_counted_fold:
  "fold (\<lambda>tx (st, counts).
        let (ok, st') = serial_step fb tx st
        in (st', if ok then counts\<lparr>successful := successful counts + 1\<rparr> else counts)) txns (st, c)
   = (fold (\<lambda>tx st. snd (serial_step fb tx st)) txns st, c\<lparr>successful := successful c + successes fb txns st\<rparr>)"
proof (induction txns arbitrary: st c)
  case (Cons tx txns)
  obtain ok st' where s: "serial_step fb tx st = (ok, st')" by fastforce
  show ?case using Cons.IH[of st'] by (simp add: s)
qed simp

lemma serial_counted:
  "serial_execute_counted txns fb =
     (serial_execute_with_balance txns fb, \<lparr>total_txns = length txns, successful = successes fb txns Map.empty\<rparr>)"
  unfolding serial_execute_counted_def serial_execute_with_balance_def serial_counted_fold by simp

lemma block_successes:
  assumes ok: "executor_ok ex"
  shows "refines ex st sst \<Longrightarrow> list_all no_self_transfer txs \<Longrightarrow>
    length (filter (\<lambda>out. writes out \<noteq> [])
      (map (\<lambda>r. case r of Success out \<Rightarrow> out) (serial_run (stablecoin_vm hash64 ex) st txs)))
    = successes (funded_balance ex) txs sst"
proof (induction txs arbitrary: st sst)
  case (Cons tx txs)
  from tx_refines[OF ok Cons.prems(1)] Cons.prems(2) obtain ws where
    ws: "run_serial st (execute_stablecoin hash64 ex tx) = Success \<lparr>writes = ws\<rparr>"
      "refines ex (apply_updates ws st) (snd (serial_step (funded_balance ex) tx sst))"
      "ws \<noteq> [] \<longleftrightarrow> fst (serial_step (funded_balance ex) tx sst)"
    unfolding step_refines_def by fastforce
  from Cons.IH[OF ws(2)] Cons.prems(2) ws(3) show ?case
    by (simp add: ws(1) Let_def status_writes_def)
qed simp

section \<open>Without sharding\<close>

lemma account_balance_plain:
  "hot_delta ex = None \<Longrightarrow> account_balance ex st a = get_or (funded_balance ex) (Balance a) st"
  by (simp add: account_balance_def hot_mgr_def)

lemma plain_step:
  assumes "hot_delta ex = None"
  shows "\<exists>ws. run_serial st (execute_stablecoin hash64 ex tx) = Success \<lparr>writes = ws\<rparr> \<and>
    apply_updates ws st = snd (serial_step (funded_balance ex) tx st) \<and>
    (ws \<noteq> [] \<longleftrightarrow> fst (serial_step (funded_balance ex) tx st))"
proof -
  have cold: "hot_mgr ex a = None" for a using assms by (simp add: hot_mgr_def)
  have ok: "executor_ok ex" using assms by (simp add: executor_ok_def)
  show ?thesis
  proof (cases "tx_type tx")
    case (Transfer s r amount)
    have "credit_write ex hash64 (tx_hash tx) st r amount =
        (Balance r, get_or (funded_balance ex) (Balance r) st + amount)" by (simp add: credit_write_def cold)
    from run_transfer[OF ok this, of s] Transfer show ?thesis
      by (auto simp: execute_stablecoin_def serial_step_def Let_def account_balance_plain[OF assms] resets_of_def
          cold not_less not_le)
  next
    case (Mint a amount)
    have "credit_write ex hash64 (tx_hash tx) st a amount =
        (Balance a, get_or (funded_balance ex) (Balance a) st + amount)" by (simp add: credit_write_def cold)
    from run_mint[OF this] Mint show ?thesis
      by (simp add: execute_stablecoin_def serial_step_def Let_def)
  next
    case (Burn a amount)
    from run_burn[OF ok, of st a amount] Burn show ?thesis
      by (auto simp: execute_stablecoin_def serial_step_def Let_def account_balance_plain[OF assms] resets_of_def
          cold not_less not_le)
  next
    case (InitBalance a amount)
    then show ?thesis
      by (simp add: execute_stablecoin_def serial_step_def run_init_balance resets_of_def cold)
  qed
qed

lemma plain_block:
  assumes "hot_delta ex = None"
  shows "fold (\<lambda>out s. apply_updates (writes out) s)
      (map (\<lambda>r. case r of Success out \<Rightarrow> out) (serial_run (stablecoin_vm hash64 ex) st txs)) st
    = fold (\<lambda>tx s. snd (serial_step (funded_balance ex) tx s)) txs st"
proof (induction txs arbitrary: st)
  case (Cons tx txs)
  from plain_step[OF assms] obtain ws where
    "run_serial st (execute_stablecoin hash64 ex tx) = Success \<lparr>writes = ws\<rparr>"
    "apply_updates ws st = snd (serial_step (funded_balance ex) tx st)" by blast
  with Cons.IH show ?case by (simp add: Let_def status_writes_def)
qed simp

lemma machine_run_plain:
  "hot_delta ex = None \<Longrightarrow>
   outputs_to_state (machine_run hash64 ex txs) = serial_execute_with_balance txs (funded_balance ex)"
  using plain_block by (simp add: outputs_to_state_apply serial_execute_with_balance_def)

section \<open>Conservation\<close>

text \<open>
  Over any finite set of accounts that contains the accounts a transaction touches, the sum
  of the balances moves exactly as the total supply does.
\<close>

definition touched :: "StablecoinTx \<Rightarrow> u64 set" where
  "touched tx =
     (case tx_type tx of
        Transfer s r _ \<Rightarrow> {s, r} | Mint a _ \<Rightarrow> {a} | Burn a _ \<Rightarrow> {a} | InitBalance a _ \<Rightarrow> {a})"

definition conserving :: "StablecoinTx \<Rightarrow> bool" where
  "conserving tx \<longleftrightarrow> no_self_transfer tx \<and> (\<forall>a v. tx_type tx \<noteq> InitBalance a v)"

definition balance_sum :: "u64 \<Rightarrow> u64 set \<Rightarrow> state \<Rightarrow> u64" where
  "balance_sum fb A st = (\<Sum>a \<in> A. get_or fb (Balance a) st)"

lemma balance_sum_upd:
  assumes "finite A" and "b \<in> A"
  shows "balance_sum fb A (st(Balance b \<mapsto> v)) = balance_sum fb A st - get_or fb (Balance b) st + v"
proof -
  have "(\<Sum>a \<in> A - {b}. get_or fb (Balance a) (st(Balance b \<mapsto> v))) = (\<Sum>a \<in> A - {b}. get_or fb (Balance a) st)"
    by (intro sum.cong) auto
  then show ?thesis using assms by (simp add: balance_sum_def sum.remove[of A b])
qed

lemma balance_sum_frame [simp]:
  "balance_sum fb A (st(Nonce b \<mapsto> v)) = balance_sum fb A st"
  "balance_sum fb A (st(TotalSupply \<mapsto> v)) = balance_sum fb A st"
  by (simp_all add: balance_sum_def)

lemma step_conserves:
  assumes A: "finite A" "touched tx \<subseteq> A" and tx: "conserving tx"
  shows "balance_sum fb A (snd (serial_step fb tx st)) - get_or 0 TotalSupply (snd (serial_step fb tx st))
    = balance_sum fb A st - get_or 0 TotalSupply st"
proof (cases "tx_type tx")
  case (Transfer s r amount)
  then have "s \<noteq> r" "s \<in> A" "r \<in> A" using tx A(2) by (auto simp: conserving_def no_self_transfer_def touched_def)
  with Transfer A(1) show ?thesis
    by (simp add: serial_step_def Let_def balance_sum_upd)
next
  case (Mint a amount)
  then have "a \<in> A" using A(2) by (simp add: touched_def)
  with Mint A(1) show ?thesis by (simp add: serial_step_def Let_def balance_sum_upd)
next
  case (Burn a amount)
  then have "a \<in> A" using A(2) by (simp add: touched_def)
  with Burn A(1) show ?thesis by (simp add: serial_step_def Let_def balance_sum_upd)
next
  case (InitBalance a amount)
  with tx show ?thesis by (simp add: conserving_def)
qed

lemma fold_conserves:
  assumes "finite A"
  shows "(\<forall>tx \<in> set txs. touched tx \<subseteq> A \<and> conserving tx) \<Longrightarrow>
    balance_sum fb A (fold (\<lambda>tx st. snd (serial_step fb tx st)) txs st)
      - get_or 0 TotalSupply (fold (\<lambda>tx st. snd (serial_step fb tx st)) txs st)
    = balance_sum fb A st - get_or 0 TotalSupply st"
  by (induction txs arbitrary: st) (simp_all add: step_conserves[OF assms])

end
