(* ===== verification/StablecoinAggregate.thy ===== *)
theory StablecoinAggregate
  imports StablecoinBlock
begin

text \<open>
  The last step of \<open>parallel_execute_to_state_with_hot_delta\<close>: folding the delta shards of the
  final state into the balances gives the balances of the serial reference.
\<close>

text \<open>Every delta entry of a state belongs to a shard of a hot account.\<close>

definition shard_key :: "StablecoinExecutor \<Rightarrow> StateKey \<Rightarrow> bool" where
  "shard_key ex k \<longleftrightarrow>
     (\<forall>a s. k = Delta a s \<longrightarrow>
        (\<exists>mgr i. hot_mgr ex a = Some mgr \<and> i < shard_count mgr a \<and> s = of_nat i))"

lemma shard_key_simps [simp]:
  "shard_key ex (Balance a)" "shard_key ex (Nonce a)" "shard_key ex TotalSupply"
  by (simp_all add: shard_key_def)

lemma shard_key_resets:
  "hot_mgr ex a = Some mgr \<Longrightarrow> k \<in> fst ` set (delta_resets mgr a) \<Longrightarrow> shard_key ex k"
  by (auto simp: shard_key_def delta_resets_def)

lemma shard_key_delta_key:
  assumes "executor_ok ex" and "hot_mgr ex a = Some mgr"
  shows "shard_key ex (delta_key hash64 a h (shard_count mgr a))"
proof -
  have "unat (hash64 h) mod shard_count mgr a < shard_count mgr a" using hot_mgr_cases(2)[OF assms] by simp
  with assms(2) show ?thesis by (auto simp: shard_key_def delta_key_def)
qed

lemma machine_shard_keys:
  assumes ok: "executor_ok ex"
  shows "all_results (\<lambda>res. \<forall>kv \<in> set (status_writes writes res). shard_key ex (fst kv)) (execute_stablecoin hash64 ex tx)"
proof -
  have resets: "shard_key ex (fst kv)" if "hot_mgr ex a = Some mgr" "kv \<in> set (delta_resets mgr a)" for a mgr kv
    using shard_key_resets[OF that(1)] that(2) by blast
  note key = shard_key_delta_key[OF ok]
  show ?thesis
  proof (cases "tx_type tx")
    case (Transfer s r amount)
    show ?thesis
      by (cases "hot_mgr ex s"; cases "hot_mgr ex r")
        (use resets key in \<open>auto simp: machine_defs Transfer Let_def all_results_bind status_writes_def
          intro!: all_results_trivial\<close>)
  next
    case (Mint a amount)
    show ?thesis
      by (cases "hot_mgr ex a")
        (use key in \<open>auto simp: machine_defs Mint Let_def all_results_bind status_writes_def intro!: all_results_trivial\<close>)
  next
    case (Burn a amount)
    show ?thesis
      by (cases "hot_mgr ex a")
        (use resets in \<open>auto simp: machine_defs Burn Let_def all_results_bind status_writes_def intro!: all_results_trivial\<close>)
  next
    case (InitBalance a amount)
    show ?thesis
      by (cases "hot_mgr ex a") (use resets in \<open>auto simp: machine_defs InitBalance status_writes_def\<close>)
  qed
qed

lemma apply_updates_dom:
  "apply_updates ws st k \<noteq> None \<Longrightarrow> st k \<noteq> None \<or> k \<in> fst ` set ws"
  using apply_updates_other by metis

lemma serial_state_shard_keys:
  assumes ok: "executor_ok ex"
  shows "(\<And>k. st k \<noteq> None \<Longrightarrow> shard_key ex k) \<Longrightarrow>
    serial_state (stablecoin_vm hash64 ex) st txs k \<noteq> None \<Longrightarrow> shard_key ex k"
proof (induction txs arbitrary: st)
  case (Cons tx txs)
  let ?ws = "status_writes writes (run_serial st (execute_stablecoin hash64 ex tx))"
  have "\<forall>kv \<in> set ?ws. shard_key ex (fst kv)"
    by (rule all_results_run_serial[OF machine_shard_keys[OF ok]])
  then have "shard_key ex k" if "apply_updates ?ws st k \<noteq> None" for k
    using apply_updates_dom[OF that] Cons.prems(1) by auto
  from Cons.IH[OF this] Cons.prems(2) show ?case by simp
qed simp

section \<open>Folding the shards\<close>

definition is_delta_of :: "u64 \<Rightarrow> StateKey \<Rightarrow> bool" where
  "is_delta_of a k = (case k of Delta b _ \<Rightarrow> b = a | _ \<Rightarrow> False)"

text \<open>\<open>ds\<close> lists the delta entries of the state, each once, in some order.\<close>

definition delta_entries :: "state \<Rightarrow> (StateKey \<times> u64) list \<Rightarrow> bool" where
  "delta_entries st ds \<longleftrightarrow>
     distinct (map fst ds) \<and> (\<forall>k v. (k, v) \<in> set ds \<longleftrightarrow> st k = Some v \<and> (\<exists>a s. k = Delta a s))"

abbreviation fold_balances :: "(StateKey \<times> u64) list \<Rightarrow> state \<Rightarrow> state" where
  "fold_balances ds st \<equiv> fold (\<lambda>(k, d) st. case k of
       Delta account _ \<Rightarrow> st(Balance account \<mapsto> get_or 0 (Balance account) st + d) | _ \<Rightarrow> st) ds st"

lemma fold_balances_balance:
  "get_or 0 (Balance a) (fold_balances ds st) =
     get_or 0 (Balance a) st + (\<Sum>(k, d) \<leftarrow> ds. if is_delta_of a k then d else 0)"
proof (induction ds arbitrary: st)
  case (Cons kd ds)
  obtain k d where kd: "kd = (k, d)" by fastforce
  show ?case
  proof (cases k)
    case (Delta b s)
    let ?st = "st(Balance b \<mapsto> get_or 0 (Balance b) st + d)"
    let ?sum = "\<lambda>ds. \<Sum>(k, d) \<leftarrow> ds. if is_delta_of a k then d else 0"
    have "fold_balances (kd # ds) st = fold_balances ds ?st" by (simp add: kd Delta)
    then have "get_or 0 (Balance a) (fold_balances (kd # ds) st) = get_or 0 (Balance a) ?st + ?sum ds"
      by (simp only: Cons.IH)
    also have "get_or 0 (Balance a) ?st = get_or 0 (Balance a) st + (if b = a then d else 0)"
      by (simp add: get_or_def)
    also have "\<dots> + ?sum ds = get_or 0 (Balance a) st + ?sum (kd # ds)"
      by (simp add: kd Delta is_delta_of_def)
    finally show ?thesis .
  qed (simp_all add: Cons.IH kd is_delta_of_def)
qed simp

lemma fold_balances_other: "(\<And>a. k \<noteq> Balance a) \<Longrightarrow> fold_balances ds st k = st k"
proof (induction ds arbitrary: st)
  case (Cons kd ds)
  obtain k' d where kd: "kd = (k', d)" by fastforce
  from Cons show ?case by (cases k') (simp_all add: kd)
qed simp

lemma fold_remove: "fold (\<lambda>(k, _) st. st(k := None)) ds st k = (if k \<in> fst ` set ds then None else st k)"
  by (induction ds arbitrary: st) auto

lemma aggregate_lookup:
  assumes "delta_entries st ds"
  shows "get_or 0 (Balance a) (aggregate_deltas ds st) =
      get_or 0 (Balance a) st + (\<Sum>(k, d) \<leftarrow> ds. if is_delta_of a k then d else 0)"
    and "get_or 0 (Nonce a) (aggregate_deltas ds st) = get_or 0 (Nonce a) st"
    and "get_or 0 TotalSupply (aggregate_deltas ds st) = get_or 0 TotalSupply st"
    and "aggregate_deltas ds st (Delta a s) = None"
proof -
  have ds: "k \<in> fst ` set ds \<longleftrightarrow> st k \<noteq> None \<and> (\<exists>a s. k = Delta a s)" for k
  proof -
    have "k \<in> fst ` set ds \<longleftrightarrow> (\<exists>v. (k, v) \<in> set ds)" by force
    also have "\<dots> \<longleftrightarrow> (\<exists>v. st k = Some v \<and> (\<exists>a s. k = Delta a s))"
      using assms unfolding delta_entries_def by blast
    finally show ?thesis by auto
  qed
  have look: "aggregate_deltas ds st k = (if st k \<noteq> None \<and> (\<exists>a s. k = Delta a s) then None else fold_balances ds st k)" for k
    by (simp add: aggregate_deltas_def Let_def fold_remove ds)
  show "get_or 0 (Balance a) (aggregate_deltas ds st) =
      get_or 0 (Balance a) st + (\<Sum>(k, d) \<leftarrow> ds. if is_delta_of a k then d else 0)"
    using fold_balances_balance[of a ds st] by (simp add: get_or_def look)
  show "get_or 0 (Nonce a) (aggregate_deltas ds st) = get_or 0 (Nonce a) st"
    "get_or 0 TotalSupply (aggregate_deltas ds st) = get_or 0 TotalSupply st"
    by (simp_all add: get_or_def look fold_balances_other)
  show "aggregate_deltas ds st (Delta a s) = None"
    by (simp add: look fold_balances_other)
qed

text \<open>The entries of a hot account add up to the sum over its shards; a cold one has none.\<close>

lemma delta_sum:
  assumes ok: "executor_ok ex" and ds: "delta_entries st ds" and keys: "\<And>k. st k \<noteq> None \<Longrightarrow> shard_key ex k"
  shows "(\<Sum>(k, d) \<leftarrow> ds. if is_delta_of a k then d else 0) =
    (case hot_mgr ex a of None \<Rightarrow> 0
     | Some mgr \<Rightarrow> \<Sum>s < shard_count mgr a. get_or 0 (Delta a (of_nat s)) st)"
proof -
  have mem: "(k, v) \<in> set ds \<longleftrightarrow> st k = Some v \<and> (\<exists>a s. k = Delta a s)" for k v
    using ds by (simp add: delta_entries_def)
  have dist: "distinct ds" using ds by (auto simp: delta_entries_def distinct_map)
  let ?f = "\<lambda>(k, d). if is_delta_of a k then d else 0 :: u64"
  have "(\<Sum>kd \<leftarrow> ds. ?f kd) = (\<Sum>kd \<in> set ds. ?f kd)" using dist by (simp add: sum_list_distinct_conv_sum_set)
  also have "\<dots> = (\<Sum>kd \<in> {kd \<in> set ds. is_delta_of a (fst kd)}. snd kd)"
    by (simp add: sum.inter_filter case_prod_beta)
  finally have sum: "(\<Sum>kd \<leftarrow> ds. ?f kd) = (\<Sum>kd \<in> {kd \<in> set ds. is_delta_of a (fst kd)}. snd kd)" .
  show ?thesis
  proof (cases "hot_mgr ex a")
    case None
    have "\<not> is_delta_of a (fst kd)" if kd: "kd \<in> set ds" for kd
    proof -
      obtain k v where kv: "kd = (k, v)" by fastforce
      with kd mem have "st k = Some v" by simp
      with keys[of k] None show ?thesis by (auto simp: shard_key_def is_delta_of_def kv split: StateKey.splits)
    qed
    then have "{kd \<in> set ds. is_delta_of a (fst kd)} = {}" by auto
    with sum None show ?thesis by simp
  next
    case (Some mgr)
    let ?p = "shard_count mgr a" and ?key = "\<lambda>i. Delta a (of_nat i)"
    let ?I = "{i. i < ?p \<and> st (?key i) \<noteq> None}"
    have inj: "inj_on (\<lambda>i. (?key i, the (st (?key i)))) ?I"
      using hot_mgr_cases(3)[OF ok Some] by (auto simp: inj_on_def of_nat_shard_inj)
    have "{kd \<in> set ds. is_delta_of a (fst kd)} = (\<lambda>i. (?key i, the (st (?key i)))) ` ?I"
    proof (intro equalityI subsetI)
      fix kd assume "kd \<in> {kd \<in> set ds. is_delta_of a (fst kd)}"
      then obtain s v where kd: "kd = (Delta a s, v)" "st (Delta a s) = Some v"
        using mem by (cases kd) (auto simp: is_delta_of_def split: StateKey.splits)
      with keys[of "Delta a s"] Some obtain i where "i < ?p" "s = of_nat i" by (auto simp: shard_key_def)
      with kd show "kd \<in> (\<lambda>i. (?key i, the (st (?key i)))) ` ?I" by (auto intro!: image_eqI[of _ _ i])
    qed (auto simp: mem is_delta_of_def)
    then have "(\<Sum>kd \<in> {kd \<in> set ds. is_delta_of a (fst kd)}. snd kd) = (\<Sum>i \<in> ?I. the (st (?key i)))"
      by (simp only: sum.reindex[OF inj] comp_def snd_conv)
    also have "\<dots> = (\<Sum>i \<in> ?I. get_or 0 (?key i) st)" by (rule sum.cong) (auto simp: get_or_def)
    also have "\<dots> = (\<Sum>i < ?p. get_or 0 (?key i) st)"
      by (rule sum.mono_neutral_left) (auto simp: get_or_def)
    finally show ?thesis using sum Some by simp
  qed
qed

lemma aggregate_refines:
  assumes ok: "executor_ok ex" and fb: "funded_balance ex = 0" and txs: "list_all no_self_transfer txs"
    and ds: "delta_entries (outputs_to_state (machine_run hash64 ex txs)) ds"
  defines "st \<equiv> aggregate_deltas ds (outputs_to_state (machine_run hash64 ex txs))"
  shows "get_or 0 (Balance a) st = get_or 0 (Balance a) (serial_execute txs)"
    and "get_or 0 (Nonce a) st = get_or 0 (Nonce a) (serial_execute txs)"
    and "get_or 0 TotalSupply st = get_or 0 TotalSupply (serial_execute txs)"
    and "st (Delta a s) = None"
proof -
  let ?st = "outputs_to_state (machine_run hash64 ex txs)"
  have r: "refines ex ?st (serial_execute txs)"
    using machine_run_refines[OF ok txs, of hash64] by (simp add: serial_execute_def fb)
  have "?st = serial_state (stablecoin_vm hash64 ex) Map.empty txs"
    using block_refines[OF ok refines_empty txs, of hash64] by (simp add: outputs_to_state_apply)
  then have keys: "shard_key ex k" if "?st k \<noteq> None" for k
    using serial_state_shard_keys[OF ok, of Map.empty hash64 txs k] that by simp
  note look = aggregate_lookup[OF ds, folded st_def]
  show "get_or 0 (Balance a) st = get_or 0 (Balance a) (serial_execute txs)"
    using refinesD(1)[OF r, of a] look(1)[of a] delta_sum[OF ok ds keys, of a]
    by (simp add: account_balance_def fb)
  show "get_or 0 (Nonce a) st = get_or 0 (Nonce a) (serial_execute txs)"
    "get_or 0 TotalSupply st = get_or 0 TotalSupply (serial_execute txs)" "st (Delta a s) = None"
    using refinesD(2,3)[OF r] look(2-4) by simp_all
qed

end
