(* ===== verification/Cado.thy ===== *)
theory Cado
  imports StablecoinTx LeapConfig "HOL-Library.Product_Lexorder"
begin

text \<open>
  Conflict-aware deterministic ordering of a block (\<open>leap/src/cado.rs\<close>). \<open>hash64\<close> is the
  hasher behind \<open>domain_hash\<close>. The \<open>BTreeMap\<close> of the groups is a list of entries in ascending
  order of keys.
\<close>

definition domain_hash :: "(u64 \<Rightarrow> u64) \<Rightarrow> u64 \<Rightarrow> u64" where
  "domain_hash hash64 domain = hash64 domain"

text \<open>\<open>retain\<close> with the set of the keys seen so far.\<close>

fun retain_unseen :: "(u64 \<times> u64) set \<Rightarrow> StablecoinTx list \<Rightarrow> StablecoinTx list" where
  "retain_unseen seen [] = []"
| "retain_unseen seen (tx # txs) =
     (if (sender tx, nonce tx) \<in> seen then retain_unseen seen txs
      else tx # retain_unseen (insert (sender tx, nonce tx) seen) txs)"

fun entry_push :: "u64 \<Rightarrow> 'a \<Rightarrow> (u64 \<times> 'a list) list \<Rightarrow> (u64 \<times> 'a list) list" where
  "entry_push k x [] = [(k, [x])]"
| "entry_push k x ((k', xs) # gs) =
     (if k = k' then (k', xs @ [x]) # gs
      else if k < k' then (k, [x]) # (k', xs) # gs
      else (k', xs) # entry_push k x gs)"

definition domain_groups :: "(u64 \<Rightarrow> u64) \<Rightarrow> StablecoinTx list \<Rightarrow> (u64 \<times> StablecoinTx list) list" where
  "domain_groups hash64 txs =
     fold (\<lambda>tx gs. entry_push (domain_hash hash64 (conflict_domain tx)) tx gs) txs []"

definition intra_key :: "StablecoinTx \<Rightarrow> u64 \<times> u64 \<times> u64" where
  "intra_key tx = (sender tx, nonce tx, tx_hash tx)"

definition sorted_groups :: "(u64 \<Rightarrow> u64) \<Rightarrow> StablecoinTx list \<Rightarrow> StablecoinTx list list" where
  "sorted_groups hash64 txs = map (\<lambda>(_, g). sort_key intra_key g) (domain_groups hash64 txs)"

definition cado_ordering :: "(u64 \<Rightarrow> u64) \<Rightarrow> StablecoinTx list \<Rightarrow> StablecoinTx list" where
  "cado_ordering hash64 txs = concat (sorted_groups hash64 (retain_unseen {} txs))"

text \<open>The \<open>loop\<close> over the iterators: one element of each per round, until none is left.\<close>

function round_robin :: "'a list list \<Rightarrow> 'a list" where
  "round_robin gs =
     (if \<forall>g \<in> set gs. g = [] then []
      else map hd (filter (\<lambda>g. g \<noteq> []) gs) @ round_robin (map tl gs))"
  by auto

lemma sum_list_tl_less:
  "\<not> (\<forall>g \<in> set gs. g = []) \<Longrightarrow> sum_list (map (length \<circ> tl) gs) < sum_list (map length gs)"
proof (induction gs)
  case (Cons g gs)
  have le: "sum_list (map (length \<circ> tl) gs) \<le> sum_list (map length gs)" by (rule sum_list_mono) simp
  show ?case
  proof (cases "\<forall>g \<in> set gs. g = []")
    case True
    with Cons.prems have "length (tl g) < length g" by (cases g) auto
    with le show ?thesis by (simp add: comp_def del: length_tl)
  next
    case False
    have "length (tl g) \<le> length g" by simp
    with Cons.IH[OF False] show ?thesis by (simp add: comp_def del: length_tl)
  qed
qed simp

termination round_robin
proof (relation "measure (\<lambda>gs. sum_list (map length gs))")
  fix gs :: "'a list list"
  assume "\<not> (\<forall>g \<in> set gs. g = [])"
  from sum_list_tl_less[OF this] show "(map tl gs, gs) \<in> measure (\<lambda>gs. sum_list (map length gs))"
    by (simp only: in_measure map_map)
qed simp

declare round_robin.simps [simp del]

definition cado_interleave :: "(u64 \<Rightarrow> u64) \<Rightarrow> StablecoinTx list \<Rightarrow> StablecoinTx list" where
  "cado_interleave hash64 txs =
     round_robin (sort_key (\<lambda>g. - int (length g)) (sorted_groups hash64 (retain_unseen {} txs)))"

definition cado_with_mode :: "(u64 \<Rightarrow> u64) \<Rightarrow> CadoMode \<Rightarrow> StablecoinTx list \<Rightarrow> StablecoinTx list" where
  "cado_with_mode hash64 mode txs =
     (case mode of
        Disabled \<Rightarrow> txs
      | Concatenate \<Rightarrow> cado_ordering hash64 txs
      | Interleave \<Rightarrow> cado_interleave hash64 txs)"

section \<open>Removing duplicates\<close>

abbreviation tx_key :: "StablecoinTx \<Rightarrow> u64 \<times> u64" where
  "tx_key tx \<equiv> (sender tx, nonce tx)"

lemma retain_unseen_set: "set (retain_unseen seen txs) \<subseteq> set txs"
  by (induction txs arbitrary: seen) auto

lemma retain_unseen_keys: "tx_key ` set (retain_unseen seen txs) = tx_key ` set txs - seen"
  by (induction txs arbitrary: seen) auto

lemma retain_unseen_distinct: "distinct (map tx_key (retain_unseen seen txs))"
proof (induction txs arbitrary: seen)
  case (Cons tx txs)
  have "tx_key tx \<notin> tx_key ` set (retain_unseen (insert (tx_key tx) seen) txs)"
    by (simp only: retain_unseen_keys) simp
  with Cons.IH show ?case by (auto simp: image_iff)
qed simp

lemma retain_unseen_id:
  "distinct (map tx_key txs) \<Longrightarrow> tx_key ` set txs \<inter> seen = {} \<Longrightarrow> retain_unseen seen txs = txs"
  by (induction txs arbitrary: seen) auto

section \<open>Groups\<close>

text \<open>
  Entries stand in ascending order of keys, and the entry of a key holds the transactions of
  that key in the order in which they came.
\<close>

definition entries_ok :: "('a \<Rightarrow> u64) \<Rightarrow> 'a list \<Rightarrow> (u64 \<times> 'a list) list \<Rightarrow> bool" where
  "entries_ok f xs gs \<longleftrightarrow>
     sorted (map fst gs) \<and> distinct (map fst gs) \<and> fst ` set gs = f ` set xs \<and>
     (\<forall>k g. map_of gs k = Some g \<longrightarrow> g = filter (\<lambda>x. f x = k) xs)"

lemma entry_push_keys: "fst ` set (entry_push k x gs) = insert k (fst ` set gs)"
  by (induction k x gs rule: entry_push.induct) auto

lemma entry_push_sorted:
  "sorted (map fst gs) \<Longrightarrow> distinct (map fst gs) \<Longrightarrow>
   sorted (map fst (entry_push k x gs)) \<and> distinct (map fst (entry_push k x gs))"
proof (induction k x gs rule: entry_push.induct)
  case (2 k x k' xs gs)
  have keys: "set (map fst (entry_push k x gs)) = insert k (fst ` set gs)"
    using entry_push_keys[of k x gs] by simp
  show ?case
  proof (cases "k \<le> k'")
    case True
    with 2 show ?thesis by auto
  next
    case False
    with 2 keys show ?thesis by auto
  qed
qed simp

lemma entry_push_lookup:
  "sorted (map fst gs) \<Longrightarrow>
   map_of (entry_push k x gs) k' =
     (if k' = k then Some (case map_of gs k of None \<Rightarrow> [x] | Some g \<Rightarrow> g @ [x]) else map_of gs k')"
proof (induction k x gs rule: entry_push.induct)
  case (2 k x k1 xs gs)
  have "map_of gs k = None" if "k < k1"
    using that 2(2) by (auto simp: map_of_eq_None_iff)
  with 2 show ?case by auto
qed simp

lemma entries_ok_push:
  assumes ok: "entries_ok f xs gs"
  shows "entries_ok f (xs @ [x]) (entry_push (f x) x gs)"
proof -
  have gs: "sorted (map fst gs)" "distinct (map fst gs)" "fst ` set gs = f ` set xs"
    "\<And>k g. map_of gs k = Some g \<Longrightarrow> g = filter (\<lambda>y. f y = k) xs"
    using ok by (auto simp: entries_ok_def)
  have "g = filter (\<lambda>y. f y = k) (xs @ [x])" if kg: "map_of (entry_push (f x) x gs) k = Some g" for k g
  proof (cases "k = f x")
    case True
    show ?thesis
    proof (cases "map_of gs (f x)")
      case None
      then have "filter (\<lambda>y. f y = f x) xs = []"
        using gs(3) by (auto simp: filter_empty_conv map_of_eq_None_iff image_iff)
      with None True kg show ?thesis by (auto simp add: entry_push_lookup[OF gs(1)])
    next
      case (Some g0)
      with gs(4)[OF Some] True kg show ?thesis by (simp add: entry_push_lookup[OF gs(1)])
    qed
  next
    case False
    with kg gs(4) show ?thesis by (simp add: entry_push_lookup[OF gs(1)])
  qed
  with entry_push_sorted[OF gs(1,2)] gs(3) show ?thesis
    by (auto simp: entries_ok_def entry_push_keys)
qed

lemma entries_ok_fold:
  assumes "entries_ok f xs gs"
  shows "entries_ok f (xs @ ys) (fold (\<lambda>y gs. entry_push (f y) y gs) ys gs)"
  using assms
proof (induction ys arbitrary: xs gs)
  case (Cons y ys)
  from Cons.IH[OF entries_ok_push[OF Cons.prems, of y]] show ?case by simp
qed simp

abbreviation tx_domain :: "(u64 \<Rightarrow> u64) \<Rightarrow> StablecoinTx \<Rightarrow> u64" where
  "tx_domain hash64 tx \<equiv> domain_hash hash64 (conflict_domain tx)"

lemma domain_groups_ok: "entries_ok (tx_domain hash64) txs (domain_groups hash64 txs)"
  using entries_ok_fold[of "tx_domain hash64" "[]" "[]" txs]
  by (simp add: domain_groups_def entries_ok_def)

lemma groups_by_key:
  assumes "entries_ok f xs gs"
  shows "map snd gs = map (\<lambda>k. filter (\<lambda>x. f x = k) xs) (map fst gs)"
proof (rule nth_equalityI)
  fix i assume "i < length (map snd gs)"
  moreover then have "map_of gs (fst (gs ! i)) = Some (snd (gs ! i))"
    using assms by (auto simp: entries_ok_def)
  ultimately show "map snd gs ! i = map (\<lambda>k. filter (\<lambda>x. f x = k) xs) (map fst gs) ! i"
    using assms by (auto simp: entries_ok_def)
qed simp

lemma mset_groups:
  "distinct ks \<Longrightarrow> mset (concat (map (\<lambda>k. filter (\<lambda>x. f x = k) xs) ks)) = filter_mset (\<lambda>x. f x \<in> set ks) (mset xs)"
proof (induction ks)
  case (Cons k ks)
  then show ?case by (auto intro!: multiset_eqI)
qed simp

section \<open>The concatenating order\<close>

text \<open>A run of groups with ascending keys, each sorted, is sorted by key first.\<close>

lemma sorted_concat_groups:
  assumes "sorted ks" and "distinct ks"
    and "\<And>k x. k \<in> set ks \<Longrightarrow> x \<in> set (G k) \<Longrightarrow> D x = k" and "\<And>k. k \<in> set ks \<Longrightarrow> sorted (map I (G k))"
  shows "sorted (map (\<lambda>x. (D x, I x)) (concat (map G ks)))"
  using assms
proof (induction ks)
  case (Cons k ks)
  have same: "map (\<lambda>x. (D x, I x)) (G k) = map (Pair k) (map I (G k))" using Cons.prems(3) by simp
  have mono: "sorted (map (Pair k) zs) = sorted zs" for zs
    by (induction zs) auto
  have "sorted (map (\<lambda>x. (D x, I x)) (G k))"
    unfolding same mono using Cons.prems(4) by simp
  moreover have "sorted (map (\<lambda>x. (D x, I x)) (concat (map G ks)))" using Cons by simp
  moreover have "(D x, I x) \<le> (D y, I y)" if "x \<in> set (G k)" "y \<in> set (concat (map G ks))" for x y
  proof -
    from that(2) obtain k' where k': "k' \<in> set ks" "y \<in> set (G k')" by auto
    have "D x = k" "D y = k'" using Cons.prems(3) that(1) k' by auto
    moreover have "k < k'" using Cons.prems(1,2) k'(1) by (auto simp: less_le)
    ultimately show ?thesis by simp
  qed
  ultimately show ?case by (auto simp: sorted_append)
qed simp

lemma filter_concat_groups:
  assumes "distinct ks"
    and "\<And>k. k \<in> set ks \<Longrightarrow> filter P (G k) = (if k = d then filter P xs else [])"
    and "d \<notin> set ks \<Longrightarrow> filter P xs = []"
  shows "filter P (concat (map G ks)) = filter P xs"
proof -
  have "filter P (concat (map G ks)) = (if d \<in> set ks then filter P xs else [])"
    using assms(1,2)
  proof (induction ks)
    case (Cons k ks)
    have IH: "filter P (concat (map G ks)) = (if d \<in> set ks then filter P xs else [])"
      by (rule Cons.IH) (use Cons.prems in auto)
    show ?case using Cons.prems(1) Cons.prems(2)[of k] IH by (cases "k = d") auto
  qed simp
  with assms(3) show ?thesis by auto
qed

definition domain_keys :: "(u64 \<Rightarrow> u64) \<Rightarrow> StablecoinTx list \<Rightarrow> u64 list" where
  "domain_keys hash64 xs = map fst (domain_groups hash64 xs)"

definition domain_group :: "(u64 \<Rightarrow> u64) \<Rightarrow> StablecoinTx list \<Rightarrow> u64 \<Rightarrow> StablecoinTx list" where
  "domain_group hash64 xs k = sort_key intra_key (filter (\<lambda>x. tx_domain hash64 x = k) xs)"

lemma domain_keys:
  "sorted (domain_keys hash64 xs)" "distinct (domain_keys hash64 xs)"
  "set (domain_keys hash64 xs) = tx_domain hash64 ` set xs"
  using domain_groups_ok[of hash64 xs] by (auto simp: entries_ok_def domain_keys_def)

lemma domain_group_domain: "x \<in> set (domain_group hash64 xs k) \<Longrightarrow> tx_domain hash64 x = k"
  by (simp add: domain_group_def)

lemma sorted_groups_by_key: "sorted_groups hash64 xs = map (domain_group hash64 xs) (domain_keys hash64 xs)"
proof -
  have "sorted_groups hash64 xs = map (sort_key intra_key) (map snd (domain_groups hash64 xs))"
    by (simp add: sorted_groups_def case_prod_beta)
  also have "\<dots> = map (domain_group hash64 xs) (domain_keys hash64 xs)"
    unfolding groups_by_key[OF domain_groups_ok[of hash64 xs]] by (simp add: domain_keys_def domain_group_def)
  finally show ?thesis .
qed

lemma mset_sorted_groups: "mset (concat (sorted_groups hash64 xs)) = mset xs"
proof -
  let ?ks = "domain_keys hash64 xs"
  have "mset (concat (sorted_groups hash64 xs))
      = mset (concat (map (\<lambda>k. filter (\<lambda>x. tx_domain hash64 x = k) xs) ?ks))"
    by (simp add: sorted_groups_by_key domain_group_def mset_concat comp_def)
  also have "\<dots> = filter_mset (\<lambda>x. tx_domain hash64 x \<in> set ?ks) (mset xs)"
    by (rule mset_groups[OF domain_keys(2)])
  also have "\<dots> = mset xs" by (auto simp: filter_mset_eq_conv domain_keys(3))
  finally show ?thesis .
qed

text \<open>Grouping, sorting the groups and concatenating is one stable sort.\<close>

lemma sorted_groups_concat:
  "concat (sorted_groups hash64 xs) = sort_key (\<lambda>tx. (tx_domain hash64 tx, intra_key tx)) xs"
proof -
  let ?D = "tx_domain hash64" and ?ks = "domain_keys hash64 xs" and ?G = "domain_group hash64 xs"
  have "sort_key (\<lambda>tx. (?D tx, intra_key tx)) xs = concat (map ?G ?ks)"
  proof (rule properties_for_sort_key)
    show "mset (concat (map ?G ?ks)) = mset xs"
      using mset_sorted_groups by (simp add: sorted_groups_by_key)
  next
    fix tx
    let ?P = "\<lambda>x. (?D tx, intra_key tx) = (?D x, intra_key x)"
    let ?Q = "\<lambda>x. intra_key x = intra_key tx"
    show "filter ?P (concat (map ?G ?ks)) = filter ?P xs"
    proof (rule filter_concat_groups[where d = "?D tx", OF domain_keys(2)])
      fix k
      show "filter ?P (?G k) = (if k = ?D tx then filter ?P xs else [])"
      proof (cases "k = ?D tx")
        case True
        have "filter ?P (?G k) = filter ?Q (?G k)" using True by (intro filter_cong) (auto dest: domain_group_domain)
        also have "\<dots> = filter ?Q (filter (\<lambda>x. ?D x = k) xs)"
          unfolding domain_group_def by (rule sort_key_stable)
        also have "\<dots> = filter ?P xs" using True by (auto intro!: filter_cong)
        finally show ?thesis using True by simp
      next
        case False
        then show ?thesis by (auto simp: filter_empty_conv dest: domain_group_domain)
      qed
    next
      assume "?D tx \<notin> set ?ks"
      then show "filter ?P xs = []" by (auto simp: filter_empty_conv image_iff domain_keys(3))
    qed
  next
    show "sorted (map (\<lambda>tx. (?D tx, intra_key tx)) (concat (map ?G ?ks)))"
      by (rule sorted_concat_groups[OF domain_keys(1,2)]) (auto simp: domain_group_def)
  qed
  then show ?thesis by (simp add: sorted_groups_by_key)
qed

text \<open>The groups depend on the transactions, not on the order in which they came.\<close>

lemma sort_key_inj_perm:
  assumes "mset xs = mset ys" and "inj_on f (set xs)"
  shows "sort_key f xs = sort_key f ys"
proof (rule properties_for_sort_key)
  show "mset (sort_key f ys) = mset xs" using assms(1) by simp
  show "filter (\<lambda>x. f k = f x) (sort_key f ys) = filter (\<lambda>x. f k = f x) xs" if k: "k \<in> set (sort_key f ys)" for k
  proof -
    have set: "set xs = set ys" using assms(1) by (rule mset_eq_setD)
    have one: "filter (\<lambda>x. f k = f x) zs = filter (\<lambda>x. x = k) zs" if "set zs = set xs" for zs
      using assms(2) k set that by (auto intro!: filter_cong dest: inj_onD)
    have "replicate (count_list zs k) k = filter (\<lambda>x. x = k) zs" for zs
      by (induction zs) auto
    moreover have "count_list (sort_key f ys) k = count_list xs k"
      using assms(1) by (metis count_mset mset_sort)
    ultimately show ?thesis using one[of "sort_key f ys"] one[of xs] set by (metis set_sort)
  qed
qed simp

lemma sorted_groups_perm:
  assumes perm: "mset xs = mset ys" and inj: "inj_on intra_key (set xs)"
  shows "sorted_groups hash64 xs = sorted_groups hash64 ys"
proof -
  have set: "set xs = set ys" using perm by (rule mset_eq_setD)
  have "domain_keys hash64 xs = domain_keys hash64 ys"
    by (rule sorted_distinct_set_unique) (simp_all add: domain_keys set)
  moreover have "domain_group hash64 xs k = domain_group hash64 ys k" for k
    unfolding domain_group_def
    by (rule sort_key_inj_perm) (use perm inj in \<open>auto simp: mset_filter intro: inj_on_subset\<close>)
  ultimately show ?thesis by (simp add: sorted_groups_by_key)
qed

lemma tx_key_inj: "distinct (map tx_key xs) \<Longrightarrow> inj_on intra_key (set xs)"
  by (auto simp: distinct_map inj_on_def intra_key_def)

section \<open>The interleaving order\<close>

lemma mset_concat_eq_sum: "mset (concat gs) = sum_mset (image_mset mset (mset gs))"
  by (induction gs) auto

lemma round_robin_mset: "mset (round_robin gs) = mset (concat gs)"
proof (induction gs rule: round_robin.induct)
  case (1 gs)
  show ?case
  proof (cases "\<forall>g \<in> set gs. g = []")
    case True
    then have "concat gs = []" by auto
    with True show ?thesis by (subst round_robin.simps) simp
  next
    case False
    have "mset (map hd (filter (\<lambda>g. g \<noteq> []) gs)) + mset (concat (map tl gs)) = mset (concat gs)"
    proof (induction gs)
      case (Cons g gs)
      then show ?case by (cases g) auto
    qed simp
    with False 1 show ?thesis by (subst round_robin.simps) simp
  qed
qed

text \<open>Within every group the order stays.\<close>

lemma round_robin_filter:
  assumes "length (filter (\<lambda>g. \<exists>x \<in> set g. P x) gs) \<le> 1"
    and "\<And>g. g \<in> set gs \<Longrightarrow> (\<exists>x \<in> set g. P x) \<Longrightarrow> (\<forall>x \<in> set g. P x)"
  shows "filter P (round_robin gs) = concat (map (filter P) gs)"
  using assms
proof (induction gs rule: round_robin.induct)
  case (1 gs)
  show ?case
  proof (cases "\<forall>g \<in> set gs. g = []")
    case True
    then show ?thesis by (subst round_robin.simps) auto
  next
    case False
    have sub: "set (tl g) \<subseteq> set g" for g :: "'a list" by (cases g) auto
    have "length (filter (\<lambda>g. \<exists>x \<in> set (tl g). P x) gs) \<le> length (filter (\<lambda>g. \<exists>x \<in> set g. P x) gs)"
      by (induction gs) (use sub in fastforce)+
    then have few: "length (filter (\<lambda>g. \<exists>x \<in> set g. P x) (map tl gs)) \<le> 1"
      using 1(2) by (simp add: filter_map comp_def)
    have "\<forall>x \<in> set g. P x" if "g \<in> set (map tl gs)" "\<exists>x \<in> set g. P x" for g
      using that 1(3) sub by fastforce
    with 1(1)[OF False few] have IH: "filter P (round_robin (map tl gs)) = concat (map (filter P) (map tl gs))" by blast
    have "filter P (map hd (filter (\<lambda>g. g \<noteq> []) gs)) @ concat (map (filter P) (map tl gs)) = concat (map (filter P) gs)"
      using 1(2)
    proof (induction gs)
      case (Cons g gs)
      show ?case
      proof (cases "\<exists>x \<in> set g. P x")
        case True
        with Cons.prems have "filter (\<lambda>g. \<exists>x \<in> set g. P x) gs = []" by simp
        then have none: "\<forall>g \<in> set gs. filter P g = []" by (auto simp: filter_empty_conv)
        then have "filter P (map hd (filter (\<lambda>g. g \<noteq> []) gs)) = []"
          by (auto simp: filter_empty_conv)
        moreover have "concat (map (filter P) (map tl gs)) = []" "concat (map (filter P) gs) = []"
          using none sub by (auto simp: filter_empty_conv)
        ultimately show ?thesis by (cases g) (simp_all del: concat_eq_Nil_conv)
      next
        case False
        then have "filter P g = []" "filter P (tl g) = []" "g \<noteq> [] \<Longrightarrow> \<not> P (hd g)"
          using sub by (auto simp: filter_empty_conv)
        with Cons False show ?thesis by simp
      qed
    qed simp
    with False IH show ?thesis by (subst round_robin.simps) auto
  qed
qed

text \<open>The transactions of a domain stand in the order of their sorted group.\<close>

lemma interleave_domain:
  "filter (\<lambda>tx. tx_domain hash64 tx = d) (cado_interleave hash64 txs) =
   domain_group hash64 (retain_unseen {} txs) d"
proof -
  let ?xs = "retain_unseen {} txs" and ?P = "\<lambda>tx. tx_domain hash64 tx = d"
  let ?ks = "domain_keys hash64 ?xs" and ?G = "domain_group hash64 ?xs"
  let ?gs = "sort_key (\<lambda>g. - int (length g)) (sorted_groups hash64 ?xs)"
  have hit: "(\<exists>x \<in> set (?G k). ?P x) \<longleftrightarrow> k = d \<and> ?G k \<noteq> []" for k
    using domain_group_domain[of _ hash64 ?xs k] by (metis list.set_intros(1) list.set_cases neq_Nil_conv empty_iff list.set(1))
  have ms: "mset ?gs = mset (map ?G ?ks)" by (simp add: sorted_groups_by_key)
  have few: "filter (\<lambda>g. \<exists>x \<in> set g. ?P x) (map ?G ?ks) = (if ?G d = [] then [] else [?G d])"
  proof -
    have "filter (\<lambda>k. k = d \<and> ?G k \<noteq> []) ks = (if d \<in> set ks \<and> ?G d \<noteq> [] then [d] else [])"
      if "distinct ks" for ks using that by (induction ks) auto
    moreover have "d \<in> set ?ks" if "?G d \<noteq> []"
    proof -
      from that obtain x where "x \<in> set (?G d)" by (meson list.set_sel(1))
      then show ?thesis by (auto simp: domain_group_def domain_keys(3))
    qed
    ultimately show ?thesis by (simp add: filter_map comp_def hit domain_keys(2))
  qed
  have "mset (filter (\<lambda>g. \<exists>x \<in> set g. ?P x) ?gs) = mset (filter (\<lambda>g. \<exists>x \<in> set g. ?P x) (map ?G ?ks))"
    using ms by (simp add: mset_filter)
  then have f: "filter (\<lambda>g. \<exists>x \<in> set g. ?P x) ?gs = (if ?G d = [] then [] else [?G d])"
    unfolding few by (cases "?G d = []") (simp_all del: mset_filter)
  have gs: "g \<in> set ?gs \<Longrightarrow> \<exists>k. g = ?G k" for g by (auto simp: sorted_groups_by_key)
  have "filter ?P (round_robin ?gs) = concat (map (filter ?P) ?gs)"
  proof (rule round_robin_filter)
    show "length (filter (\<lambda>g. \<exists>x \<in> set g. ?P x) ?gs) \<le> 1" unfolding f by simp
    show "\<forall>x \<in> set g. ?P x" if "g \<in> set ?gs" "\<exists>x \<in> set g. ?P x" for g
      using gs[OF that(1)] that(2) by (auto dest: domain_group_domain)
  qed
  also have "\<dots> = concat (map (filter ?P) (filter (\<lambda>g. \<exists>x \<in> set g. ?P x) hs))" if "hs = ?gs" for hs
    unfolding that[symmetric] by (induction hs) (auto simp: filter_empty_conv)
  finally have "filter ?P (round_robin ?gs) = concat (map (filter ?P) (if ?G d = [] then [] else [?G d]))"
    using f by simp
  also have "\<dots> = ?G d" by (auto simp: filter_id_conv dest: domain_group_domain)
  finally show ?thesis by (simp add: cado_interleave_def)
qed

lemma mset_cado:
  "mset (cado_ordering hash64 txs) = mset (retain_unseen {} txs)"
  "mset (cado_interleave hash64 txs) = mset (retain_unseen {} txs)"
proof -
  show "mset (cado_ordering hash64 txs) = mset (retain_unseen {} txs)"
    by (simp add: cado_ordering_def mset_sorted_groups)
  have "mset (cado_interleave hash64 txs) = mset (concat (sort_key (\<lambda>g. - int (length g))
      (sorted_groups hash64 (retain_unseen {} txs))))"
    by (simp add: cado_interleave_def round_robin_mset)
  also have "\<dots> = mset (concat (sorted_groups hash64 (retain_unseen {} txs)))"
    by (simp add: mset_concat_eq_sum)
  finally show "mset (cado_interleave hash64 txs) = mset (retain_unseen {} txs)"
    by (simp add: mset_sorted_groups)
qed

end
