(* ===== verification/DomainPlan.thy ===== *)
theory DomainPlan
  imports StablecoinTx
begin

text \<open>
  Cutting an ordered block into segments of one conflict domain
  (\<open>leap/src/domain_plan.rs\<close>), with the lookup tables the scheduler takes.
\<close>

record DomainSegment =
  seg_start :: usize
  seg_end :: usize
  seg_domain :: u64
  write_keys :: "u64 set"

record DomainPlan =
  segments :: "DomainSegment list"
  par_bound :: "bool list"

definition collect_write_accounts :: "StablecoinTx \<Rightarrow> u64 set \<Rightarrow> u64 set" where
  "collect_write_accounts tx keys =
     (case tx_type tx of
        Transfer _ receiver _ \<Rightarrow> insert receiver keys
      | Mint to _ \<Rightarrow> insert (- 1) (insert to keys)
      | Burn from _ \<Rightarrow> insert (- 1) (insert from keys)
      | InitBalance account _ \<Rightarrow> insert account keys)"

text \<open>The inner \<open>while\<close>: extend the segment as long as the domain stays and \<open>l_max\<close> allows.\<close>

function extend_segment :: "StablecoinTx list \<Rightarrow> usize \<Rightarrow> u64 \<Rightarrow> usize \<Rightarrow> usize \<Rightarrow> usize" where
  "extend_segment txs l_max domain s e =
     (if e < length txs \<and> conflict_domain (txs ! e) = domain \<and> e - s < l_max
      then extend_segment txs l_max domain s (e + 1)
      else e)"
  by auto
termination extend_segment
  by (relation "measure (\<lambda>(txs, l_max, domain, s, e). length txs - e)") auto

declare extend_segment.simps [simp del]

lemma extend_segment_ge: "e \<le> extend_segment txs l_max domain s e"
  by (induction txs l_max domain s e rule: extend_segment.induct)
    (subst extend_segment.simps, auto)

text \<open>The outer \<open>while\<close>.\<close>

function build_segments :: "StablecoinTx list \<Rightarrow> usize \<Rightarrow> usize \<Rightarrow> DomainSegment list" where
  "build_segments txs l_max s =
     (if s < length txs
      then let domain = conflict_domain (txs ! s);
               e = extend_segment txs l_max domain s (s + 1);
               keys = fold collect_write_accounts (drop s (take e txs)) {}
           in \<lparr>seg_start = s, seg_end = e, seg_domain = domain, write_keys = keys\<rparr>
              # build_segments txs l_max e
      else [])"
  by auto
termination build_segments
proof (relation "measure (\<lambda>(txs, l_max, s). length txs - s)")
  fix txs l_max s x xa
  assume s: "s < length txs" and x: "(x :: u64) = conflict_domain (txs ! s)"
    and xa: "xa = extend_segment txs l_max x s (s + 1)"
  have "s + 1 \<le> xa" unfolding xa by (rule extend_segment_ge)
  with s show "((txs, l_max, xa), (txs, l_max, s)) \<in> measure (\<lambda>(txs, l_max, s). length txs - s)" by simp
qed simp

declare build_segments.simps [simp del]

definition parallel_bound :: "DomainSegment list \<Rightarrow> usize \<Rightarrow> bool" where
  "parallel_bound segs j =
     (if j = 0 then False
      else if seg_domain (segs ! j) = seg_domain (segs ! (j - 1)) then True
      else write_keys (segs ! j) \<inter> write_keys (segs ! (j - 1)) = {})"

definition build_domain_plan :: "StablecoinTx list \<Rightarrow> usize \<Rightarrow> DomainPlan" where
  "build_domain_plan txs l_max =
     (if txs = [] then \<lparr>segments = [], par_bound = []\<rparr>
      else let segs = build_segments txs l_max 0
           in \<lparr>segments = segs, par_bound = map (parallel_bound segs) [0..<length segs]\<rparr>)"

definition plan_segment_bounds :: "DomainPlan \<Rightarrow> (usize \<times> usize \<times> bool) list" where
  "plan_segment_bounds plan =
     map (\<lambda>(i, seg). (seg_start seg, seg_end seg,
            if i < length (par_bound plan) then par_bound plan ! i else False))
       (enumerate 0 (segments plan))"

definition plan_txn_to_segment :: "DomainPlan \<Rightarrow> usize \<Rightarrow> usize list" where
  "plan_txn_to_segment plan num_txns =
     fold (\<lambda>(seg_idx, seg) result.
             fold (\<lambda>i r. r[i := seg_idx]) [seg_start seg..<min (seg_end seg) num_txns] result)
       (enumerate 0 (segments plan)) (replicate num_txns (length (segments plan)))"

section \<open>Segments\<close>

text \<open>A stretch of the block that may become a segment.\<close>

definition stretch :: "StablecoinTx list \<Rightarrow> usize \<Rightarrow> u64 \<Rightarrow> usize \<Rightarrow> usize \<Rightarrow> bool" where
  "stretch txs l_max d s e \<longleftrightarrow>
     s < e \<and> e \<le> length txs \<and> e - s \<le> max 1 l_max \<and>
     (\<forall>i. s \<le> i \<and> i < e \<longrightarrow> conflict_domain (txs ! i) = d)"

lemma extend_segment_spec:
  "stretch txs l_max d s e \<Longrightarrow>
   (let e' = extend_segment txs l_max d s e
    in stretch txs l_max d s e' \<and>
       (e' < length txs \<longrightarrow> conflict_domain (txs ! e') \<noteq> d \<or> l_max \<le> e' - s))"
proof (induction txs l_max d s e rule: extend_segment.induct)
  case (1 txs l_max d s e)
  show ?case
  proof (cases "e < length txs \<and> conflict_domain (txs ! e) = d \<and> e - s < l_max")
    case True
    with 1(2) have "stretch txs l_max d s (e + 1)" by (auto simp: stretch_def less_Suc_eq)
    with 1(1)[OF True] True show ?thesis by (simp add: extend_segment.simps[of txs l_max d s e])
  next
    case False
    then have "extend_segment txs l_max d s e = e" by (subst extend_segment.simps) auto
    with 1(2) False show ?thesis by auto
  qed
qed

text \<open>Segments that follow each other without a gap, from \<open>s\<close> to the end of the block.\<close>

fun contiguous :: "usize \<Rightarrow> DomainSegment list \<Rightarrow> usize \<Rightarrow> bool" where
  "contiguous s [] n \<longleftrightarrow> s = n"
| "contiguous s (g # gs) n \<longleftrightarrow> seg_start g = s \<and> s < seg_end g \<and> contiguous (seg_end g) gs n"

definition first_end :: "StablecoinTx list \<Rightarrow> usize \<Rightarrow> usize \<Rightarrow> usize" where
  "first_end txs l_max s = extend_segment txs l_max (conflict_domain (txs ! s)) s (s + 1)"

definition first_segment :: "StablecoinTx list \<Rightarrow> usize \<Rightarrow> usize \<Rightarrow> DomainSegment" where
  "first_segment txs l_max s =
     \<lparr>seg_start = s, seg_end = first_end txs l_max s, seg_domain = conflict_domain (txs ! s),
      write_keys = fold collect_write_accounts (drop s (take (first_end txs l_max s) txs)) {}\<rparr>"

lemma build_segments_unfold:
  "s < length txs \<Longrightarrow> build_segments txs l_max s =
     first_segment txs l_max s # build_segments txs l_max (first_end txs l_max s)"
  "\<not> s < length txs \<Longrightarrow> build_segments txs l_max s = []"
  by (subst build_segments.simps, simp add: first_segment_def first_end_def Let_def)+

lemma first_segment_simps [simp]:
  "seg_start (first_segment txs l_max s) = s" "seg_end (first_segment txs l_max s) = first_end txs l_max s"
  "seg_domain (first_segment txs l_max s) = conflict_domain (txs ! s)"
  by (simp_all add: first_segment_def)

lemma first_end_spec:
  assumes "s < length txs"
  shows "stretch txs l_max (conflict_domain (txs ! s)) s (first_end txs l_max s)"
    and "first_end txs l_max s < length txs \<Longrightarrow>
      conflict_domain (txs ! first_end txs l_max s) \<noteq> conflict_domain (txs ! s) \<or> l_max \<le> first_end txs l_max s - s"
proof -
  have "stretch txs l_max (conflict_domain (txs ! s)) s (s + 1)" using assms by (auto simp: stretch_def less_Suc_eq)
  from extend_segment_spec[OF this, unfolded Let_def, folded first_end_def] show
    "stretch txs l_max (conflict_domain (txs ! s)) s (first_end txs l_max s)"
    "first_end txs l_max s < length txs \<Longrightarrow>
      conflict_domain (txs ! first_end txs l_max s) \<noteq> conflict_domain (txs ! s) \<or> l_max \<le> first_end txs l_max s - s"
    by blast+
qed

text \<open>Induction along the outer loop.\<close>

lemma build_segments_induct [case_names empty segment]:
  assumes "\<And>s. \<not> s < length txs \<Longrightarrow> P s"
    and "\<And>s. s < length txs \<Longrightarrow> s < first_end txs l_max s \<Longrightarrow> P (first_end txs l_max s) \<Longrightarrow> P s"
  shows "P s"
proof (induction "length txs - s" arbitrary: s rule: less_induct)
  case less
  show ?case
  proof (cases "s < length txs")
    case True
    with first_end_spec(1)[OF True] have "s < first_end txs l_max s" by (simp add: stretch_def)
    with True less assms(2) show ?thesis by simp
  qed (rule assms(1))
qed

lemma build_segments_contiguous:
  "s \<le> length txs \<Longrightarrow> contiguous s (build_segments txs l_max s) (length txs)"
proof (induction s rule: build_segments_induct[where l_max = l_max and txs = txs])
  case (segment s)
  have "first_end txs l_max s \<le> length txs" using first_end_spec(1)[OF segment(1)] by (simp add: stretch_def)
  with segment show ?case by (simp add: build_segments_unfold(1))
qed (simp add: build_segments_unfold(2))

text \<open>Every segment is a stretch of its domain, and it is as long as it may be.\<close>

lemma build_segments_stretch:
  "g \<in> set (build_segments txs l_max s) \<Longrightarrow>
   stretch txs l_max (seg_domain g) (seg_start g) (seg_end g) \<and>
   (seg_end g < length txs \<longrightarrow>
      conflict_domain (txs ! seg_end g) \<noteq> seg_domain g \<or> l_max \<le> seg_end g - seg_start g)"
proof (induction s rule: build_segments_induct[where l_max = l_max and txs = txs])
  case (segment s)
  with first_end_spec[OF segment(1)] show ?case by (auto simp: build_segments_unfold(1))
qed (simp add: build_segments_unfold(2))

section \<open>The lookup table\<close>

lemma length_fold_update: "length (fold (\<lambda>i r. r[i := v]) xs r) = length r"
  by (induction xs arbitrary: r) auto

lemma fold_update_range:
  "k < length r \<Longrightarrow> fold (\<lambda>i r. r[i := v]) [a..<b] r ! k = (if a \<le> k \<and> k < b then v else r ! k)"
proof (induction b)
  case (Suc b)
  show ?case
  proof (cases "a \<le> b")
    case True
    with Suc show ?thesis by (cases "k = b") (auto simp: length_fold_update)
  qed auto
qed simp

definition mark_segment :: "usize \<Rightarrow> nat \<times> DomainSegment \<Rightarrow> usize list \<Rightarrow> usize list" where
  "mark_segment n = (\<lambda>(seg_idx, seg) result.
     fold (\<lambda>i r. r[i := seg_idx]) [seg_start seg..<min (seg_end seg) n] result)"

lemma length_mark [simp]: "length (mark_segment n p r) = length r"
  by (simp add: mark_segment_def case_prod_beta length_fold_update)

lemma mark_segments:
  "contiguous s gs n \<Longrightarrow> length r = n \<Longrightarrow> k < n \<Longrightarrow>
   (if k < s then fold (mark_segment n) (enumerate m gs) r ! k = r ! k
    else \<exists>j < length gs. fold (mark_segment n) (enumerate m gs) r ! k = m + j
           \<and> seg_start (gs ! j) \<le> k \<and> k < seg_end (gs ! j))"
proof (induction gs arbitrary: s m r)
  case (Cons g gs)
  let ?r = "mark_segment n (m, g) r"
  have here: "?r ! k = (if s \<le> k \<and> k < seg_end g then m else r ! k)"
    using Cons.prems by (auto simp: mark_segment_def fold_update_range)
  have IH: "if k < seg_end g then fold (mark_segment n) (enumerate (Suc m) gs) ?r ! k = ?r ! k
    else \<exists>j < length gs. fold (mark_segment n) (enumerate (Suc m) gs) ?r ! k = Suc m + j
           \<and> seg_start (gs ! j) \<le> k \<and> k < seg_end (gs ! j)"
    by (rule Cons.IH) (use Cons.prems in auto)
  show ?case
  proof (cases "k < seg_end g")
    case True
    with IH here Cons.prems show ?thesis by (auto intro!: exI[of _ 0])
  next
    case False
    with IH obtain j where "j < length gs" "fold (mark_segment n) (enumerate (Suc m) gs) ?r ! k = Suc m + j"
      "seg_start (gs ! j) \<le> k" "k < seg_end (gs ! j)" by auto
    with False Cons.prems show ?thesis by (auto intro!: exI[of _ "Suc j"])
  qed
qed auto

lemma plan_txn_to_segment_mark:
  "plan_txn_to_segment plan n =
     fold (mark_segment n) (enumerate 0 (segments plan)) (replicate n (length (segments plan)))"
  by (simp add: plan_txn_to_segment_def mark_segment_def)

lemma build_domain_plan_segments: "segments (build_domain_plan txs l_max) = build_segments txs l_max 0"
  by (simp add: build_domain_plan_def build_segments.simps[of txs] Let_def)

end
