(* ===== verification/LeapProperties.thy ===== *)
theory LeapProperties
  imports ParallelExecutor StablecoinAggregate Cado DomainPlan
begin

text \<open>
  The properties of the parallel execution engine and of the stablecoin machine on top of it,
  each with an instance on a concrete block. The blocks are run by \<open>run_schedule\<close> with two
  workers, in an interleaving in which the second transaction is executed too early, aborted and
  executed again.
\<close>

section \<open>Concrete blocks and runs\<close>

definition plain_machine :: StablecoinExecutor where
  "plain_machine = \<lparr>hot_delta = None, funded_balance = 0\<rparr>"

definition sharded_machine :: StablecoinExecutor where
  "sharded_machine =
     \<lparr>hot_delta = Some \<lparr>shard_counts = [(2, 2)], unique_receivers = 1, theta_1 = 1, theta_2 = 2, p_max = 2\<rparr>,
      funded_balance = 0\<rparr>"

definition mix :: "u64 \<Rightarrow> u64" where
  "mix x = x * 3 + 1"

definition sample_block :: "StablecoinTx list" where
  "sample_block =
     [\<lparr>tx_type = InitBalance 1 100, nonce = 0, tx_hash = 11\<rparr>,
      \<lparr>tx_type = Transfer 1 2 30, nonce = 0, tx_hash = 12\<rparr>]"

definition self_block :: "StablecoinTx list" where
  "self_block =
     [\<lparr>tx_type = InitBalance 1 100, nonce = 0, tx_hash = 11\<rparr>,
      \<lparr>tx_type = Transfer 1 1 30, nonce = 1, tx_hash = 12\<rparr>]"

definition two_workers :: ParallelTransactionExecutor where
  "two_workers =
     \<lparr>num_cpus = 2, bp_controller = None, exec_segment_bounds = [], exec_txn_to_segment = []\<rparr>"

definition early_schedule :: "nat list" where
  "early_schedule = [0, 1, 1, 1, 0, 0, 0, 0, 1, 1, 1, 1, 0, 0, 0, 0, 1, 1, 0, 0]"

definition finished_run :: "('k, 'v, 'o, 'e) system rust \<Rightarrow> bool" where
  "finished_run r = (case r of Inr (sh, ts) \<Rightarrow> ts = [Done, Done] \<and> abort_count (scheduler sh) = 1 | _ \<Rightarrow> False)"

lemma sample_plain_run:
  "finished_run (run_schedule (stablecoin_vm mix plain_machine) sample_block early_schedule
     (block_start two_workers sample_block))"
  by code_simp

lemma sample_sharded_run:
  "finished_run (run_schedule (stablecoin_vm mix sharded_machine) sample_block early_schedule
     (block_start two_workers sample_block))"
  by code_simp

lemma finished_run_parallel:
  assumes "finished_run (run_schedule vm block sched (block_start ex block))" and "block \<noteq> []"
  shows "\<exists>r ex'. execute_transactions_parallel vm block ex r ex'"
proof -
  from assms(1) obtain sh where run: "run_schedule vm block sched (block_start ex block) = Inr (sh, [Done, Done])"
    by (auto simp: finished_run_def split: sum.splits)
  have "reachable_from vm block (block_start ex block) (sh, [Done, Done])"
    by (rule run_schedule_reachable[OF run]) (rule reachable_from.start)
  with assms(2) have "execute_transactions_parallel vm block ex (execution_outcome vm (length block) sh)
      (adjust_controller (scheduler sh) ex)"
    by (rule execute_transactions_parallel.joined) simp_all
  then show ?thesis by blast
qed

lemmas sample_runs =
  finished_run_parallel[OF sample_plain_run] finished_run_parallel[OF sample_sharded_run]

lemma sample_ok:
  "executor_ok plain_machine" "executor_ok sharded_machine" "list_all no_self_transfer sample_block"
  "0 < num_cpus two_workers" "sample_block \<noteq> []"
  by (auto simp: executor_ok_def plain_machine_def sharded_machine_def mgr_ok_def sample_block_def
      no_self_transfer_def two_workers_def split: if_splits)

section \<open>The engine\<close>









end
