(* ===== verification/StablecoinProperties.thy ===== *)
theory StablecoinProperties
  imports LeapProperties
begin

text \<open>
  The properties of the stablecoin machine on the parallel engine: the state of a block is the
  one of the serial reference, with hot accounts split into shards or not, and the reference
  conserves value.
\<close>

section \<open>Parallel blocks against the serial reference\<close>

lemma parallel_machine_run:
  assumes "execute_transactions_parallel (stablecoin_vm hash64 mach) txs ex r ex'" and "0 < num_cpus ex"
  shows "r = Inr (Inr (machine_run hash64 mach txs))"
  using execute_parallel_success[OF assms stablecoin_always_success] by simp





text \<open>
  C7. Folding the delta shards of a parallel run back into the balances, in whatever order the
  hash map lists them, gives the balances, nonces and supply of the serial reference and leaves
  no shard behind.
\<close>

theorem aggregated_state_is_serial:
  assumes "execute_transactions_parallel (stablecoin_vm hash64 mach) txs ex (Inr (Inr outs)) ex'" and "0 < num_cpus ex"
    and "executor_ok mach" and "funded_balance mach = 0" and "list_all no_self_transfer txs"
    and "delta_entries (outputs_to_state outs) ds"
  shows "get_or 0 (Balance a) (aggregate_deltas ds (outputs_to_state outs)) = get_or 0 (Balance a) (serial_execute txs)
    \<and> get_or 0 (Nonce a) (aggregate_deltas ds (outputs_to_state outs)) = get_or 0 (Nonce a) (serial_execute txs)
    \<and> get_or 0 TotalSupply (aggregate_deltas ds (outputs_to_state outs)) = get_or 0 TotalSupply (serial_execute txs)
    \<and> aggregate_deltas ds (outputs_to_state outs) (Delta a s) = None"
proof -
  have outs: "outs = machine_run hash64 mach txs" using parallel_machine_run[OF assms(1,2)] by simp
  show ?thesis using aggregate_refines[OF assms(3-5), of hash64 ds] assms(6) unfolding outs by blast
qed

lemma sample_sharded_outputs:
  "machine_run mix sharded_machine sample_block =
     [\<lparr>writes = [(Balance 1, 100)]\<rparr>, \<lparr>writes = [(Balance 1, 70), (Delta 2 1, 30), (Nonce 1, 1)]\<rparr>]"
  by code_simp

lemma sample_delta_entries:
  "delta_entries (outputs_to_state (machine_run mix sharded_machine sample_block)) [(Delta 2 1, 30)]"
  unfolding sample_sharded_outputs by (auto simp: delta_entries_def outputs_to_state_def)

theorem aggregated_state_is_serial_witness:
  "\<exists>outs ex'. execute_transactions_parallel (stablecoin_vm mix sharded_machine) sample_block two_workers (Inr (Inr outs)) ex'
     \<and> get_or 0 (Balance 2) (aggregate_deltas [(Delta 2 1, 30)] (outputs_to_state outs)) = 30"
proof -
  let ?outs = "machine_run mix sharded_machine sample_block"
  obtain r ex' where "execute_transactions_parallel (stablecoin_vm mix sharded_machine) sample_block two_workers r ex'"
    using sample_runs(2) sample_ok(5) by blast
  with parallel_machine_run[OF this sample_ok(4)]
  have run: "execute_transactions_parallel (stablecoin_vm mix sharded_machine) sample_block two_workers (Inr (Inr ?outs)) ex'"
    by simp
  have "funded_balance sharded_machine = 0" by (simp add: sharded_machine_def)
  from aggregated_state_is_serial[OF run sample_ok(4,2) this sample_ok(3) sample_delta_entries, of 2]
  have "get_or 0 (Balance 2) (aggregate_deltas [(Delta 2 1, 30)] (outputs_to_state ?outs))
      = get_or 0 (Balance 2) (serial_execute sample_block)" by blast
  moreover have "get_or 0 (Balance 2) (serial_execute sample_block) = 30" by code_simp
  ultimately show ?thesis using run by metis
qed

text \<open>
  C8. The parallel run counts as successful exactly as many transactions as the counting serial
  executor, so the success rates the two report are comparable.
\<close>

theorem parallel_success_count:
  assumes "execute_transactions_parallel (stablecoin_vm hash64 mach) txs ex (Inr (Inr outs)) ex'" and "0 < num_cpus ex"
    and "executor_ok mach" and "list_all no_self_transfer txs"
  shows "count_parallel_outcomes outs = snd (serial_execute_counted txs (funded_balance mach))"
proof -
  have outs: "outs = machine_run hash64 mach txs" using parallel_machine_run[OF assms(1,2)] by simp
  have "length outs = length txs" unfolding outs by simp
  moreover have "length (filter (\<lambda>out. writes out \<noteq> []) outs) = successes (funded_balance mach) txs Map.empty"
    unfolding outs by (rule block_successes[OF assms(3) refines_empty assms(4)])
  ultimately show ?thesis by (simp add: count_parallel_outcomes_def serial_counted)
qed

theorem parallel_success_count_witness:
  "\<exists>outs ex'. execute_transactions_parallel (stablecoin_vm mix plain_machine) sample_block two_workers (Inr (Inr outs)) ex'
     \<and> count_parallel_outcomes outs = \<lparr>total_txns = 2, successful = 2\<rparr>"
proof -
  obtain r ex' where run: "execute_transactions_parallel (stablecoin_vm mix plain_machine) sample_block two_workers r ex'"
    using sample_runs(1) sample_ok(5) by blast
  with parallel_machine_run[OF run sample_ok(4)] obtain outs where
    "execute_transactions_parallel (stablecoin_vm mix plain_machine) sample_block two_workers (Inr (Inr outs)) ex'" by blast
  moreover have "snd (serial_execute_counted sample_block (funded_balance plain_machine)) = \<lparr>total_txns = 2, successful = 2\<rparr>"
    by code_simp
  ultimately show ?thesis using parallel_success_count[OF _ sample_ok(4,1,3)] by metis
qed

section \<open>The serial reference\<close>

text \<open>
  C9. Conservation: over any finite set of accounts that holds the accounts of the block, the
  sum of the balances after a block of mints, burns and transfers between different accounts is
  the sum of the initial grants plus the total supply, modulo \<open>2 ^ 64\<close>, as the code computes on
  64-bit words. Self-transfers are excluded: they create money.
\<close>

theorem serial_conservation:
  assumes "finite A" and "\<forall>tx \<in> set txs. touched tx \<subseteq> A \<and> conserving tx"
  shows "balance_sum fb A (serial_execute_with_balance txs fb)
    = of_nat (card A) * fb + get_or 0 TotalSupply (serial_execute_with_balance txs fb)"
proof -
  have "balance_sum fb A Map.empty = of_nat (card A) * fb" by (simp add: balance_sum_def get_or_def)
  moreover have "get_or 0 TotalSupply Map.empty = 0" by (simp add: get_or_def)
  ultimately show ?thesis
    using fold_conserves[OF assms(1), of txs fb Map.empty] assms(2)
    by (simp add: serial_execute_with_balance_def algebra_simps)
qed

definition mint_block :: "StablecoinTx list" where
  "mint_block =
     [\<lparr>tx_type = Mint 1 50, nonce = 0, tx_hash = 1\<rparr>, \<lparr>tx_type = Transfer 1 2 20, nonce = 0, tx_hash = 2\<rparr>,
      \<lparr>tx_type = Burn 2 5, nonce = 1, tx_hash = 3\<rparr>]"

theorem serial_conservation_witness:
  "balance_sum 7 {1, 2, 3} (serial_execute_with_balance mint_block 7) = 3 * 7 + 45"
proof -
  have "\<forall>tx \<in> set mint_block. touched tx \<subseteq> {1, 2, 3} \<and> conserving tx"
    by (simp add: mint_block_def touched_def conserving_def no_self_transfer_def)
  from serial_conservation[OF _ this, of 7] have
    "balance_sum 7 {1, 2, 3} (serial_execute_with_balance mint_block 7)
      = 3 * 7 + get_or 0 TotalSupply (serial_execute_with_balance mint_block 7)" by simp
  moreover have "get_or 0 TotalSupply (serial_execute_with_balance mint_block 7) = 45" by code_simp
  ultimately show ?thesis by simp
qed

text \<open>The value held in a set of accounts as a natural number.\<close>

definition value_held :: "u64 \<Rightarrow> u64 set \<Rightarrow> state \<Rightarrow> nat" where
  "value_held fb A st = (\<Sum>a \<in> A. unat (get_or fb (Balance a) st))"

lemma value_held_upd:
  assumes "finite A" and "b \<in> A"
  shows "value_held fb A (st(Balance b \<mapsto> v)) + unat (get_or fb (Balance b) st) = value_held fb A st + unat v"
proof -
  have "(\<Sum>a \<in> A - {b}. unat (get_or fb (Balance a) (st(Balance b \<mapsto> v)))) = (\<Sum>a \<in> A - {b}. unat (get_or fb (Balance a) st))"
    by (rule sum.cong) auto
  then show ?thesis using assms by (simp add: value_held_def sum.remove[of A b])
qed

lemma value_held_ge:
  assumes "finite A" and "s \<in> A" and "r \<in> A" and "s \<noteq> r"
  shows "unat (get_or fb (Balance s) st) + unat (get_or fb (Balance r) st) \<le> value_held fb A st"
proof -
  have "(\<Sum>a \<in> {s, r}. unat (get_or fb (Balance a) st)) \<le> value_held fb A st"
    unfolding value_held_def by (rule sum_mono2) (use assms in auto)
  with assms(4) show ?thesis by simp
qed

lemma value_held_nonce [simp]: "value_held fb A (st(Nonce a \<mapsto> v)) = value_held fb A st"
  by (simp add: value_held_def)

lemma transfer_value_held:
  assumes A: "finite A" "s \<in> A" "r \<in> A" and tx: "tx_type tx = Transfer s r v" and ne: "s \<noteq> r"
    and small: "value_held fb A st < 2 ^ 64"
  shows "value_held fb A (snd (serial_step fb tx st)) = value_held fb A st"
proof (cases "v \<le> get_or fb (Balance s) st")
  case True
  let ?b = "get_or fb (Balance s) st" and ?c = "get_or fb (Balance r) st"
  let ?mid = "st(Balance s \<mapsto> ?b - v)"
  have sub: "unat (?b - v) = unat ?b - unat v" "unat v \<le> unat ?b"
    using True by (simp_all add: unat_sub word_le_nat_alt)
  have "unat ?c + unat v < 2 ^ 64" using value_held_ge[OF A ne, of fb st] sub(2) small by simp
  then have add: "unat (?c + v) = unat ?c + unat v" by (simp add: unat_word_ariths)
  have "get_or fb (Balance r) ?mid = ?c" using ne by simp
  then have "value_held fb A (?mid(Balance r \<mapsto> ?c + v)) = value_held fb A st"
    using value_held_upd[OF A(1,2), of fb st "?b - v"] value_held_upd[OF A(1,3), of fb ?mid "?c + v"] sub add by simp
  with True show ?thesis by (simp add: serial_step_def tx Let_def)
qed (simp add: serial_step_def tx Let_def)

text \<open>
  C10. Transfers never wrap around: when the value held in a finite set of accounts fits in 64
  bits, a block of transfers whose sender and receiver are different accounts of the set keeps that
  value exactly, as a natural number, so no credit overflows and no debit underflows.
\<close>

theorem transfers_never_wrap:
  assumes "finite A" and "\<forall>tx \<in> set txs. \<exists>s r v. tx_type tx = Transfer s r v \<and> s \<in> A \<and> r \<in> A \<and> s \<noteq> r"
    and "value_held fb A Map.empty < 2 ^ 64"
  shows "value_held fb A (serial_execute_with_balance txs fb) = card A * unat fb"
proof -
  have "value_held fb A (fold (\<lambda>tx st. snd (serial_step fb tx st)) txs st) = value_held fb A st"
    if "value_held fb A st < 2 ^ 64" for st
    using assms(2) that
  proof (induction txs arbitrary: st)
    case (Cons tx txs)
    then obtain s r v where tx: "tx_type tx = Transfer s r v" "s \<in> A" "r \<in> A" "s \<noteq> r" by auto
    have step: "value_held fb A (snd (serial_step fb tx st)) = value_held fb A st"
      by (rule transfer_value_held[OF assms(1) tx(2,3,1,4) Cons.prems(2)])
    with Cons show ?case by simp
  qed simp
  from this[OF assms(3)] show ?thesis
    by (simp add: serial_execute_with_balance_def value_held_def get_or_def)
qed

theorem transfers_never_wrap_witness:
  "value_held 100 {1, 2} (serial_execute_with_balance
     [\<lparr>tx_type = Transfer 1 2 30, nonce = 0, tx_hash = 1\<rparr>, \<lparr>tx_type = Transfer 2 1 500, nonce = 0, tx_hash = 2\<rparr>] 100) = 200"
  using transfers_never_wrap[of "{1, 2}"
      "[\<lparr>tx_type = Transfer 1 2 30, nonce = 0, tx_hash = 1\<rparr>, \<lparr>tx_type = Transfer 2 1 500, nonce = 0, tx_hash = 2\<rparr>]" 100]
  by (simp add: value_held_def get_or_def)

text \<open>
  C11. A self-transfer creates money in the serial reference: the debit is overwritten by a credit
  computed from the balance before it.
\<close>

theorem self_transfer_creates_money:
  assumes "v \<le> get_or fb (Balance a) st" and "tx_type tx = Transfer a a v"
  shows "get_or fb (Balance a) (snd (serial_step fb tx st)) = get_or fb (Balance a) st + v"
  using assms by (simp add: serial_step_def Let_def)

theorem self_transfer_creates_money_witness:
  "get_or 0 (Balance 1) (snd (serial_step 0 \<lparr>tx_type = Transfer 1 1 30, nonce = 1, tx_hash = 12\<rparr> [Balance 1 \<mapsto> 100])) = 130"
  using self_transfer_creates_money[of 30 0 1 "[Balance 1 \<mapsto> 100]" "\<lparr>tx_type = Transfer 1 1 30, nonce = 1, tx_hash = 12\<rparr>"]
  by (simp add: get_or_def)

definition ended_with :: "fault \<Rightarrow> 'a rust \<Rightarrow> bool" where
  "ended_with f r = (case r of Inl g \<Rightarrow> g = f | Inr _ \<Rightarrow> False)"

text \<open>
  A self-transfer stops the parallel engine: its output writes the balance twice, and
  the multi-version memory asserts that an incarnation writes a key once, so a schedule of the
  two workers ends in a panic.
\<close>

theorem self_transfer_panics:
  "run_schedule (stablecoin_vm mix plain_machine) self_block [0, 0, 0, 0, 0, 0]
     (block_start two_workers self_block) = Inl AssertFailed"
proof -
  have "ended_with AssertFailed (run_schedule (stablecoin_vm mix plain_machine) self_block [0, 0, 0, 0, 0, 0]
     (block_start two_workers self_block))" by code_simp
  then show ?thesis by (simp add: ended_with_def split: sum.splits)
qed

section \<open>Hot accounts\<close>



end
