(* ===== verification/OrderingProperties.thy ===== *)
theory OrderingProperties
  imports ParallelExecutor Cado DomainPlan
begin

text \<open>
  The properties of what runs around the engine: the deterministic order of a block, its
  segments for the scheduler, and the window of the backpressure controller from block to block.
\<close>

definition mixed_block :: "StablecoinTx list" where
  "mixed_block =
     [\<lparr>tx_type = Transfer 3 1 5, nonce = 0, tx_hash = 31\<rparr>, \<lparr>tx_type = Transfer 1 2 5, nonce = 0, tx_hash = 11\<rparr>,
      \<lparr>tx_type = Transfer 3 2 5, nonce = 1, tx_hash = 32\<rparr>, \<lparr>tx_type = Transfer 1 3 5, nonce = 1, tx_hash = 12\<rparr>]"

lemma mixed_block_length: "length mixed_block = 4" "mixed_block \<noteq> []"
  by (simp_all add: mixed_block_def)

section \<open>Deterministic order\<close>

text \<open>A key that starts with the same component everywhere sorts by the rest.\<close>

lemma sort_key_same_prefix:
  assumes "\<And>x. x \<in> set xs \<Longrightarrow> f x = c"
  shows "sort_key (\<lambda>x. (f x, g x)) xs = sort_key g xs"
proof (rule properties_for_sort_key)
  show "mset (sort_key g xs) = mset xs" by simp
  show "sorted (map (\<lambda>x. (f x, g x)) (sort_key g xs))"
  proof -
    have "map (\<lambda>x. (f x, g x)) (sort_key g xs) = map (Pair c) (map g (sort_key g xs))" using assms by simp
    moreover have "sorted (map (Pair c) ys)" if "sorted ys" for ys :: "'c list"
      using that by (induction ys) auto
    ultimately show ?thesis using sorted_sort_key[of g xs] by metis
  qed
  fix k assume "k \<in> set (sort_key g xs)"
  have "filter (\<lambda>x. (f k, g k) = (f x, g x)) ys = filter (\<lambda>x. f k = f x) (filter (\<lambda>x. g x = g k) ys)" for ys
    by (auto intro!: filter_cong)
  then show "filter (\<lambda>x. (f k, g k) = (f x, g x)) (sort_key g xs) = filter (\<lambda>x. (f k, g k) = (f x, g x)) xs"
    by (simp only: sort_key_stable)
qed

text \<open>
  C13. The concatenating order is a stable sort of the block without its repeated keys, by
  domain hash, sender, nonce and transaction hash: the grouping in a tree map and the sorting of
  each group compute nothing else.
\<close>

theorem cado_is_stable_sort:
  "cado_ordering hash64 txs =
     sort_key (\<lambda>tx. (hash64 (conflict_domain tx), sender tx, nonce tx, tx_hash tx)) (retain_unseen {} txs)"
  by (simp add: cado_ordering_def sorted_groups_concat domain_hash_def intra_key_def)

lemma cado_with_mode_perm:
  assumes "mset xs = mset ys" and "distinct (map tx_key xs)" and "mode \<noteq> Disabled"
  shows "cado_with_mode hash64 mode xs = cado_with_mode hash64 mode ys"
proof -
  have "mset (map tx_key xs) = mset (map tx_key ys)" using assms(1) by simp
  then have dy: "distinct (map tx_key ys)" using assms(2) mset_eq_imp_distinct_iff by blast
  have ids: "retain_unseen {} xs = xs" "retain_unseen {} ys = ys"
    using retain_unseen_id[OF assms(2), of "{}"] retain_unseen_id[OF dy, of "{}"] by simp_all
  have "sorted_groups hash64 xs = sorted_groups hash64 ys"
    by (rule sorted_groups_perm[OF assms(1) tx_key_inj[OF assms(2)]])
  with ids assms(3) show ?thesis by (cases mode) (simp_all add: cado_with_mode_def cado_ordering_def cado_interleave_def)
qed

text \<open>
  C14. The order is deterministic: two nodes that hold the same transactions in different orders
  compute the same block, in both modes, as long as no sender used a nonce twice.
\<close>

theorem cado_deterministic:
  assumes "mset xs = mset ys" and "distinct (map (\<lambda>tx. (sender tx, nonce tx)) xs)" and "mode \<noteq> Disabled"
  shows "cado_with_mode hash64 mode xs = cado_with_mode hash64 mode ys"
  using assms by (rule cado_with_mode_perm)

theorem cado_deterministic_witness:
  "cado_with_mode (\<lambda>x. x * 3 + 1) Interleave mixed_block = cado_with_mode (\<lambda>x. x * 3 + 1) Interleave (rev mixed_block)"
  by (rule cado_deterministic) (simp_all add: mixed_block_def sender_def)

text \<open>
  C15. Nothing is lost and nothing is duplicated: a block put in order holds, for every sender and
  nonce of the input, exactly one transaction of the input with that sender and nonce.
\<close>

theorem cado_keeps_keys:
  assumes "mode \<noteq> Disabled"
  shows "(\<lambda>tx. (sender tx, nonce tx)) ` set (cado_with_mode hash64 mode txs) = (\<lambda>tx. (sender tx, nonce tx)) ` set txs
    \<and> distinct (map (\<lambda>tx. (sender tx, nonce tx)) (cado_with_mode hash64 mode txs))
    \<and> set (cado_with_mode hash64 mode txs) \<subseteq> set txs"
proof -
  have ms: "mset (cado_with_mode hash64 mode txs) = mset (retain_unseen {} txs)"
    using assms mset_cado by (cases mode) (simp_all add: cado_with_mode_def)
  then have s: "set (cado_with_mode hash64 mode txs) = set (retain_unseen {} txs)" by (rule mset_eq_setD)
  from ms have "mset (map tx_key (cado_with_mode hash64 mode txs)) = mset (map tx_key (retain_unseen {} txs))" by simp
  then have "distinct (map tx_key (cado_with_mode hash64 mode txs)) = distinct (map tx_key (retain_unseen {} txs))"
    by (rule mset_eq_imp_distinct_iff)
  then have "distinct (map tx_key (cado_with_mode hash64 mode txs))" using retain_unseen_distinct by simp
  with s retain_unseen_keys[of "{}" txs] retain_unseen_set[of "{}" txs] show ?thesis by simp
qed

theorem cado_keeps_keys_witness:
  "set (cado_with_mode (\<lambda>x. x * 3 + 1) Concatenate mixed_block) \<subseteq> set mixed_block
   \<and> (1, 1) \<in> (\<lambda>tx. (sender tx, nonce tx)) ` set (cado_with_mode (\<lambda>x. x * 3 + 1) Concatenate mixed_block)"
proof -
  have "(1, 1) \<in> (\<lambda>tx. (sender tx, nonce tx)) ` set mixed_block"
    by (simp add: mixed_block_def sender_def)
  with cado_keeps_keys[of Concatenate "\<lambda>x. x * 3 + 1" mixed_block] show ?thesis by simp
qed

text \<open>
  C16. The interleaving order takes the domains in turns but never reorders one: on the
  transactions of a domain hash it agrees with the concatenating order.
\<close>

theorem interleave_keeps_domain_order:
  "filter (\<lambda>tx. hash64 (conflict_domain tx) = d) (cado_interleave hash64 txs)
   = filter (\<lambda>tx. hash64 (conflict_domain tx) = d) (cado_ordering hash64 txs)"
proof -
  have "filter (\<lambda>tx. tx_domain hash64 tx = d) (cado_ordering hash64 txs)
      = sort_key (\<lambda>tx. (tx_domain hash64 tx, intra_key tx)) (filter (\<lambda>tx. tx_domain hash64 tx = d) (retain_unseen {} txs))"
    by (simp add: cado_ordering_def sorted_groups_concat filter_sort)
  also have "\<dots> = domain_group hash64 (retain_unseen {} txs) d"
    unfolding domain_group_def by (rule sort_key_same_prefix) simp
  finally show ?thesis using interleave_domain[of hash64 d txs] by (simp add: domain_hash_def)
qed

section \<open>Segments\<close>

lemma contiguous_nth:
  "contiguous s gs n \<Longrightarrow> Suc j < length gs \<Longrightarrow> seg_start (gs ! Suc j) = seg_end (gs ! j)"
proof (induction gs arbitrary: s j)
  case (Cons g gs)
  then show ?case by (cases j; cases gs) auto
qed simp

text \<open>
  C17. The plan partitions the block: its segments follow one another from the first transaction
  to the last, each holds between one and \<open>l\<close> transactions of one domain, and a segment ends
  only at the end of the block, at a change of domain or at \<open>l\<close>.
\<close>

theorem plan_partitions_block:
  assumes "txs \<noteq> []" and "0 < l"
  shows "(let gs = segments (build_domain_plan txs l) in
    contiguous 0 gs (length txs) \<and>
    (\<forall>g \<in> set gs. seg_end g - seg_start g \<le> l \<and>
       (\<forall>i. seg_start g \<le> i \<and> i < seg_end g \<longrightarrow> conflict_domain (txs ! i) = seg_domain g) \<and>
       (seg_end g < length txs \<longrightarrow>
          conflict_domain (txs ! seg_end g) \<noteq> seg_domain g \<or> seg_end g - seg_start g = l)))"
proof -
  let ?gs = "build_segments txs l 0"
  have "seg_end g - seg_start g \<le> l \<and>
       (\<forall>i. seg_start g \<le> i \<and> i < seg_end g \<longrightarrow> conflict_domain (txs ! i) = seg_domain g) \<and>
       (seg_end g < length txs \<longrightarrow>
          conflict_domain (txs ! seg_end g) \<noteq> seg_domain g \<or> seg_end g - seg_start g = l)"
    if "g \<in> set ?gs" for g
    using build_segments_stretch[OF that] assms(2) by (auto simp: stretch_def max_def split: if_splits)
  with build_segments_contiguous[of 0 txs l] show ?thesis
    by (simp add: build_domain_plan_segments)
qed

theorem plan_partitions_block_witness:
  "contiguous 0 (segments (build_domain_plan mixed_block 2)) 4"
  using plan_partitions_block[OF mixed_block_length(2), of 2] by (simp add: mixed_block_length Let_def)



section \<open>Backpressure from block to block\<close>

lemma controller_new_factors: "factory_factors (controller_new initial lo hi)"
  unfolding factory_factors_def controller_new_def by (simp only: gamma_values BackpressureController.select_convs simp_thms)

lemma controller_new_ok:
  "lo \<le> initial \<Longrightarrow> initial \<le> hi \<Longrightarrow> hi < 2 ^ 53 \<Longrightarrow> window_ok (controller_new initial lo hi)"
  using controller_new_factors[of initial lo hi] by (simp add: window_ok_def controller_new_def)

lemma fold_adjust_ok: "window_ok c \<Longrightarrow> window_ok (fold adjust sts c)"
  by (induction sts arbitrary: c) (simp_all add: adjust_window_ok)

lemma fold_adjust_bounds: "w_min (fold adjust sts c) = w_min c" "w_max (fold adjust sts c) = w_max c"
  by (induction sts arbitrary: c) simp_all

text \<open>
  C19. The window stays in its range: whatever the blocks report, the window of a controller that
  starts between its bounds stays between them, with every product and truncation of the
  double-precision arithmetic taken into account.
\<close>

theorem window_stays_in_range:
  assumes "lo \<le> initial" and "initial \<le> hi" and "hi < 2 ^ 53"
  shows "lo \<le> window (fold adjust sts (controller_new initial lo hi))
    \<and> window (fold adjust sts (controller_new initial lo hi)) \<le> hi"
  using fold_adjust_ok[OF controller_new_ok[OF assms], of sts] fold_adjust_bounds[of sts "controller_new initial lo hi"]
  by (simp add: window_ok_def window_def controller_new_def)

theorem window_stays_in_range_witness:
  "window (fold adjust [\<lparr>total_executions = 100, total_aborts = 50, total_waits = 0\<rparr>] (controller_new 32 4 64)) \<le> 64"
  by (rule window_stays_in_range[THEN conjunct2]) simp_all

text \<open>
  C20. A window that has shrunk to the default minimum of four never grows again: a fifth of four
  is lost in the truncation, however few aborts and waits the blocks report.
\<close>

theorem window_stuck_at_minimum:
  assumes "4 \<le> hi"
  shows "window (fold adjust sts (controller_new 4 4 hi)) = 4"
proof -
  have "w (fold adjust sts (controller_new 4 4 hi)) = 4"
  proof (induction sts rule: rev_induct)
    case (snoc st sts)
    let ?c = "fold adjust sts (controller_new 4 4 hi)"
    have "factory_factors ?c" using controller_new_factors[of 4 4 hi] by (induction sts rule: rev_induct) simp_all
    from adjust_stuck[OF this snoc.IH, of st] show ?case
      using assms fold_adjust_bounds[of sts "controller_new 4 4 hi"] by (simp add: controller_new_def)
  qed (simp add: controller_new_def)
  then show ?thesis by (simp add: window_def)
qed

theorem window_stuck_at_minimum_witness:
  "window (fold adjust (replicate 1000 \<lparr>total_executions = 100, total_aborts = 0, total_waits = 0\<rparr>) (controller_new 4 4 64)) = 4"
  by (rule window_stuck_at_minimum) simp

end
