(* ===== verification/Quorum.thy ===== *)
theory Quorum
  imports Prelude
begin

text \<open>
  What the protocols rely on when they count votes: the interface of a weighted quorum system,
  and what follows from it. The committees of the two consensus crates are its instances.
\<close>

locale quorum_system =
  fixes members :: "'a set" and weight :: "'a \<Rightarrow> nat" and quorum :: nat and faults :: nat
  assumes finite_members: "finite members"
    and quorum_large: "sum weight members + faults < 2 * quorum"
begin

lemma quorums_overlap:
  assumes "A \<subseteq> members" and "B \<subseteq> members" and "quorum \<le> sum weight A" and "quorum \<le> sum weight B"
  shows "faults < sum weight (A \<inter> B)"
proof -
  have fin: "finite A" "finite B" using assms(1,2) finite_members finite_subset by blast+
  have "sum weight (A \<union> B) + sum weight (A \<inter> B) = sum weight A + sum weight B"
    using fin by (rule sum.union_inter)
  moreover have "sum weight (A \<union> B) \<le> sum weight members"
    by (rule sum_mono2) (use assms(1,2) finite_members in auto)
  ultimately show ?thesis using assms(3,4) quorum_large by linarith
qed

lemma quorums_share_honest:
  assumes "A \<subseteq> members" and "B \<subseteq> members" and "quorum \<le> sum weight A" and "quorum \<le> sum weight B"
    and "sum weight (F \<inter> members) \<le> faults"
  shows "\<exists>m \<in> A \<inter> B. m \<notin> F"
proof (rule ccontr)
  assume "\<not> ?thesis"
  then have "A \<inter> B \<subseteq> F \<inter> members" using assms(1) by blast
  then have "sum weight (A \<inter> B) \<le> sum weight (F \<inter> members)"
    by (rule sum_mono2[rotated]) (use finite_members in auto)
  with quorums_overlap[OF assms(1-4)] assms(5) show False by simp
qed

end

text \<open>With a validity threshold: so much weight meets every quorum, and holds an honest member.\<close>

locale validity_system = quorum_system +
  fixes validity :: nat
  assumes validity_meets: "sum weight members < quorum + validity"
    and validity_honest: "faults < validity"
begin

lemma validity_meets_quorum:
  assumes "A \<subseteq> members" and "B \<subseteq> members" and "quorum \<le> sum weight A" and "validity \<le> sum weight B"
  shows "A \<inter> B \<noteq> {}"
proof
  assume "A \<inter> B = {}"
  moreover have "finite A" "finite B" using assms(1,2) finite_members finite_subset by blast+
  ultimately have "sum weight (A \<union> B) = sum weight A + sum weight B" by (simp add: sum.union_disjoint)
  moreover have "sum weight (A \<union> B) \<le> sum weight members"
    by (rule sum_mono2) (use assms(1,2) finite_members in auto)
  ultimately show False using assms(3,4) validity_meets by linarith
qed

lemma validity_has_honest:
  assumes "B \<subseteq> members" and "validity \<le> sum weight B" and "sum weight (F \<inter> members) \<le> faults"
  shows "\<exists>m \<in> B. m \<notin> F"
proof (rule ccontr)
  assume "\<not> ?thesis"
  then have "B \<subseteq> F \<inter> members" using assms(1) by blast
  then have "sum weight B \<le> sum weight (F \<inter> members)"
    by (rule sum_mono2[rotated]) (use finite_members in auto)
  with assms(2,3) validity_honest show False by simp
qed

end

section \<open>Collecting votes\<close>

text \<open>
  The interface of a vote collector: it holds the votes it accepted, one per voter, an accepted
  vote is appended, and from the threshold on the answer is a certificate.
  \<open>first_certificate\<close> is the loop that feeds votes until the first answer.
\<close>

fun first_certificate :: "('v \<Rightarrow> 'c \<Rightarrow> 'q option \<times> 'c) \<Rightarrow> 'v list \<Rightarrow> 'c \<Rightarrow> 'q option" where
  "first_certificate add [] c = None"
| "first_certificate add (v # vs) c =
     (case add v c of (Some q, _) \<Rightarrow> Some q | (None, c') \<Rightarrow> first_certificate add vs c')"

locale vote_collector =
  fixes votes_of :: "'c \<Rightarrow> 'v list" and voter :: "'v \<Rightarrow> 'n" and accepts :: "'c \<Rightarrow> 'v \<Rightarrow> bool"
    and add :: "'v \<Rightarrow> 'c \<Rightarrow> 'q option \<times> 'c" and certificate :: "'c \<Rightarrow> 'q option"
    and threshold :: "'c \<Rightarrow> nat"
  assumes add_rejected: "\<not> accepts c v \<or> voter v \<in> voter ` set (votes_of c) \<Longrightarrow> add v c = (None, c)"
    and add_votes: "accepts c v \<Longrightarrow> voter v \<notin> voter ` set (votes_of c) \<Longrightarrow>
          votes_of (snd (add v c)) = votes_of c @ [v]"
    and add_accepts: "accepts (snd (add v c)) = accepts c"
    and add_threshold: "threshold (snd (add v c)) = threshold c"
    and add_certificate: "accepts c v \<Longrightarrow> voter v \<notin> voter ` set (votes_of c) \<Longrightarrow>
          fst (add v c) = (if threshold c \<le> length (votes_of c) + 1 then certificate (snd (add v c)) else None)"
    and add_certifiable: "certificate (snd (add v c)) = None \<longleftrightarrow> certificate c = None"
begin

definition collector_ok :: "'c \<Rightarrow> bool" where
  "collector_ok c \<longleftrightarrow> distinct (map voter (votes_of c)) \<and> list_all (accepts c) (votes_of c)"

lemma collector_ok_add:
  assumes "collector_ok c"
  shows "collector_ok (snd (add v c))"
proof (cases "accepts c v \<and> voter v \<notin> voter ` set (votes_of c)")
  case True
  with assms show ?thesis by (simp add: collector_ok_def add_votes add_accepts)
next
  case False
  with add_rejected assms show ?thesis by auto
qed

lemma collector_ok_fold:
  assumes "collector_ok c"
  shows "collector_ok (fold (\<lambda>v c. snd (add v c)) vs c)"
  using assms by (induction vs arbitrary: c) (simp_all add: collector_ok_add)

lemma fold_votes_subset: "set (votes_of (fold (\<lambda>v c. snd (add v c)) vs c)) \<subseteq> set (votes_of c) \<union> set vs"
proof (induction vs arbitrary: c)
  case (Cons v vs)
  have "set (votes_of (snd (add v c))) \<subseteq> insert v (set (votes_of c))"
    using add_rejected[of c v] add_votes[of c v] by (cases "accepts c v \<and> voter v \<notin> voter ` set (votes_of c)") auto
  with Cons[of "snd (add v c)"] show ?case by auto
qed simp

lemma certified_votes:
  assumes "collector_ok c" and "fst (add v c) = Some q"
  shows "certificate (snd (add v c)) = Some q"
    and "threshold c \<le> length (votes_of (snd (add v c)))"
    and "distinct (map voter (votes_of (snd (add v c))))"
    and "list_all (accepts c) (votes_of (snd (add v c)))"
proof -
  have acc: "accepts c v \<and> voter v \<notin> voter ` set (votes_of c)"
    using assms(2) add_rejected by force
  with assms(2) add_certificate[of c v] show "certificate (snd (add v c)) = Some q"
    by (auto split: if_splits)
  from acc assms(2) add_certificate[of c v] add_votes[of c v]
  show "threshold c \<le> length (votes_of (snd (add v c)))" by (auto split: if_splits)
  from collector_ok_add[OF assms(1), of v] show "distinct (map voter (votes_of (snd (add v c))))"
    "list_all (accepts c) (votes_of (snd (add v c)))"
    by (simp_all add: collector_ok_def add_accepts)
qed

text \<open>Feeding votes of new voters that are all accepted certifies exactly from the threshold on.\<close>

lemma fresh_votes:
  assumes "list_all (accepts c) vs" and "distinct (map voter (votes_of c @ vs))"
  shows "votes_of (fold (\<lambda>v c. snd (add v c)) vs c) = votes_of c @ vs"
  using assms
proof (induction vs arbitrary: c)
  case (Cons v vs)
  then have "votes_of (snd (add v c)) = votes_of c @ [v]" by (simp add: add_votes)
  with Cons show ?case by (simp add: add_accepts)
qed simp

lemma first_certificate_fresh:
  assumes "list_all (accepts c) vs" and "distinct (map voter (votes_of c @ vs))" and "certificate c \<noteq> None"
    and "length (votes_of c) < threshold c" and "threshold c \<le> length (votes_of c) + length vs"
  shows "first_certificate add vs c =
    certificate (fold (\<lambda>v c. snd (add v c)) (take (threshold c - length (votes_of c)) vs) c)"
  using assms
proof (induction vs arbitrary: c)
  case (Cons v vs)
  obtain q c' where a: "add v c = (q, c')" by fastforce
  have fresh: "accepts c v" "voter v \<notin> voter ` set (votes_of c)" using Cons.prems by auto
  have c': "votes_of c' = votes_of c @ [v]" "threshold c' = threshold c" "accepts c' = accepts c"
    "certificate c' \<noteq> None"
    using add_votes[OF fresh] add_threshold[of v c] add_accepts[of v c] add_certifiable[of v c] Cons.prems(3)
    by (simp_all add: a)
  have q: "q = (if threshold c \<le> length (votes_of c) + 1 then certificate c' else None)"
    using add_certificate[OF fresh] unfolding a fst_conv snd_conv .
  show ?case
  proof (cases "threshold c \<le> length (votes_of c) + 1")
    case True
    with Cons.prems(4) have "threshold c - length (votes_of c) = 1" by simp
    with True q c'(4) show ?thesis by (auto simp: a)
  next
    case False
    define m where "m = threshold c' - length (votes_of c')"
    with False c' have m: "threshold c - length (votes_of c) = Suc m" "threshold c' - length (votes_of c') = m"
      by simp_all
    have "first_certificate add vs c' = certificate (fold (\<lambda>v c. snd (add v c)) (take m vs) c')"
      using Cons.IH[of c'] Cons.prems False c' m(2) by auto
    with False q m show ?thesis by (simp add: a)
  qed
qed simp

text \<open>Every member of a committee votes once: the votes of the first quorum make the certificate.\<close>

lemma committee_certificate:
  assumes "distinct ids" and "\<And>i. voter (mk i) = i" and "\<And>i. accepts c (mk i)"
    and "votes_of c = []" and "certificate c \<noteq> None" and "0 < threshold c" and "threshold c \<le> length ids"
  defines "c' \<equiv> fold (\<lambda>v c. snd (add v c)) (map mk (take (threshold c) ids)) c"
  shows "first_certificate add (map mk ids) c = certificate c'"
    and "votes_of c' = map mk (take (threshold c) ids)"
proof -
  have ids: "distinct (map voter (votes_of c @ map mk xs))" if "distinct xs" for xs
    using that by (simp add: assms(2,4) comp_def)
  have acc: "list_all (accepts c) (map mk xs)" for xs by (simp add: list_all_iff assms(3))
  show "first_certificate add (map mk ids) c = certificate c'"
    using first_certificate_fresh[OF acc ids[OF assms(1)] assms(5)] assms(4,6,7) by (simp add: c'_def take_map)
  show "votes_of c' = map mk (take (threshold c) ids)"
    using fresh_votes[OF acc ids, of "take (threshold c) ids"] assms(1,4) by (simp add: c'_def)
qed

end

end
