(* ===== verification/Mp3Types.thy ===== *)
theory Mp3Types
  imports Bytes F64 Quorum
begin

text \<open>
  The messages and certificates of the MP3-BFT++ simulator (\<open>mp3bft/src/types.rs\<close>) and its
  committee and parameters (\<open>mp3bft/src/config.rs\<close>). \<open>sha256\<close> is the digest function of the
  \<open>sha2\<close> crate; signatures are simulated by the source as a digest tagged with its signer.
\<close>

type_synonym NodeId = u64
type_synonym Slot = u64
type_synonym ViewNo = u64
type_synonym Height = u64
type_synonym BucketId = u64
type_synonym WorkerId = u64

section \<open>Digests and signatures\<close>

type_synonym DigestBytes = "u8 list"

definition digest_zero :: DigestBytes where
  "digest_zero = replicate 32 0"

definition digest_hash :: "(u8 list \<Rightarrow> u8 list) \<Rightarrow> u8 list \<Rightarrow> DigestBytes" where
  "digest_hash sha256 data = sha256 data"

definition hash_fields :: "(u8 list \<Rightarrow> u8 list) \<Rightarrow> u8 list list \<Rightarrow> DigestBytes" where
  "hash_fields sha256 fields = sha256 (concat fields)"

record Signature =
  signer :: NodeId
  sig_digest :: DigestBytes

definition sign :: "(u8 list \<Rightarrow> u8 list) \<Rightarrow> NodeId \<Rightarrow> u8 list \<Rightarrow> Signature" where
  "sign sha256 node_id data = \<lparr>signer = node_id, sig_digest = digest_hash sha256 data\<rparr>"

section \<open>Batches and availability\<close>

record Batch =
  batch_id :: DigestBytes
  batch_worker :: WorkerId
  batch_transactions :: "u8 list list"

definition batch_new :: "(u8 list \<Rightarrow> u8 list) \<Rightarrow> WorkerId \<Rightarrow> u8 list list \<Rightarrow> Batch" where
  "batch_new sha256 worker_id txs =
     \<lparr>batch_id = digest_hash sha256 (to_le_bytes worker_id @ concat txs),
      batch_worker = worker_id, batch_transactions = txs\<rparr>"

definition num_transactions :: "Batch \<Rightarrow> usize" where
  "num_transactions b = length (batch_transactions b)"

record AvailCert =
  batch_digest :: DigestBytes
  cert_worker :: WorkerId
  cert_signatures :: "Signature list"

definition avail_cert_digest :: "(u8 list \<Rightarrow> u8 list) \<Rightarrow> AvailCert \<Rightarrow> DigestBytes" where
  "avail_cert_digest sha256 c = hash_fields sha256 [batch_digest c, to_le_bytes (cert_worker c)]"

definition avail_cert_verify :: "AvailCert \<Rightarrow> usize \<Rightarrow> bool" where
  "avail_cert_verify c threshold = (length (cert_signatures c) \<ge> threshold)"

section \<open>Slot level\<close>

record BucketRange =
  range_start :: BucketId
  range_end :: BucketId

definition range_contains :: "BucketRange \<Rightarrow> BucketId \<Rightarrow> bool" where
  "range_contains r b = (b \<ge> range_start r \<and> b < range_end r)"

record BlockletProposal =
  bp_view :: ViewNo
  bp_slot :: Slot
  proposer :: NodeId
  avail_certs :: "DigestBytes list"
  bucket_range :: BucketRange
  bp_digest :: DigestBytes

definition proposal_digest_of ::
  "(u8 list \<Rightarrow> u8 list) \<Rightarrow> ViewNo \<Rightarrow> Slot \<Rightarrow> NodeId \<Rightarrow> DigestBytes list \<Rightarrow> DigestBytes" where
  "proposal_digest_of sha256 v s p certs =
     digest_hash sha256 (to_le_bytes v @ to_le_bytes s @ to_le_bytes p @ concat certs)"

record SlotVote =
  sv_view :: ViewNo
  sv_slot :: Slot
  sv_digest :: DigestBytes
  sv_voter :: NodeId
  sv_signature :: Signature

record SlotQC =
  sq_view :: ViewNo
  sq_slot :: Slot
  sq_digest :: DigestBytes
  sq_proposal :: BlockletProposal
  sq_votes :: "SlotVote list"

definition slot_qc_verify :: "SlotQC \<Rightarrow> usize \<Rightarrow> bool" where
  "slot_qc_verify qc threshold =
     (if length (sq_votes qc) < threshold then False
      else list_all (\<lambda>v. sv_digest v = sq_digest qc \<and> sv_view v = sq_view qc \<and> sv_slot v = sq_slot qc) (sq_votes qc))"

definition slot_qc_digest :: "(u8 list \<Rightarrow> u8 list) \<Rightarrow> SlotQC \<Rightarrow> DigestBytes" where
  "slot_qc_digest sha256 qc = hash_fields sha256 [to_le_bytes (sq_view qc), to_le_bytes (sq_slot qc), sq_digest qc]"

section \<open>Macro-block level\<close>

record SlotEntry =
  entry_slot :: Slot
  entry_qc_digest :: DigestBytes

record MacroHeader =
  mh_view :: ViewNo
  mh_height :: Height
  leader :: NodeId
  parent_qc :: "DigestBytes option"
  slot_entries :: "SlotEntry list"
  mh_digest :: DigestBytes

definition header_digest_of ::
  "(u8 list \<Rightarrow> u8 list) \<Rightarrow> ViewNo \<Rightarrow> Height \<Rightarrow> NodeId \<Rightarrow> DigestBytes option \<Rightarrow> SlotEntry list \<Rightarrow> DigestBytes" where
  "header_digest_of sha256 v h l parent entries =
     digest_hash sha256
       (to_le_bytes v @ to_le_bytes h @ to_le_bytes l @ (case parent of Some pqc \<Rightarrow> pqc | None \<Rightarrow> []) @
        concat (map (\<lambda>e. to_le_bytes (entry_slot e) @ entry_qc_digest e) entries))"

record MacroVote =
  mv_view :: ViewNo
  mv_height :: Height
  mv_digest :: DigestBytes
  mv_voter :: NodeId
  mv_signature :: Signature

record MacroQC =
  mq_view :: ViewNo
  mq_height :: Height
  mq_digest :: DigestBytes
  mq_header :: MacroHeader
  mq_votes :: "MacroVote list"

definition macro_qc_verify :: "MacroQC \<Rightarrow> usize \<Rightarrow> bool" where
  "macro_qc_verify qc threshold =
     (if length (mq_votes qc) < threshold then False
      else list_all (\<lambda>v. mv_digest v = mq_digest qc \<and> mv_view v = mq_view qc \<and> mv_height v = mq_height qc) (mq_votes qc))"

definition macro_qc_digest :: "(u8 list \<Rightarrow> u8 list) \<Rightarrow> MacroQC \<Rightarrow> DigestBytes" where
  "macro_qc_digest sha256 qc = hash_fields sha256 [to_le_bytes (mq_view qc), to_le_bytes (mq_height qc), mq_digest qc]"

record NewViewMessage =
  new_view :: ViewNo
  nv_sender :: NodeId
  nv_high_qc :: "MacroQC option"
  nv_signature :: Signature

record CommittedBlock =
  cb_height :: Height
  cb_view :: ViewNo
  cb_header :: MacroHeader
  cb_qc :: MacroQC
  cb_slot_qcs :: "SlotQC list"

section \<open>Committee and parameters\<close>

record Authority =
  auth_id :: NodeId
  auth_stake :: u64

record Committee =
  authorities :: "(NodeId \<times> Authority) list"

definition committee_new :: "NodeId list \<Rightarrow> Committee" where
  "committee_new ids =
     \<lparr>authorities = fold (\<lambda>i m. btree_insert i \<lparr>auth_id = i, auth_stake = 1\<rparr> m) ids []\<rparr>"

definition committee_size :: "Committee \<Rightarrow> usize" where
  "committee_size c = length (authorities c)"

definition total_stake :: "Committee \<Rightarrow> u64" where
  "total_stake c = sum_list (map (auth_stake \<circ> snd) (authorities c))"

definition quorum_threshold :: "Committee \<Rightarrow> usize" where
  "quorum_threshold c = 2 * committee_size c div 3 + 1"

definition validity_threshold :: "Committee \<Rightarrow> usize" where
  "validity_threshold c = committee_size c div 3 + 1"

definition max_faults :: "Committee \<Rightarrow> usize" where
  "max_faults c = usize_sub (committee_size c) 1 div 3"

definition node_ids :: "Committee \<Rightarrow> NodeId list" where
  "node_ids c = map fst (authorities c)"

definition committee_contains :: "Committee \<Rightarrow> NodeId \<Rightarrow> bool" where
  "committee_contains c i = (map_of (authorities c) i \<noteq> None)"

text \<open>Durations are milliseconds.\<close>

record MP3BFTConfig =
  k_slots :: usize
  n_buckets :: usize
  m_max :: usize
  s_batch :: usize
  delta_slot :: nat
  delta_col :: nat
  t_initial :: nat
  t_max :: nat
  rho :: rat
  ordering_rule_id :: u32
  network_latency :: nat

definition mp3_config_default :: MP3BFTConfig where
  "mp3_config_default =
     \<lparr>k_slots = 8, n_buckets = 16384, m_max = 32, s_batch = 1000, delta_slot = 200, delta_col = 500,
      t_initial = 5000, t_max = 60000, rho = 3 / 2, ordering_rule_id = 1, network_latency = 0\<rparr>"

section \<open>Committees\<close>

definition committee_ok :: "Committee \<Rightarrow> bool" where
  "committee_ok c \<longleftrightarrow> sorted_wrt (<) (node_ids c) \<and> node_ids c \<noteq> []"

lemma committee_new_keys:
  "set (node_ids (committee_new ids)) = set ids" "sorted_wrt (<) (node_ids (committee_new ids))"
proof -
  have "set (map fst (fold (\<lambda>i m. btree_insert i (f i) m) ids es)) = set ids \<union> set (map fst es) \<and>
      (sorted_wrt (<) (map fst es) \<longrightarrow> sorted_wrt (<) (map fst (fold (\<lambda>i m. btree_insert i (f i) m) ids es)))"
    for es :: "(NodeId \<times> Authority) list" and f
    by (induction ids arbitrary: es) (simp_all add: btree_insert_sorted)
  from this[of "\<lambda>i. \<lparr>auth_id = i, auth_stake = 1\<rparr>" "[]"] show
    "set (node_ids (committee_new ids)) = set ids" "sorted_wrt (<) (node_ids (committee_new ids))"
    by (simp_all add: node_ids_def committee_new_def)
qed

lemma committee_new_ok: "ids \<noteq> [] \<Longrightarrow> committee_ok (committee_new ids)"
  using committee_new_keys[of ids] by (auto simp: committee_ok_def)

lemma committee_size_ids: "committee_size c = length (node_ids c)"
  by (simp add: committee_size_def node_ids_def)

lemma committee_ok_distinct: "committee_ok c \<Longrightarrow> distinct (node_ids c)"
  by (simp add: committee_ok_def strict_sorted_iff)

text \<open>A committee is a quorum system in which every member weighs one.\<close>

lemma committee_thresholds:
  assumes "0 < (n :: nat)"
  shows "n + (n - 1) div 3 < 2 * (2 * n div 3 + 1)" "n < (2 * n div 3 + 1) + (n div 3 + 1)" "(n - 1) div 3 < n div 3 + 1"
  using assms by presburger+

lemma committee_quorums:
  assumes "committee_ok c"
  shows "validity_system (set (node_ids c)) (\<lambda>_. 1) (quorum_threshold c) (max_faults c) (validity_threshold c)"
proof -
  let ?n = "length (node_ids c)"
  have n: "0 < ?n" and card: "card (set (node_ids c)) = ?n"
    using assms committee_ok_distinct[OF assms] by (simp_all add: committee_ok_def distinct_card)
  have "usize_sub ?n 1 = ?n - 1" using n by (simp only: usize_sub_def) (simp add: Suc_le_eq)
  then show ?thesis using committee_thresholds[OF n] card
    by unfold_locales
      (simp_all add: quorum_threshold_def max_faults_def validity_threshold_def committee_size_ids)
qed

interpretation mp3_quorum: validity_system "set (node_ids (committee_new (i # ids)))" "\<lambda>_. 1"
  "quorum_threshold (committee_new (i # ids))" "max_faults (committee_new (i # ids))"
  "validity_threshold (committee_new (i # ids))" for i ids
  by (rule committee_quorums) (simp add: committee_new_ok)

end
