(* ===== verification/SlotLayer.thy ===== *)
theory SlotLayer
  imports Mp3Types
begin

text \<open>
  The slot level of MP3-BFT++: the assignment of buckets to slots
  (\<open>mp3bft/src/control_plane/anti_duplication.rs\<close>), proposals, votes and their collector, and a
  whole round of the slots of a view (\<open>mp3bft/src/control_plane/slot_layer.rs\<close>).
\<close>

section \<open>Buckets\<close>

definition assign_buckets :: "ViewNo \<Rightarrow> usize \<Rightarrow> usize \<Rightarrow> BucketRange list rust" where
  "assign_buckets v nb k =
     rbind (rdiv nb k) (\<lambda>per_slot.
     rbind (rrem (usize_mul (unat v) per_slot) nb) (\<lambda>offset.
       Inr (map (\<lambda>s. let start = usize_add offset (usize_mul s per_slot) mod nb
                     in \<lparr>range_start = of_nat start, range_end = of_nat (usize_add start per_slot)\<rparr>) [0..<k])))"

definition check_bucket_compliance :: "BlockletProposal \<Rightarrow> BucketRange \<Rightarrow> usize \<Rightarrow> bool" where
  "check_bucket_compliance p assigned nb = (bucket_range p = assigned)"

fun no_repeats :: "'a set \<Rightarrow> 'a list \<Rightarrow> bool" where
  "no_repeats seen [] = True"
| "no_repeats seen (d # ds) = (if d \<in> seen then False else no_repeats (insert d seen) ds)"

definition check_intra_slot_unique :: "BlockletProposal \<Rightarrow> bool" where
  "check_intra_slot_unique p = no_repeats {} (avail_certs p)"

definition tx_bucket :: "(u8 list \<Rightarrow> u8 list) \<Rightarrow> u8 list \<Rightarrow> usize \<Rightarrow> BucketId rust" where
  "tx_bucket sha256 tx nb =
     (let val = from_le_bytes (take 8 (digest_hash sha256 tx))
      in if (of_nat nb :: u64) = 0 then Inl DivideByZero else Inr (val mod of_nat nb))"

section \<open>Proposals and votes\<close>

text \<open>The proposer of a slot: the hash of view and slot picks a member of the committee.\<close>

definition slot_proposer :: "(u8 list \<Rightarrow> u8 list) \<Rightarrow> Committee \<Rightarrow> ViewNo \<Rightarrow> Slot \<Rightarrow> NodeId rust" where
  "slot_proposer sha256 c v s =
     (let ids = node_ids c;
          h = from_le_bytes (take 8 (digest_hash sha256 (to_le_bytes v @ to_le_bytes s)))
      in rbind (rrem (unat h) (length ids)) (vget ids))"

definition create_proposal ::
  "(u8 list \<Rightarrow> u8 list) \<Rightarrow> ViewNo \<Rightarrow> Slot \<Rightarrow> NodeId \<Rightarrow> DigestBytes list \<Rightarrow> MP3BFTConfig \<Rightarrow> BlockletProposal rust" where
  "create_proposal sha256 v s p certs config =
     rbind (assign_buckets v (n_buckets config) (k_slots config)) (\<lambda>ranges.
     rbind (rrem (unat s) (length ranges)) (\<lambda>i.
     rbind (vget ranges i) (\<lambda>range.
       let certs' = take (m_max config) certs
       in Inr \<lparr>bp_view = v, bp_slot = s, proposer = p, avail_certs = certs', bucket_range = range,
               bp_digest = proposal_digest_of sha256 v s p certs'\<rparr>)))"

definition validate_proposal ::
  "(u8 list \<Rightarrow> u8 list) \<Rightarrow> BlockletProposal \<Rightarrow> MP3BFTConfig \<Rightarrow> Committee \<Rightarrow> bool rust" where
  "validate_proposal sha256 p config c =
     rbind (slot_proposer sha256 c (bp_view p) (bp_slot p)) (\<lambda>expected.
       if proposer p \<noteq> expected then Inr False
       else
         rbind (assign_buckets (bp_view p) (n_buckets config) (k_slots config)) (\<lambda>ranges.
         rbind (rrem (unat (bp_slot p)) (length ranges)) (\<lambda>i.
         rbind (vget ranges i) (\<lambda>assigned.
           if \<not> check_bucket_compliance p assigned (n_buckets config) then Inr False
           else if \<not> check_intra_slot_unique p then Inr False
           else if length (avail_certs p) > m_max config then Inr False
           else Inr True))))"

definition vote_on_proposal :: "(u8 list \<Rightarrow> u8 list) \<Rightarrow> BlockletProposal \<Rightarrow> NodeId \<Rightarrow> SlotVote" where
  "vote_on_proposal sha256 p voter =
     \<lparr>sv_view = bp_view p, sv_slot = bp_slot p, sv_digest = bp_digest p, sv_voter = voter,
      sv_signature = sign sha256 voter (bp_digest p)\<rparr>"

section \<open>The collector\<close>

record SlotCollector =
  sc_view :: ViewNo
  sc_slot :: Slot
  sc_proposal :: "BlockletProposal option"
  sc_votes :: "SlotVote list"
  sc_threshold :: usize

definition slot_collector_new :: "ViewNo \<Rightarrow> Slot \<Rightarrow> usize \<Rightarrow> SlotCollector" where
  "slot_collector_new v s threshold =
     \<lparr>sc_view = v, sc_slot = s, sc_proposal = None, sc_votes = [], sc_threshold = threshold\<rparr>"

definition set_proposal :: "BlockletProposal \<Rightarrow> SlotCollector \<Rightarrow> SlotCollector" where
  "set_proposal p c = c\<lparr>sc_proposal := Some p\<rparr>"

definition slot_add_vote :: "SlotVote \<Rightarrow> SlotCollector \<Rightarrow> SlotQC option \<times> SlotCollector" where
  "slot_add_vote vote c =
     (if sv_view vote \<noteq> sc_view c \<or> sv_slot vote \<noteq> sc_slot c then (None, c)
      else if list_ex (\<lambda>v. sv_voter v = sv_voter vote) (sc_votes c) then (None, c)
      else
        let c1 = c\<lparr>sc_votes := sc_votes c @ [vote]\<rparr>
        in (if length (sc_votes c1) \<ge> sc_threshold c1
            then (case sc_proposal c1 of
                    Some p \<Rightarrow> Some \<lparr>sq_view = sc_view c1, sq_slot = sc_slot c1, sq_digest = bp_digest p,
                                    sq_proposal = p, sq_votes = sc_votes c1\<rparr>
                  | None \<Rightarrow> None)
            else None, c1))"

section \<open>All slots of a view\<close>

text \<open>The loop over the voters, left at the first certificate.\<close>

fun collect_slot_votes ::
  "(u8 list \<Rightarrow> u8 list) \<Rightarrow> MP3BFTConfig \<Rightarrow> Committee \<Rightarrow> BlockletProposal \<Rightarrow> NodeId list \<Rightarrow> SlotCollector
   \<Rightarrow> SlotQC option rust" where
  "collect_slot_votes sha256 config c p [] col = Inr None"
| "collect_slot_votes sha256 config c p (voter # voters) col =
     rbind (validate_proposal sha256 p config c) (\<lambda>valid.
       if valid
       then (case slot_add_vote (vote_on_proposal sha256 p voter) col of
               (Some qc, _) \<Rightarrow> Inr (Some qc)
             | (None, col') \<Rightarrow> collect_slot_votes sha256 config c p voters col')
       else collect_slot_votes sha256 config c p voters col)"

definition certs_per_slot :: "MP3BFTConfig \<Rightarrow> DigestBytes list \<Rightarrow> usize" where
  "certs_per_slot config certs =
     (if k_slots config > 0 then (length certs + k_slots config - 1) div k_slots config else length certs)"

definition slot_certs :: "MP3BFTConfig \<Rightarrow> DigestBytes list \<Rightarrow> usize \<Rightarrow> DigestBytes list" where
  "slot_certs config certs slot =
     (let start = slot * certs_per_slot config certs;
          stop = min (start + certs_per_slot config certs) (length certs)
      in if start < length certs then drop start (take stop certs) else [])"

definition run_slot ::
  "(u8 list \<Rightarrow> u8 list) \<Rightarrow> ViewNo \<Rightarrow> MP3BFTConfig \<Rightarrow> Committee \<Rightarrow> DigestBytes list \<Rightarrow> usize
   \<Rightarrow> SlotQC list \<Rightarrow> SlotQC list rust" where
  "run_slot sha256 v config c certs slot qcs =
     rbind (slot_proposer sha256 c v (of_nat slot)) (\<lambda>proposer_id.
     rbind (create_proposal sha256 v (of_nat slot) proposer_id (slot_certs config certs slot) config) (\<lambda>p.
     rbind (collect_slot_votes sha256 config c p (node_ids c)
              (set_proposal p (slot_collector_new v (of_nat slot) (quorum_threshold c)))) (\<lambda>res.
       Inr (case res of Some qc \<Rightarrow> qcs @ [qc] | None \<Rightarrow> qcs))))"

definition run_slot_consensus ::
  "(u8 list \<Rightarrow> u8 list) \<Rightarrow> ViewNo \<Rightarrow> MP3BFTConfig \<Rightarrow> Committee \<Rightarrow> DigestBytes list \<Rightarrow> SlotQC list rust" where
  "run_slot_consensus sha256 v config c certs =
     rfold (run_slot sha256 v config c certs) [0..<k_slots config] []"

section \<open>Laws of the collector\<close>

definition slot_certificate :: "SlotCollector \<Rightarrow> SlotQC option" where
  "slot_certificate c =
     (case sc_proposal c of
        Some p \<Rightarrow> Some \<lparr>sq_view = sc_view c, sq_slot = sc_slot c, sq_digest = bp_digest p,
                        sq_proposal = p, sq_votes = sc_votes c\<rparr>
      | None \<Rightarrow> None)"

interpretation slot_votes: vote_collector sc_votes sv_voter
  "\<lambda>c v. sv_view v = sc_view c \<and> sv_slot v = sc_slot c" slot_add_vote slot_certificate sc_threshold
  by unfold_locales
    (auto simp: slot_add_vote_def slot_certificate_def list_ex_iff Let_def image_iff split: option.splits)

lemma no_repeats_distinct: "no_repeats seen ds \<longleftrightarrow> distinct ds \<and> set ds \<inter> seen = {}"
  by (induction seen ds rule: no_repeats.induct) auto

section \<open>A round of slots\<close>

text \<open>The configurations and committees for which no operation of the slot level panics.\<close>

definition slots_ok :: "MP3BFTConfig \<Rightarrow> bool" where
  "slots_ok config \<longleftrightarrow> 0 < k_slots config \<and> k_slots config < 2 ^ 64 \<and> 0 < n_buckets config"

lemma assign_buckets_Inr:
  assumes "0 < k" and "0 < nb"
  obtains ranges where "assign_buckets v nb k = Inr ranges" and "length ranges = k"
  using assms by (auto simp: assign_buckets_def)

lemma slot_proposer_Inr:
  assumes "committee_ok c"
  obtains p where "slot_proposer sha256 c v s = Inr p" and "p \<in> set (node_ids c)"
  using assms by (auto simp: slot_proposer_def committee_ok_def Let_def)

lemma create_proposal_Inr:
  assumes "slots_ok config"
  obtains p where "create_proposal sha256 v s pid certs config = Inr p"
    and "bp_view p = v" and "bp_slot p = s" and "proposer p = pid" and "avail_certs p = take (m_max config) certs"
    and "bp_digest p = proposal_digest_of sha256 v s pid (avail_certs p)"
proof -
  have k: "0 < k_slots config" "0 < n_buckets config" using assms by (simp_all add: slots_ok_def)
  obtain ranges where "assign_buckets v (n_buckets config) (k_slots config) = Inr ranges"
    "length ranges = k_slots config" using k by (rule assign_buckets_Inr)
  with k that show thesis by (auto simp: create_proposal_def Let_def)
qed

lemma validate_created:
  assumes "slots_ok config" and "slot_proposer sha256 c v s = Inr pid"
    and "create_proposal sha256 v s pid certs config = Inr p"
  shows "validate_proposal sha256 p config c = Inr (distinct (avail_certs p))"
proof -
  have k: "0 < k_slots config" "0 < n_buckets config" using assms(1) by (simp_all add: slots_ok_def)
  obtain ranges where "assign_buckets v (n_buckets config) (k_slots config) = Inr ranges"
    "length ranges = k_slots config" using k by (rule assign_buckets_Inr)
  with k assms(2,3) show ?thesis
    by (auto simp: create_proposal_def validate_proposal_def Let_def check_bucket_compliance_def
        check_intra_slot_unique_def no_repeats_distinct)
qed

lemma collect_valid_votes:
  assumes "validate_proposal sha256 p config c = Inr True"
  shows "collect_slot_votes sha256 config c p voters col =
    Inr (first_certificate slot_add_vote (map (vote_on_proposal sha256 p) voters) col)"
  using assms by (induction voters arbitrary: col) (auto split: prod.split option.split)

lemma slot_fold_fields:
  "sc_view (fold (\<lambda>v c. snd (slot_add_vote v c)) vs c) = sc_view c"
  "sc_slot (fold (\<lambda>v c. snd (slot_add_vote v c)) vs c) = sc_slot c"
  "sc_proposal (fold (\<lambda>v c. snd (slot_add_vote v c)) vs c) = sc_proposal c"
proof -
  have "sc_view (snd (slot_add_vote v c)) = sc_view c \<and> sc_slot (snd (slot_add_vote v c)) = sc_slot c
      \<and> sc_proposal (snd (slot_add_vote v c)) = sc_proposal c" for v c
    by (simp add: slot_add_vote_def Let_def)
  then have "sc_view (fold (\<lambda>v c. snd (slot_add_vote v c)) vs c) = sc_view c
      \<and> sc_slot (fold (\<lambda>v c. snd (slot_add_vote v c)) vs c) = sc_slot c
      \<and> sc_proposal (fold (\<lambda>v c. snd (slot_add_vote v c)) vs c) = sc_proposal c"
    by (induction vs arbitrary: c) simp_all
  then show
    "sc_view (fold (\<lambda>v c. snd (slot_add_vote v c)) vs c) = sc_view c"
    "sc_slot (fold (\<lambda>v c. snd (slot_add_vote v c)) vs c) = sc_slot c"
    "sc_proposal (fold (\<lambda>v c. snd (slot_add_vote v c)) vs c) = sc_proposal c" by simp_all
qed

lemma quorum_le_size: "committee_ok c \<Longrightarrow> quorum_threshold c \<le> length (node_ids c)"
proof -
  assume "committee_ok c"
  then have "0 < length (node_ids c)" by (simp add: committee_ok_def)
  moreover have "0 < n \<Longrightarrow> 2 * n div 3 + 1 \<le> n" for n :: nat by presburger
  ultimately show ?thesis by (simp add: quorum_threshold_def committee_size_ids)
qed

text \<open>The certificate of one slot: the votes of the first quorum of the committee.\<close>

lemma collect_created:
  assumes c: "committee_ok c" and valid: "validate_proposal sha256 p config c = Inr True"
  shows "collect_slot_votes sha256 config c p (node_ids c)
      (set_proposal p (slot_collector_new (bp_view p) (bp_slot p) (quorum_threshold c))) =
    Inr (Some \<lparr>sq_view = bp_view p, sq_slot = bp_slot p, sq_digest = bp_digest p, sq_proposal = p,
               sq_votes = map (vote_on_proposal sha256 p) (take (quorum_threshold c) (node_ids c))\<rparr>)"
proof -
  let ?col = "set_proposal p (slot_collector_new (bp_view p) (bp_slot p) (quorum_threshold c))"
  let ?c = "fold (\<lambda>v c. snd (slot_add_vote v c)) (map (vote_on_proposal sha256 p) (take (quorum_threshold c) (node_ids c))) ?col"
  have col: "sc_votes ?col = []" "sc_view ?col = bp_view p" "sc_slot ?col = bp_slot p"
    "sc_threshold ?col = quorum_threshold c" "sc_proposal ?col = Some p" "slot_certificate ?col \<noteq> None"
    by (simp_all add: set_proposal_def slot_collector_new_def slot_certificate_def)
  have "first_certificate slot_add_vote (map (vote_on_proposal sha256 p) (node_ids c)) ?col = slot_certificate ?c"
    and "sc_votes ?c = map (vote_on_proposal sha256 p) (take (quorum_threshold c) (node_ids c))"
    using slot_votes.committee_certificate[of "node_ids c" "vote_on_proposal sha256 p" ?col]
      committee_ok_distinct[OF c] quorum_le_size[OF c] col
    by (simp_all add: vote_on_proposal_def quorum_threshold_def)
  then show ?thesis by (simp add: collect_valid_votes[OF valid] slot_certificate_def slot_fold_fields col)
qed

text \<open>The slots take consecutive slices of the certificates, and all of them together.\<close>

lemma slot_certs_slice:
  "slot_certs config certs s =
     drop (s * certs_per_slot config certs) (take (Suc s * certs_per_slot config certs) certs)"
  by (auto simp: slot_certs_def Let_def add.commute min_def)

lemma concat_slices: "concat (map (\<lambda>s. drop (s * m) (take (Suc s * m) xs)) [0..<j]) = take (j * m) xs"
proof (induction j)
  case (Suc j)
  have "take (j * m) xs @ drop (j * m) (take (Suc j * m) xs) = take (Suc j * m) xs"
  proof -
    have "take (j * m) (take (Suc j * m) xs) = take (j * m) xs" by (simp add: min_def)
    then show ?thesis using append_take_drop_id[of "j * m" "take (Suc j * m) xs"] by simp
  qed
  with Suc show ?case by simp
qed simp

lemma ceil_div_bound:
  assumes "0 < (k :: nat)"
  shows "n \<le> k * ((n + k - 1) div k)"
proof -
  have "(n + k - 1) mod k < k" using assms by simp
  moreover have "n + k - 1 = k * ((n + k - 1) div k) + (n + k - 1) mod k" by simp
  ultimately show ?thesis using assms by linarith
qed

lemma slot_certs_partition:
  assumes "0 < k_slots config"
  shows "concat (map (slot_certs config certs) [0..<k_slots config]) = certs"
proof -
  let ?k = "k_slots config" and ?m = "certs_per_slot config certs"
  have "?m = (length certs + ?k - 1) div ?k" using assms by (simp add: certs_per_slot_def)
  then have "length certs \<le> ?k * ?m"
    using ceil_div_bound[OF assms] by simp
  moreover have "slot_certs config certs = (\<lambda>s. drop (s * ?m) (take (Suc s * ?m) certs))"
    by (rule ext) (rule slot_certs_slice)
  ultimately show ?thesis by (simp only: concat_slices) simp
qed

lemma distinct_slot_certs:
  "distinct certs \<Longrightarrow> distinct (slot_certs config certs s)"
  by (simp add: slot_certs_slice)

definition slot_qc_ok ::
  "(u8 list \<Rightarrow> u8 list) \<Rightarrow> ViewNo \<Rightarrow> MP3BFTConfig \<Rightarrow> Committee \<Rightarrow> DigestBytes list \<Rightarrow> usize \<Rightarrow> SlotQC \<Rightarrow> bool" where
  "slot_qc_ok sha256 v config c certs s qc \<longleftrightarrow>
     sq_view qc = v \<and> sq_slot qc = of_nat s \<and>
     slot_qc_verify qc (quorum_threshold c) \<and>
     map sv_voter (sq_votes qc) = take (quorum_threshold c) (node_ids c) \<and>
     slot_proposer sha256 c v (of_nat s) = Inr (proposer (sq_proposal qc)) \<and>
     avail_certs (sq_proposal qc) = take (m_max config) (slot_certs config certs s) \<and>
     sq_digest qc = proposal_digest_of sha256 v (of_nat s) (proposer (sq_proposal qc)) (avail_certs (sq_proposal qc))"

lemma run_slot_Inr:
  assumes cfg: "slots_ok config" and c: "committee_ok c" and certs: "distinct certs"
  obtains qc where "run_slot sha256 v config c certs s qcs = Inr (qcs @ [qc])"
    and "slot_qc_ok sha256 v config c certs s qc"
proof -
  obtain pid where pid: "slot_proposer sha256 c v (of_nat s) = Inr pid" using c by (rule slot_proposer_Inr)
  obtain p where p: "create_proposal sha256 v (of_nat s) pid (slot_certs config certs s) config = Inr p"
    "bp_view p = v" "bp_slot p = of_nat s" "proposer p = pid"
    "avail_certs p = take (m_max config) (slot_certs config certs s)"
    "bp_digest p = proposal_digest_of sha256 v (of_nat s) pid (avail_certs p)"
    using cfg by (rule create_proposal_Inr)
  have valid: "validate_proposal sha256 p config c = Inr True"
    using validate_created[OF cfg pid p(1)] distinct_slot_certs[OF certs] p(5) by simp
  define qc where "qc = \<lparr>sq_view = bp_view p, sq_slot = bp_slot p, sq_digest = bp_digest p, sq_proposal = p,
               sq_votes = map (vote_on_proposal sha256 p) (take (quorum_threshold c) (node_ids c))\<rparr>"
  have "run_slot sha256 v config c certs s qcs = Inr (qcs @ [qc])"
    using collect_created[OF c valid] by (simp add: run_slot_def pid p(1-3) qc_def)
  moreover have "slot_qc_ok sha256 v config c certs s qc"
    using quorum_le_size[OF c] p pid
    by (simp add: slot_qc_ok_def qc_def slot_qc_verify_def vote_on_proposal_def comp_def list_all_iff min_def)
  ultimately show thesis by (rule that)
qed

lemma run_slots_Inr:
  assumes "slots_ok config" and "committee_ok c" and "distinct certs"
  shows "\<exists>qcs. rfold (run_slot sha256 v config c certs) [0..<j] [] = Inr qcs \<and> length qcs = j \<and>
    (\<forall>s < j. slot_qc_ok sha256 v config c certs s (qcs ! s))"
proof (induction j)
  case (Suc j)
  then obtain qcs where qcs: "rfold (run_slot sha256 v config c certs) [0..<j] [] = Inr qcs" "length qcs = j"
    "\<forall>s < j. slot_qc_ok sha256 v config c certs s (qcs ! s)" by blast
  obtain qc where "run_slot sha256 v config c certs j qcs = Inr (qcs @ [qc])" "slot_qc_ok sha256 v config c certs j qc"
    using assms by (rule run_slot_Inr)
  with qcs show ?case
    by (intro exI[of _ "qcs @ [qc]"]) (auto simp: rfold_append nth_append less_Suc_eq)
qed simp

section \<open>Buckets of the slots\<close>

text \<open>When the slots divide the buckets, slot \<open>s\<close> of view \<open>v\<close> owns one block of them.\<close>

lemma rotate_inj: "inj_on (\<lambda>s. (v + s) mod k) {..<k}" for v k :: nat
proof (rule inj_onI)
  have less: "s = s'" if "(v + s) mod k = (v + s') mod k" "s \<le> s'" "s' < k" for s s' :: nat
  proof -
    have "k dvd (v + s') - (v + s)" using mod_eq_dvd_iff_nat[of "v + s" "v + s'" k] that by simp
    then have "k dvd s' - s" by simp
    with that show ?thesis using nat_dvd_not_less[of "s' - s" k] by (cases "s = s'") auto
  qed
  fix s s' assume "s \<in> {..<k}" "s' \<in> {..<k}" "(v + s) mod k = (v + s') mod k"
  then show "s = s'" using less[of s s'] less[of s' s] by (cases "s \<le> s'") auto
qed

lemma rotate_unique: "j < k \<Longrightarrow> \<exists>!s. s < k \<and> (v + s) mod k = j" for v k j :: nat
proof -
  assume j: "j < k"
  have "(\<lambda>s. (v + s) mod k) ` {..<k} = {..<k}"
    by (rule endo_inj_surj[OF _ _ rotate_inj]) (use j in auto)
  with j obtain s where "s < k" "(v + s) mod k = j" by (metis (no_types, lifting) imageE lessThan_iff)
  with rotate_inj[of v k] show ?thesis by (auto simp: inj_on_def)
qed

lemma assign_buckets_block:
  assumes "0 < k" and "0 < b" and nb: "k * b \<le> 2 ^ 63" and v: "unat v * b < 2 ^ 64"
    and r: "assign_buckets v (k * b) k = Inr ranges" and s: "s < k"
  shows "ranges ! s = \<lparr>range_start = of_nat ((unat v + s) mod k * b), range_end = of_nat (((unat v + s) mod k + 1) * b)\<rparr>"
proof -
  let ?o = "unat v * b mod (k * b)"
  have o: "?o = unat v mod k * b" by (simp add: mult_mod_left)
  have nb': "k * b + k * b \<le> 2 ^ 64" "k * b < 2 ^ 64" using nb by simp_all
  have "s * b \<le> k * b" using s by simp
  moreover have "?o < k * b" using assms(1,2) by simp
  ultimately have lt: "s * b < 2 ^ 64" "?o + s * b < 2 ^ 64" using nb' by linarith+
  have start: "(?o + s * b) mod (k * b) = (unat v + s) mod k * b"
    unfolding o by (metis distrib_right mod_add_left_eq mult_mod_left)
  have "((unat v + s) mod k + 1) * b \<le> k * b" using assms(1) by (intro mult_right_mono) (simp_all add: Suc_leI)
  then have "(unat v + s) mod k * b + b \<le> k * b" by simp
  then have e: "(unat v + s) mod k * b + b < 2 ^ 64" using nb'(2) by (rule le_less_trans)
  have "ranges = map (\<lambda>s. let start = usize_add ?o (usize_mul s b) mod (k * b)
      in \<lparr>range_start = of_nat start, range_end = of_nat (usize_add start b)\<rparr>) [0..<k]"
    using r assms(1,2) v by (simp add: assign_buckets_def usize_mul_def)
  then have "ranges ! s = (let start = usize_add ?o (usize_mul s b) mod (k * b)
      in \<lparr>range_start = of_nat start, range_end = of_nat (usize_add start b)\<rparr>)" using s by simp
  moreover have "usize_add ?o (usize_mul s b) = ?o + s * b" using lt by (simp only: usize_add_def usize_mul_def mod_less)
  moreover have "usize_add ((unat v + s) mod k * b) b = ((unat v + s) mod k + 1) * b"
    using e by (simp only: usize_add_def mod_less) simp
  ultimately show ?thesis by (simp only: Let_def start)
qed

lemma of_nat_range:
  assumes "a < 2 ^ 64" and "b < 2 ^ 64" and "x < 2 ^ 64"
  shows "range_contains \<lparr>range_start = of_nat a, range_end = of_nat b\<rparr> (of_nat x) \<longleftrightarrow> a \<le> x \<and> x < b"
  using assms by (simp add: range_contains_def word_le_nat_alt word_less_nat_alt unat_of_nat)

lemma bucket_owner:
  assumes "0 < k" and "0 < b" and "k * b \<le> 2 ^ 63" and "unat v * b < 2 ^ 64"
    and "assign_buckets v (k * b) k = Inr ranges" and "s < k" and "x < k * b"
  shows "range_contains (ranges ! s) (of_nat x) \<longleftrightarrow> (unat v + s) mod k = x div b"
proof -
  let ?j = "(unat v + s) mod k"
  have "(?j + 1) * b \<le> k * b" using assms(1) by (intro mult_right_mono) (simp_all add: Suc_leI)
  moreover have nb': "k * b < 2 ^ 64" using assms(3) by simp
  ultimately have j: "(?j + 1) * b < 2 ^ 64" by (rule le_less_trans)
  moreover have "?j * b \<le> (?j + 1) * b" by simp
  ultimately have "?j * b < 2 ^ 64" by (rule le_less_trans[rotated])
  moreover have "x < 2 ^ 64" using assms(7) nb' by (rule less_trans)
  moreover note j
  ultimately
  have "range_contains (ranges ! s) (of_nat x) \<longleftrightarrow> ?j * b \<le> x \<and> x < (?j + 1) * b"
    unfolding assign_buckets_block[OF assms(1-6)] using of_nat_range by blast
  also have "\<dots> \<longleftrightarrow> ?j = x div b"
    using div_nat_eqI[of b ?j x] dividend_less_div_times[OF assms(2), of x] by (auto simp: mult.commute)
  finally show ?thesis .
qed

end
