(* ===== verification/MacroLayer.thy ===== *)
theory MacroLayer
  imports SlotLayer
begin

text \<open>
  The macro-block level of MP3-BFT++: headers, votes and their collector, and a round of the
  macro level (\<open>mp3bft/src/control_plane/macro_layer.rs\<close>); the engine with its three-chain
  commit rule (\<open>mp3bft/src/control_plane/mod.rs\<close>).
\<close>

section \<open>Headers and votes\<close>

definition create_macro_header ::
  "(u8 list \<Rightarrow> u8 list) \<Rightarrow> ViewNo \<Rightarrow> Height \<Rightarrow> NodeId \<Rightarrow> MacroQC option \<Rightarrow> SlotQC list \<Rightarrow> MacroHeader" where
  "create_macro_header sha256 v h l parent slot_qcs =
     (let parent_digest = map_option (macro_qc_digest sha256) parent;
          entries = map (\<lambda>qc. \<lparr>entry_slot = sq_slot qc, entry_qc_digest = slot_qc_digest sha256 qc\<rparr>) slot_qcs
      in \<lparr>mh_view = v, mh_height = h, leader = l, parent_qc = parent_digest, slot_entries = entries,
          mh_digest = header_digest_of sha256 v h l parent_digest entries\<rparr>)"

text \<open>The leader of a view.\<close>

definition view_leader :: "Committee \<Rightarrow> ViewNo \<Rightarrow> NodeId rust" where
  "view_leader c v = rbind (rrem (unat v) (length (node_ids c))) (vget (node_ids c))"

definition validate_macro_header :: "MacroHeader \<Rightarrow> Committee \<Rightarrow> MacroQC option \<Rightarrow> bool rust" where
  "validate_macro_header mh c locked =
     rbind (view_leader c (mh_view mh)) (\<lambda>expected.
       if leader mh \<noteq> expected then Inr False
       else if locked \<noteq> None \<and> parent_qc mh = None \<and> mh_height mh > 0 then Inr False
       else if slot_entries mh = [] \<and> mh_height mh > 0 then Inr False
       else Inr True)"

definition vote_on_header :: "(u8 list \<Rightarrow> u8 list) \<Rightarrow> MacroHeader \<Rightarrow> NodeId \<Rightarrow> MacroVote" where
  "vote_on_header sha256 mh voter =
     \<lparr>mv_view = mh_view mh, mv_height = mh_height mh, mv_digest = mh_digest mh, mv_voter = voter,
      mv_signature = sign sha256 voter (mh_digest mh)\<rparr>"

section \<open>The collector\<close>

record MacroCollector =
  mc_view :: ViewNo
  mc_height :: Height
  mc_header :: "MacroHeader option"
  mc_votes :: "MacroVote list"
  mc_threshold :: usize

definition macro_collector_new :: "ViewNo \<Rightarrow> Height \<Rightarrow> usize \<Rightarrow> MacroCollector" where
  "macro_collector_new v h threshold =
     \<lparr>mc_view = v, mc_height = h, mc_header = None, mc_votes = [], mc_threshold = threshold\<rparr>"

definition set_header :: "MacroHeader \<Rightarrow> MacroCollector \<Rightarrow> MacroCollector" where
  "set_header mh c = c\<lparr>mc_header := Some mh\<rparr>"

definition macro_add_vote :: "MacroVote \<Rightarrow> MacroCollector \<Rightarrow> MacroQC option \<times> MacroCollector" where
  "macro_add_vote vote c =
     (if mv_view vote \<noteq> mc_view c \<or> mv_height vote \<noteq> mc_height c then (None, c)
      else if list_ex (\<lambda>v. mv_voter v = mv_voter vote) (mc_votes c) then (None, c)
      else
        let c1 = c\<lparr>mc_votes := mc_votes c @ [vote]\<rparr>
        in (if length (mc_votes c1) \<ge> mc_threshold c1
            then (case mc_header c1 of
                    Some mh \<Rightarrow> Some \<lparr>mq_view = mc_view c1, mq_height = mc_height c1, mq_digest = mh_digest mh,
                                     mq_header = mh, mq_votes = mc_votes c1\<rparr>
                  | None \<Rightarrow> None)
            else None, c1))"

text \<open>The loop over the voters, left at the first certificate.\<close>

fun collect_macro_votes ::
  "(u8 list \<Rightarrow> u8 list) \<Rightarrow> Committee \<Rightarrow> MacroHeader \<Rightarrow> NodeId list \<Rightarrow> MacroCollector \<Rightarrow> MacroQC option rust" where
  "collect_macro_votes sha256 c mh [] col = Inr None"
| "collect_macro_votes sha256 c mh (voter # voters) col =
     rbind (validate_macro_header mh c None) (\<lambda>valid.
       if valid
       then (case macro_add_vote (vote_on_header sha256 mh voter) col of
               (Some qc, _) \<Rightarrow> Inr (Some qc)
             | (None, col') \<Rightarrow> collect_macro_votes sha256 c mh voters col')
       else collect_macro_votes sha256 c mh voters col)"

definition run_macro_consensus ::
  "(u8 list \<Rightarrow> u8 list) \<Rightarrow> ViewNo \<Rightarrow> Height \<Rightarrow> Committee \<Rightarrow> SlotQC list \<Rightarrow> MacroQC option \<Rightarrow> MacroQC option rust" where
  "run_macro_consensus sha256 v h c slot_qcs parent =
     rbind (view_leader c v) (\<lambda>l.
       let mh = create_macro_header sha256 v h l parent slot_qcs
       in collect_macro_votes sha256 c mh (node_ids c) (set_header mh (macro_collector_new v h (quorum_threshold c))))"

section \<open>The engine\<close>

record ConsensusEngine =
  eng_config :: MP3BFTConfig
  eng_committee :: Committee
  eng_node :: NodeId
  eng_view :: ViewNo
  eng_height :: Height
  locked_qc :: "MacroQC option"
  high_qc :: "MacroQC option"
  committed :: "CommittedBlock list"
  macro_qc_chain :: "MacroQC list"

definition engine_new :: "MP3BFTConfig \<Rightarrow> Committee \<Rightarrow> NodeId \<Rightarrow> ConsensusEngine" where
  "engine_new config c node =
     \<lparr>eng_config = config, eng_committee = c, eng_node = node, eng_view = 0, eng_height = 0,
      locked_qc = None, high_qc = None, committed = [], macro_qc_chain = []\<rparr>"

definition macro_leader :: "ConsensusEngine \<Rightarrow> ViewNo \<Rightarrow> NodeId rust" where
  "macro_leader e v = view_leader (eng_committee e) v"

definition is_macro_leader :: "ConsensusEngine \<Rightarrow> bool rust" where
  "is_macro_leader e = rbind (macro_leader e (eng_view e)) (\<lambda>l. Inr (l = eng_node e))"

definition engine_slot_proposer :: "(u8 list \<Rightarrow> u8 list) \<Rightarrow> ConsensusEngine \<Rightarrow> ViewNo \<Rightarrow> Slot \<Rightarrow> NodeId rust" where
  "engine_slot_proposer sha256 e v s = slot_proposer sha256 (eng_committee e) v s"

text \<open>The test of the three-chain rule, on the last three certificates.\<close>

definition extends_qc :: "(u8 list \<Rightarrow> u8 list) \<Rightarrow> MacroQC \<Rightarrow> MacroQC \<Rightarrow> bool" where
  "extends_qc sha256 qc parent \<longleftrightarrow>
     mq_height qc = mq_height parent + 1 \<and> parent_qc (mq_header qc) = Some (macro_qc_digest sha256 parent)"

definition process_macro_qc ::
  "(u8 list \<Rightarrow> u8 list) \<Rightarrow> MacroQC \<Rightarrow> SlotQC list \<Rightarrow> ConsensusEngine \<Rightarrow> CommittedBlock list \<times> ConsensusEngine" where
  "process_macro_qc sha256 qc slot_qcs e =
     (let should_update = (case high_qc e of None \<Rightarrow> True | Some existing \<Rightarrow> mq_height qc > mq_height existing);
          e1 = (if should_update then e\<lparr>high_qc := Some qc\<rparr> else e);
          e2 = e1\<lparr>macro_qc_chain := macro_qc_chain e1 @ [qc]\<rparr>;
          chain = macro_qc_chain e2;
          len = length chain
      in if len \<ge> 3
         then (let qc_h = chain ! (len - 1); qc_h1 = chain ! (len - 2); qc_h2 = chain ! (len - 3)
               in if extends_qc sha256 qc_h qc_h1 \<and> extends_qc sha256 qc_h1 qc_h2
                  then (let block = \<lparr>cb_height = mq_height qc_h2, cb_view = mq_view qc_h2, cb_header = mq_header qc_h2,
                                     cb_qc = qc_h2, cb_slot_qcs = slot_qcs\<rparr>
                        in ([block], e2\<lparr>committed := committed e2 @ [block], locked_qc := Some qc_h1,
                                        eng_height := mq_height qc_h2 + 1\<rparr>))
                  else ([], e2))
         else ([], e2))"

section \<open>Laws of the collector\<close>

definition macro_certificate :: "MacroCollector \<Rightarrow> MacroQC option" where
  "macro_certificate c =
     (case mc_header c of
        Some mh \<Rightarrow> Some \<lparr>mq_view = mc_view c, mq_height = mc_height c, mq_digest = mh_digest mh,
                         mq_header = mh, mq_votes = mc_votes c\<rparr>
      | None \<Rightarrow> None)"

interpretation macro_votes: vote_collector mc_votes mv_voter
  "\<lambda>c v. mv_view v = mc_view c \<and> mv_height v = mc_height c" macro_add_vote macro_certificate mc_threshold
  by unfold_locales
    (auto simp: macro_add_vote_def macro_certificate_def list_ex_iff Let_def image_iff split: option.splits)

lemma collect_valid_macro_votes:
  assumes "validate_macro_header mh c None = Inr True"
  shows "collect_macro_votes sha256 c mh voters col =
    Inr (first_certificate macro_add_vote (map (vote_on_header sha256 mh) voters) col)"
  using assms by (induction voters arbitrary: col) (auto split: prod.split option.split)

lemma macro_fold_fields:
  "mc_view (fold (\<lambda>v c. snd (macro_add_vote v c)) vs c) = mc_view c
   \<and> mc_height (fold (\<lambda>v c. snd (macro_add_vote v c)) vs c) = mc_height c
   \<and> mc_header (fold (\<lambda>v c. snd (macro_add_vote v c)) vs c) = mc_header c"
proof (induction vs arbitrary: c)
  case (Cons v vs)
  have "mc_view (snd (macro_add_vote v c)) = mc_view c \<and> mc_height (snd (macro_add_vote v c)) = mc_height c
      \<and> mc_header (snd (macro_add_vote v c)) = mc_header c"
    by (simp add: macro_add_vote_def Let_def)
  with Cons show ?case by simp
qed simp

section \<open>A round of the macro level\<close>

lemma view_leader_Inr:
  assumes "committee_ok c"
  obtains l where "view_leader c v = Inr l" and "l \<in> set (node_ids c)"
  using assms by (auto simp: view_leader_def committee_ok_def)

definition macro_qc_ok :: "(u8 list \<Rightarrow> u8 list) \<Rightarrow> ViewNo \<Rightarrow> Height \<Rightarrow> Committee \<Rightarrow> SlotQC list \<Rightarrow> MacroQC option \<Rightarrow> MacroQC \<Rightarrow> bool" where
  "macro_qc_ok sha256 v h c slot_qcs parent qc \<longleftrightarrow>
     mq_view qc = v \<and> mq_height qc = h \<and> macro_qc_verify qc (quorum_threshold c) \<and>
     map mv_voter (mq_votes qc) = take (quorum_threshold c) (node_ids c) \<and>
     view_leader c v = Inr (leader (mq_header qc)) \<and>
     mq_header qc = create_macro_header sha256 v h (leader (mq_header qc)) parent slot_qcs"

lemma run_macro_Inr:
  assumes c: "committee_ok c" and qcs: "slot_qcs \<noteq> []"
  obtains qc where "run_macro_consensus sha256 v h c slot_qcs parent = Inr (Some qc)"
    and "macro_qc_ok sha256 v h c slot_qcs parent qc"
proof -
  obtain l where l: "view_leader c v = Inr l" using c by (rule view_leader_Inr)
  define mh where "mh = create_macro_header sha256 v h l parent slot_qcs"
  have mh: "mh_view mh = v" "mh_height mh = h" "leader mh = l" "slot_entries mh \<noteq> []"
    using qcs by (simp_all add: mh_def create_macro_header_def Let_def)
  have valid: "validate_macro_header mh c None = Inr True" by (simp add: validate_macro_header_def mh l)
  let ?vote = "vote_on_header sha256 mh" and ?first = "take (quorum_threshold c) (node_ids c)"
  let ?col = "set_header mh (macro_collector_new v h (quorum_threshold c))"
  let ?c = "fold (\<lambda>v c. snd (macro_add_vote v c)) (map ?vote ?first) ?col"
  have col: "mc_votes ?col = []" "mc_view ?col = v" "mc_height ?col = h"
    "mc_threshold ?col = quorum_threshold c" "mc_header ?col = Some mh" "macro_certificate ?col \<noteq> None"
    by (simp_all add: set_header_def macro_collector_new_def macro_certificate_def)
  have "first_certificate macro_add_vote (map ?vote (node_ids c)) ?col = macro_certificate ?c"
    and "mc_votes ?c = map ?vote ?first"
    using macro_votes.committee_certificate[of "node_ids c" ?vote ?col]
      committee_ok_distinct[OF c] quorum_le_size[OF c] col
    by (simp_all add: vote_on_header_def quorum_threshold_def mh)
  then have "run_macro_consensus sha256 v h c slot_qcs parent =
      Inr (Some \<lparr>mq_view = v, mq_height = h, mq_digest = mh_digest mh, mq_header = mh, mq_votes = map ?vote ?first\<rparr>)"
    by (simp add: run_macro_consensus_def l mh_def[symmetric] collect_valid_macro_votes[OF valid]
        macro_certificate_def macro_fold_fields col)
  moreover have "macro_qc_ok sha256 v h c slot_qcs parent
      \<lparr>mq_view = v, mq_height = h, mq_digest = mh_digest mh, mq_header = mh, mq_votes = map ?vote ?first\<rparr>"
    using quorum_le_size[OF c] mh l mh_def
    by (simp add: macro_qc_ok_def macro_qc_verify_def vote_on_header_def comp_def list_all_iff min_def)
  ultimately show thesis by (rule that)
qed

lemma macro_qc_extends:
  assumes "macro_qc_ok sha256 v (h + 1) c slot_qcs (Some parent) qc" and "mq_height parent = h"
  shows "extends_qc sha256 qc parent"
proof -
  have "mq_header qc = create_macro_header sha256 v (h + 1) (leader (mq_header qc)) (Some parent) slot_qcs"
    and h: "mq_height qc = h + 1"
    using assms(1) by (simp_all only: macro_qc_ok_def)
  from arg_cong[OF this(1), of parent_qc] have "parent_qc (mq_header qc) = Some (macro_qc_digest sha256 parent)"
    by (simp add: create_macro_header_def Let_def)
  with h assms(2) show ?thesis by (simp add: extends_qc_def)
qed

section \<open>The three-chain rule\<close>

text \<open>
  Every committed block carries its proof: its certificate stands in the chain, followed by two
  certificates that extend it one after the other.
\<close>

definition three_chain :: "(u8 list \<Rightarrow> u8 list) \<Rightarrow> MacroQC list \<Rightarrow> CommittedBlock \<Rightarrow> bool" where
  "three_chain sha256 chain b \<longleftrightarrow>
     (\<exists>i. i + 2 < length chain \<and> cb_qc b = chain ! i \<and> cb_header b = mq_header (chain ! i) \<and>
        cb_height b = mq_height (chain ! i) \<and>
        extends_qc sha256 (chain ! (i + 1)) (chain ! i) \<and> extends_qc sha256 (chain ! (i + 2)) (chain ! (i + 1)))"

lemma three_chain_mono: "three_chain sha256 chain b \<Longrightarrow> three_chain sha256 (chain @ qcs) b"
  unfolding three_chain_def by (force simp: nth_append)

lemma process_chain [simp]: "macro_qc_chain (snd (process_macro_qc sha256 qc slot_qcs e)) = macro_qc_chain e @ [qc]"
  by (simp add: process_macro_qc_def Let_def)

lemma process_committed:
  "committed (snd (process_macro_qc sha256 qc slot_qcs e)) =
     committed e @ fst (process_macro_qc sha256 qc slot_qcs e)"
  by (simp add: process_macro_qc_def Let_def)

lemma process_commits:
  "fst (process_macro_qc sha256 qc slot_qcs e) =
     (let chain = macro_qc_chain e @ [qc]; n = length chain in
      if n \<ge> 3 \<and> extends_qc sha256 (chain ! (n - 1)) (chain ! (n - 2)) \<and> extends_qc sha256 (chain ! (n - 2)) (chain ! (n - 3))
      then [\<lparr>cb_height = mq_height (chain ! (n - 3)), cb_view = mq_view (chain ! (n - 3)),
             cb_header = mq_header (chain ! (n - 3)), cb_qc = chain ! (n - 3), cb_slot_qcs = slot_qcs\<rparr>]
      else [])"
  unfolding process_macro_qc_def Let_def by simp

definition chain_inv :: "(u8 list \<Rightarrow> u8 list) \<Rightarrow> ConsensusEngine \<Rightarrow> bool" where
  "chain_inv sha256 e \<longleftrightarrow> list_all (three_chain sha256 (macro_qc_chain e)) (committed e)"

lemma chain_inv_process:
  assumes "chain_inv sha256 e"
  shows "chain_inv sha256 (snd (process_macro_qc sha256 qc slot_qcs e))"
proof -
  let ?chain = "macro_qc_chain e @ [qc]"
  have old: "list_all (three_chain sha256 ?chain) (committed e)"
    using assms three_chain_mono by (fastforce simp: chain_inv_def list_all_iff)
  have "list_all (three_chain sha256 ?chain) (fst (process_macro_qc sha256 qc slot_qcs e))"
  proof (cases "fst (process_macro_qc sha256 qc slot_qcs e) = []")
    case False
    then have n: "length ?chain \<ge> 3"
      "extends_qc sha256 (?chain ! (length ?chain - 1)) (?chain ! (length ?chain - 2))"
      "extends_qc sha256 (?chain ! (length ?chain - 2)) (?chain ! (length ?chain - 3))"
      unfolding process_commits Let_def by (metis (no_types))+
    then obtain i where i: "length ?chain = i + 3" by (metis add.commute le_Suc_ex)
    have idx: "i + 3 - 1 = i + 2" "i + 3 - 2 = i + 1" "i + 3 - 3 = i" by simp_all
    show ?thesis using n
      unfolding process_commits Let_def i idx three_chain_def list_all_iff by (auto intro!: exI[of _ i])
  qed simp
  with old show ?thesis by (simp add: chain_inv_def process_committed)
qed

text \<open>On a chain in which every certificate extends the one before, all but the last two are committed.\<close>

definition feed :: "(u8 list \<Rightarrow> u8 list) \<Rightarrow> (MacroQC \<times> SlotQC list) list \<Rightarrow> ConsensusEngine \<Rightarrow> ConsensusEngine" where
  "feed sha256 qcs e = fold (\<lambda>(qc, slot_qcs) e. snd (process_macro_qc sha256 qc slot_qcs e)) qcs e"

definition block_of :: "MacroQC \<Rightarrow> SlotQC list \<Rightarrow> CommittedBlock" where
  "block_of qc slot_qcs =
     \<lparr>cb_height = mq_height qc, cb_view = mq_view qc, cb_header = mq_header qc, cb_qc = qc, cb_slot_qcs = slot_qcs\<rparr>"

lemma feed_chain: "macro_qc_chain (feed sha256 qcs e) = macro_qc_chain e @ map fst qcs"
  by (induction qcs arbitrary: e) (auto simp: feed_def)

lemma chain_inv_feed: "chain_inv sha256 e \<Longrightarrow> chain_inv sha256 (feed sha256 qcs e)"
  by (induction qcs arbitrary: e) (auto simp: feed_def chain_inv_process)

lemma feed_linked:
  assumes "\<And>i. Suc i < length qcs \<Longrightarrow> extends_qc sha256 (fst (qcs ! Suc i)) (fst (qcs ! i))"
  shows "committed (feed sha256 qcs (engine_new config c node)) =
    map (\<lambda>i. block_of (fst (qcs ! i)) (snd (qcs ! (i + 2)))) [0..<length qcs - 2]"
  using assms
proof (induction qcs rule: rev_induct)
  case (snoc q qcs)
  obtain qc sl where q: "q = (qc, sl)" by fastforce
  let ?e = "feed sha256 qcs (engine_new config c node)" and ?n = "length qcs"
  have link: "Suc i < ?n \<Longrightarrow> extends_qc sha256 (fst (qcs ! Suc i)) (fst (qcs ! i))" for i
    using snoc.prems[of i] by (simp add: nth_append)
  have IH: "committed ?e = map (\<lambda>i. block_of (fst (qcs ! i)) (snd (qcs ! (i + 2)))) [0..<?n - 2]"
    by (rule snoc.IH) (rule link)
  have chain: "macro_qc_chain ?e @ [qc] = map fst (qcs @ [q])" by (simp add: feed_chain engine_new_def q)
  have new: "fst (process_macro_qc sha256 qc sl ?e) = (if 2 \<le> ?n then [block_of (fst (qcs ! (?n - 2))) sl] else [])"
  proof (cases "2 \<le> ?n")
    case True
    then obtain m where m: "?n = m + 2" by (metis add.commute le_Suc_ex)
    have l1: "extends_qc sha256 qc (fst (qcs ! Suc m))" using snoc.prems[of "Suc m"] m by (simp add: nth_append q)
    have l2: "extends_qc sha256 (fst (qcs ! Suc m)) (fst (qcs ! m))" using link[of m] m by simp
    show ?thesis unfolding process_commits Let_def chain
      using l1 l2 m by (simp add: nth_append q block_of_def)
  next
    case False
    then show ?thesis unfolding process_commits Let_def chain by simp
  qed
  have split: "[0..<length (qcs @ [q]) - 2] = [0..<?n - 2] @ (if 2 \<le> ?n then [?n - 2] else [])"
  proof (cases "2 \<le> ?n")
    case True
    then have "length (qcs @ [q]) - 2 = Suc (?n - 2)" by simp
    with True show ?thesis by (simp only: upt_Suc) simp
  qed simp
  have "committed (feed sha256 (qcs @ [q]) (engine_new config c node)) =
      committed ?e @ fst (process_macro_qc sha256 qc sl ?e)"
    by (simp add: feed_def q process_committed)
  also have "\<dots> = map (\<lambda>i. block_of (fst ((qcs @ [q]) ! i)) (snd ((qcs @ [q]) ! (i + 2)))) [0..<length (qcs @ [q]) - 2]"
    unfolding IH new split by (auto simp: nth_append q)
  finally show ?case .
qed (simp add: feed_def engine_new_def)

end
