(* ===== verification/Mp3Engine.thy ===== *)
theory Mp3Engine
  imports MacroLayer Cado
begin

text \<open>
  The rest of the MP3-BFT++ simulator: view changes (\<open>mp3bft/src/control_plane/view_change.rs\<close>),
  the data plane (\<open>mp3bft/src/data_plane.rs\<close>), the order of a committed block
  (\<open>mp3bft/src/cado.rs\<close>) and the loop over the views that drives them (\<open>mp3bft/src/main.rs\<close>).
\<close>

section \<open>View changes\<close>

record ViewChangeManager =
  vc_view :: ViewNo
  new_view_messages :: "NewViewMessage list"
  vc_threshold :: usize

definition view_change_new :: "ViewNo \<Rightarrow> usize \<Rightarrow> ViewChangeManager" where
  "view_change_new v threshold = \<lparr>vc_view = v, new_view_messages = [], vc_threshold = threshold\<rparr>"

definition create_new_view :: "(u8 list \<Rightarrow> u8 list) \<Rightarrow> NodeId \<Rightarrow> ViewNo \<Rightarrow> MacroQC option \<Rightarrow> NewViewMessage" where
  "create_new_view sha256 s v qc =
     \<lparr>new_view = v, nv_sender = s, nv_high_qc = qc, nv_signature = sign sha256 s (to_le_bytes v)\<rparr>"

text \<open>\<open>Iterator::max_by_key\<close>: the last of the elements with the greatest key.\<close>

definition max_by_key :: "('a \<Rightarrow> 'b :: linorder) \<Rightarrow> 'a list \<Rightarrow> 'a option" where
  "max_by_key f xs =
     fold (\<lambda>x best. case best of None \<Rightarrow> Some x | Some y \<Rightarrow> if f y \<le> f x then Some x else Some y) xs None"

definition process_new_view ::
  "NewViewMessage \<Rightarrow> ViewChangeManager \<Rightarrow> (ViewNo \<times> MacroQC option) option \<times> ViewChangeManager" where
  "process_new_view msg m =
     (if new_view msg \<noteq> vc_view m + 1 then (None, m)
      else if list_ex (\<lambda>x. nv_sender x = nv_sender msg) (new_view_messages m) then (None, m)
      else
        let m1 = m\<lparr>new_view_messages := new_view_messages m @ [msg]\<rparr>
        in (if length (new_view_messages m1) \<ge> vc_threshold m1
            then Some (vc_view m1 + 1, max_by_key mq_height (List.map_filter nv_high_qc (new_view_messages m1)))
            else None, m1))"

text \<open>
  The timeout of a view. \<open>f64_powi\<close> is the power function of the standard library on doubles, \<open>None\<close>
  where it overflows to infinity; the exponent is the view cut to 32 bits.
\<close>

definition view_timeout :: "(rat \<Rightarrow> int \<Rightarrow> rat option) \<Rightarrow> u64 \<Rightarrow> ViewNo \<Rightarrow> rat \<Rightarrow> u64 \<Rightarrow> u64" where
  "view_timeout f64_powi base_ms v rh max_ms =
     (let t = (case f64_powi rh (sint (ucast v :: 32 word)) of
                 Some x \<Rightarrow> of_nat (f64_to_usize (f64_mul (f64_of_usize (unat base_ms)) x))
               | None \<Rightarrow> if base_ms = 0 then 0 else - 1)
      in min t max_ms)"

section \<open>The data plane\<close>

record DataPlane =
  dp_committee :: Committee
  dp_batches :: "DigestBytes \<rightharpoonup> Batch"
  dp_certs :: "AvailCert list"

definition data_plane_new :: "Committee \<Rightarrow> DataPlane" where
  "data_plane_new c = \<lparr>dp_committee = c, dp_batches = Map.empty, dp_certs = []\<rparr>"

definition submit_batch ::
  "(u8 list \<Rightarrow> u8 list) \<Rightarrow> WorkerId \<Rightarrow> u8 list list \<Rightarrow> DataPlane \<Rightarrow> AvailCert \<times> DataPlane" where
  "submit_batch sha256 worker_id txs dp =
     (let batch = batch_new sha256 worker_id txs;
          digest = batch_id batch;
          signatures = map (\<lambda>node_id. sign sha256 node_id digest)
                         (take (quorum_threshold (dp_committee dp)) (node_ids (dp_committee dp)));
          ac = \<lparr>batch_digest = digest, cert_worker = worker_id, cert_signatures = signatures\<rparr>
      in (ac, dp\<lparr>dp_batches := (dp_batches dp)(digest \<mapsto> batch), dp_certs := dp_certs dp @ [ac]\<rparr>))"

definition get_batch :: "DigestBytes \<Rightarrow> DataPlane \<Rightarrow> Batch option" where
  "get_batch digest dp = dp_batches dp digest"

definition available_certs :: "DataPlane \<Rightarrow> AvailCert list" where
  "available_certs dp = dp_certs dp"

definition take_certs :: "usize \<Rightarrow> DataPlane \<Rightarrow> AvailCert list \<times> DataPlane" where
  "take_certs limit dp =
     (let n = min limit (length (dp_certs dp))
      in (take n (dp_certs dp), dp\<lparr>dp_certs := drop n (dp_certs dp)\<rparr>))"

definition get_transactions :: "(u8 list \<Rightarrow> u8 list) \<Rightarrow> DigestBytes list \<Rightarrow> DataPlane \<Rightarrow> u8 list list" where
  "get_transactions sha256 digests dp =
     concat (map (\<lambda>digest.
       concat (map (\<lambda>cert.
         if avail_cert_digest sha256 cert = digest \<or> batch_digest cert = digest
         then (case dp_batches dp (batch_digest cert) of Some batch \<Rightarrow> batch_transactions batch | None \<Rightarrow> [])
         else []) (dp_certs dp)) @
       (case dp_batches dp digest of Some batch \<Rightarrow> batch_transactions batch | None \<Rightarrow> [])) digests)"

section \<open>The order of a committed block\<close>

definition consensus_cado_order :: "(u64 \<Rightarrow> u64) \<Rightarrow> CommittedBlock \<Rightarrow> StablecoinTx list \<Rightarrow> StablecoinTx list" where
  "consensus_cado_order hash64 block raw = cado_ordering hash64 raw"

section \<open>The loop over the views\<close>

text \<open>
  One iteration: the slots of the view, its macro-block, and the commit rule. The state is the
  engine, the last certificate and the count of committed transactions; the sleeps that simulate
  the network and the logging are left out.
\<close>

definition view_certs :: "usize \<Rightarrow> DigestBytes list \<Rightarrow> ViewNo \<Rightarrow> DigestBytes list" where
  "view_certs per_view digests v =
     (let start = unat v * per_view; stop = min (start + per_view) (length digests)
      in if start < length digests then drop start (take stop digests) else [])"

definition run_mp3_view ::
  "(u8 list \<Rightarrow> u8 list) \<Rightarrow> MP3BFTConfig \<Rightarrow> Committee \<Rightarrow> usize \<Rightarrow> usize \<Rightarrow> DigestBytes list \<Rightarrow> ViewNo
   \<Rightarrow> ConsensusEngine \<times> MacroQC option \<times> usize \<Rightarrow> (ConsensusEngine \<times> MacroQC option \<times> usize) rust" where
  "run_mp3_view sha256 config c per_view txns_per_batch digests v = (\<lambda>(e, prev_qc, n).
     rbind (run_slot_consensus sha256 v config c (view_certs per_view digests v)) (\<lambda>slot_qcs.
     rbind (run_macro_consensus sha256 v v c slot_qcs prev_qc) (\<lambda>res.
       Inr (case res of
              Some qc \<Rightarrow>
                (let (blocks, e') = process_macro_qc sha256 qc slot_qcs e
                 in (e', Some qc,
                     fold (\<lambda>b n. n + length (slot_entries (cb_header b)) * txns_per_batch) blocks n))
            | None \<Rightarrow> (e, prev_qc, n)))))"

definition run_views ::
  "(u8 list \<Rightarrow> u8 list) \<Rightarrow> MP3BFTConfig \<Rightarrow> Committee \<Rightarrow> usize \<Rightarrow> usize \<Rightarrow> DigestBytes list \<Rightarrow> usize
   \<Rightarrow> (ConsensusEngine \<times> MacroQC option \<times> usize) rust" where
  "run_views sha256 config c per_view txns_per_batch digests num_views =
     rfold (\<lambda>v. run_mp3_view sha256 config c per_view txns_per_batch digests (of_nat v)) [0..<num_views]
       (engine_new config c 0, None, 0)"

section \<open>Runs of the loop\<close>

lemma view_certs_distinct: "distinct digests \<Longrightarrow> distinct (view_certs per_view digests v)"
  by (simp add: view_certs_def Let_def)

lemma run_slot_consensus_Inr:
  assumes "slots_ok config" and "committee_ok c" and "distinct certs"
  obtains qcs where "run_slot_consensus sha256 v config c certs = Inr qcs" and "length qcs = k_slots config"
    and "\<And>s. s < k_slots config \<Longrightarrow> slot_qc_ok sha256 v config c certs s (qcs ! s)"
  using run_slots_Inr[OF assms, of sha256 v "k_slots config"] unfolding run_slot_consensus_def by blast

text \<open>The transactions the loop counts for the blocks an engine has committed.\<close>

definition counted_txns :: "usize \<Rightarrow> ConsensusEngine \<Rightarrow> usize" where
  "counted_txns per_batch e = (\<Sum>b \<leftarrow> committed e. length (slot_entries (cb_header b)) * per_batch)"

lemma fold_counted:
  "fold (\<lambda>b n. n + length (slot_entries (cb_header b)) * t) bs n
   = n + (\<Sum>b \<leftarrow> bs. length (slot_entries (cb_header b)) * t)"
  by (induction bs arbitrary: n) simp_all

lemma run_mp3_view_Inr:
  assumes "slots_ok config" and "committee_ok c" and "distinct digests"
  obtains qc qcs where
    "run_mp3_view sha256 config c per_view t digests v (e, prev, counted_txns t e) =
       Inr (snd (process_macro_qc sha256 qc qcs e), Some qc, counted_txns t (snd (process_macro_qc sha256 qc qcs e)))"
    and "macro_qc_ok sha256 v v c qcs prev qc" and "length qcs = k_slots config"
proof -
  obtain qcs where qcs: "run_slot_consensus sha256 v config c (view_certs per_view digests v) = Inr qcs"
    "length qcs = k_slots config"
    using run_slot_consensus_Inr[OF assms(1,2) view_certs_distinct[OF assms(3)]] by metis
  then have "qcs \<noteq> []" using assms(1) by (auto simp: slots_ok_def)
  with assms(2) obtain qc where qc: "run_macro_consensus sha256 v v c qcs prev = Inr (Some qc)"
    "macro_qc_ok sha256 v v c qcs prev qc" by (rule run_macro_Inr)
  have "counted_txns t (snd (process_macro_qc sha256 qc qcs e)) =
      fold (\<lambda>b n. n + length (slot_entries (cb_header b)) * t) (fst (process_macro_qc sha256 qc qcs e)) (counted_txns t e)"
    by (simp add: counted_txns_def process_committed fold_counted)
  then have "run_mp3_view sha256 config c per_view t digests v (e, prev, counted_txns t e) =
       Inr (snd (process_macro_qc sha256 qc qcs e), Some qc, counted_txns t (snd (process_macro_qc sha256 qc qcs e)))"
    by (simp add: run_mp3_view_def qcs(1) qc(1) split: prod.split)
  then show thesis using qc(2) qcs(2) by (rule that)
qed

text \<open>After \<open>j\<close> views the engine has been fed \<open>j\<close> certificates, each on top of the one before.\<close>

definition views_fed ::
  "(u8 list \<Rightarrow> u8 list) \<Rightarrow> MP3BFTConfig \<Rightarrow> Committee \<Rightarrow> (MacroQC \<times> SlotQC list) list \<Rightarrow> bool" where
  "views_fed sha256 config c qs \<longleftrightarrow>
     (\<forall>i < length qs. length (snd (qs ! i)) = k_slots config \<and>
        macro_qc_ok sha256 (of_nat i) (of_nat i) c (snd (qs ! i)) (if i = 0 then None else Some (fst (qs ! (i - 1)))) (fst (qs ! i)))"

lemma run_views_fed:
  assumes "slots_ok config" and "committee_ok c" and "distinct digests"
  shows "\<exists>qs. length qs = j \<and> views_fed sha256 config c qs \<and>
    run_views sha256 config c per_view t digests j =
      Inr (feed sha256 qs (engine_new config c 0), if j = 0 then None else Some (fst (qs ! (j - 1))),
           counted_txns t (feed sha256 qs (engine_new config c 0)))"
proof (induction j)
  case 0
  show ?case by (simp add: views_fed_def run_views_def feed_def counted_txns_def engine_new_def)
next
  case (Suc j)
  then obtain qs where qs: "length qs = j" "views_fed sha256 config c qs"
    and run: "run_views sha256 config c per_view t digests j =
      Inr (feed sha256 qs (engine_new config c 0), if j = 0 then None else Some (fst (qs ! (j - 1))),
           counted_txns t (feed sha256 qs (engine_new config c 0)))" by blast
  let ?e = "feed sha256 qs (engine_new config c 0)" and ?prev = "if j = 0 then None else Some (fst (qs ! (j - 1)))"
  obtain qc qcs where step: "run_mp3_view sha256 config c per_view t digests (of_nat j) (?e, ?prev, counted_txns t ?e) =
       Inr (snd (process_macro_qc sha256 qc qcs ?e), Some qc, counted_txns t (snd (process_macro_qc sha256 qc qcs ?e)))"
    and ok: "macro_qc_ok sha256 (of_nat j) (of_nat j) c qcs ?prev qc" "length qcs = k_slots config"
    using assms by (rule run_mp3_view_Inr)
  have "feed sha256 (qs @ [(qc, qcs)]) (engine_new config c 0) = snd (process_macro_qc sha256 qc qcs ?e)"
    by (simp add: feed_def)
  moreover have "run_views sha256 config c per_view t digests (Suc j) =
      run_mp3_view sha256 config c per_view t digests (of_nat j) (?e, ?prev, counted_txns t ?e)"
    using run by (simp add: run_views_def rfold_append)
  moreover have "views_fed sha256 config c (qs @ [(qc, qcs)])"
    using qs ok by (auto simp: views_fed_def nth_append less_Suc_eq)
  ultimately show ?case
    using step qs(1) by (intro exI[of _ "qs @ [(qc, qcs)]"]) (simp add: nth_append)
qed

lemma views_fed_extends:
  assumes "views_fed sha256 config c qs" and "Suc i < length qs"
  shows "extends_qc sha256 (fst (qs ! Suc i)) (fst (qs ! i))"
proof (rule macro_qc_extends)
  show "macro_qc_ok sha256 (of_nat (Suc i)) (of_nat i + 1) c (snd (qs ! Suc i)) (Some (fst (qs ! i))) (fst (qs ! Suc i))"
    using assms(1)[unfolded views_fed_def, rule_format, OF assms(2)] by (simp add: add.commute)
  show "mq_height (fst (qs ! i)) = of_nat i"
    using assms unfolding views_fed_def macro_qc_ok_def by auto
qed

lemma views_fed_committed:
  assumes "views_fed sha256 config c qs"
  shows "committed (feed sha256 qs (engine_new config' c' node)) =
    map (\<lambda>i. block_of (fst (qs ! i)) (snd (qs ! (i + 2)))) [0..<length qs - 2]"
  by (rule feed_linked) (rule views_fed_extends[OF assms])

lemma views_fed_header:
  assumes "views_fed sha256 config c qs" and "i < length qs"
  shows "mq_height (fst (qs ! i)) = of_nat i" "length (slot_entries (mq_header (fst (qs ! i)))) = k_slots config"
    "macro_qc_verify (fst (qs ! i)) (quorum_threshold c)"
proof -
  let ?q = "fst (qs ! i)"
  have q: "macro_qc_ok sha256 (of_nat i) (of_nat i) c (snd (qs ! i)) (if i = 0 then None else Some (fst (qs ! (i - 1)))) ?q"
    "length (snd (qs ! i)) = k_slots config"
    using assms unfolding views_fed_def by auto
  then have hdr: "mq_header ?q = create_macro_header sha256 (of_nat i) (of_nat i) (leader (mq_header ?q))
      (if i = 0 then None else Some (fst (qs ! (i - 1)))) (snd (qs ! i))"
    and "mq_height ?q = of_nat i" "macro_qc_verify ?q (quorum_threshold c)" unfolding macro_qc_ok_def by blast+
  then show "mq_height ?q = of_nat i" "macro_qc_verify ?q (quorum_threshold c)" by blast+
  from arg_cong[OF hdr, of slot_entries] q(2) show "length (slot_entries (mq_header ?q)) = k_slots config"
    by (simp add: create_macro_header_def Let_def)
qed

section \<open>View changes and batches\<close>

lemma max_by_key_spec:
  "max_by_key f xs = None \<longleftrightarrow> xs = []"
  "max_by_key f xs = Some y \<Longrightarrow> y \<in> set xs \<and> (\<forall>x \<in> set xs. f x \<le> f y)"
proof -
  have inv: "case max_by_key f xs of None \<Rightarrow> xs = [] | Some y \<Rightarrow> y \<in> set xs \<and> (\<forall>x \<in> set xs. f x \<le> f y)"
  proof (induction xs rule: rev_induct)
    case (snoc x xs)
    have "max_by_key f (xs @ [x]) =
        (case max_by_key f xs of None \<Rightarrow> Some x | Some y \<Rightarrow> if f y \<le> f x then Some x else Some y)"
      by (simp add: max_by_key_def)
    with snoc show ?case by (auto split: option.splits)
  qed (simp add: max_by_key_def)
  then show "max_by_key f xs = Some y \<Longrightarrow> y \<in> set xs \<and> (\<forall>x \<in> set xs. f x \<le> f y)" by simp
  show "max_by_key f xs = None \<longleftrightarrow> xs = []"
  proof
    assume "max_by_key f xs = None" with inv show "xs = []" by simp
  qed (simp add: max_by_key_def)
qed

text \<open>A manager collects messages as the collectors collect votes.\<close>

definition new_view_answer :: "ViewChangeManager \<Rightarrow> (ViewNo \<times> MacroQC option) option" where
  "new_view_answer m =
     Some (vc_view m + 1, max_by_key mq_height (List.map_filter nv_high_qc (new_view_messages m)))"

interpretation new_views: vote_collector new_view_messages nv_sender "\<lambda>m x. new_view x = vc_view m + 1"
  process_new_view new_view_answer vc_threshold
  by unfold_locales
    (auto simp: process_new_view_def new_view_answer_def list_ex_iff Let_def image_iff)

lemma new_view_fold_view: "vc_view (fold (\<lambda>x m. snd (process_new_view x m)) xs m) = vc_view m"
proof (induction xs arbitrary: m)
  case (Cons x xs)
  have "vc_view (snd (process_new_view x m)) = vc_view m" by (simp add: process_new_view_def Let_def)
  with Cons show ?case by simp
qed simp

lemma view_timeout_le: "view_timeout f64_powi base v rh mx \<le> mx"
  by (simp add: view_timeout_def Let_def)

end
