(* ===== verification/Mp3Properties.thy ===== *)
theory Mp3Properties
  imports Mp3Engine
begin

text \<open>
  The properties of the MP3-BFT++ simulator. The concrete instances use a committee of four and a
  stand-in for the hash function that pads or cuts its input to 32 bytes.
\<close>

definition pad32 :: "u8 list \<Rightarrow> u8 list" where
  "pad32 bs = take 32 (bs @ replicate 32 0)"

definition committee4 :: Committee where
  "committee4 = committee_new [0, 1, 2, 3]"

definition config2 :: MP3BFTConfig where
  "config2 = mp3_config_default\<lparr>k_slots := 2\<rparr>"

lemma committee4_ok: "committee_ok committee4"
  unfolding committee4_def by (rule committee_new_ok) simp

lemma committee4_values:
  "node_ids committee4 = [0, 1, 2, 3]" "quorum_threshold committee4 = 3" "max_faults committee4 = 1"
  by code_simp+

lemma config2_ok: "slots_ok config2" "k_slots config2 = 2" "m_max config2 = 32"
  by (simp_all add: slots_ok_def config2_def mp3_config_default_def)

section \<open>Slots\<close>

text \<open>
  C21. Two slot certificates that verify for the same committee certify the same proposal: as long
  as at most \<open>max_faults\<close> members are faulty and every other member votes for one digest, two
  certificates with votes of different members of the committee have the same digest.
\<close>

theorem slot_qcs_agree:
  assumes c: "committee_ok c"
    and v: "slot_qc_verify qc (quorum_threshold c)" "slot_qc_verify qc' (quorum_threshold c)"
    and d: "distinct (map sv_voter (sq_votes qc))" "distinct (map sv_voter (sq_votes qc'))"
    and m: "sv_voter ` set (sq_votes qc) \<subseteq> set (node_ids c)" "sv_voter ` set (sq_votes qc') \<subseteq> set (node_ids c)"
    and F: "card (F \<inter> set (node_ids c)) \<le> max_faults c"
    and honest: "\<forall>x \<in> set (sq_votes qc). \<forall>x' \<in> set (sq_votes qc').
      sv_voter x = sv_voter x' \<and> sv_voter x \<notin> F \<longrightarrow> sv_digest x = sv_digest x'"
  shows "sq_digest qc = sq_digest qc'"
proof -
  let ?A = "sv_voter ` set (sq_votes qc)" and ?B = "sv_voter ` set (sq_votes qc')"
  have card: "card (sv_voter ` set xs) = length xs" if "distinct (map sv_voter xs)" for xs
    using distinct_card[OF that] by simp
  have len: "quorum_threshold c \<le> length (sq_votes qc)" "quorum_threshold c \<le> length (sq_votes qc')"
    using v by (auto simp: slot_qc_verify_def split: if_splits)
  have "\<exists>n \<in> ?A \<inter> ?B. n \<notin> F"
    by (rule quorum_system.quorums_share_honest[OF validity_system.axioms(1)[OF committee_quorums[OF c]] m])
      (use len F card[OF d(1)] card[OF d(2)] in simp_all)
  then obtain x x' where x: "x \<in> set (sq_votes qc)" "x' \<in> set (sq_votes qc')" "sv_voter x = sv_voter x'" "sv_voter x \<notin> F"
    by auto
  with honest have "sv_digest x = sv_digest x'" by blast
  with x(1,2) v show ?thesis by (auto simp: slot_qc_verify_def list_all_iff split: if_splits)
qed

definition sample_proposal :: BlockletProposal where
  "sample_proposal =
     \<lparr>bp_view = 0, bp_slot = 0, proposer = 0, avail_certs = [], bucket_range = \<lparr>range_start = 0, range_end = 8192\<rparr>, bp_digest = [7]\<rparr>"

definition sample_qc :: "NodeId list \<Rightarrow> SlotQC" where
  "sample_qc voters =
     \<lparr>sq_view = 0, sq_slot = 0, sq_digest = [7], sq_proposal = sample_proposal,
      sq_votes = map (vote_on_proposal pad32 sample_proposal) voters\<rparr>"

theorem slot_qcs_agree_witness:
  "slot_qc_verify (sample_qc [0, 1, 2]) 3 \<and> slot_qc_verify (sample_qc [1, 2, 3]) 3
   \<and> sq_digest (sample_qc [0, 1, 2]) = sq_digest (sample_qc [1, 2, 3])"
proof -
  have "sq_digest (sample_qc [0, 1, 2]) = sq_digest (sample_qc [1, 2, 3])"
    by (rule slot_qcs_agree[OF committee4_ok, where F = "{1}"])
      (auto simp: committee4_values sample_qc_def slot_qc_verify_def sample_proposal_def vote_on_proposal_def)
  then show ?thesis by (simp add: sample_qc_def slot_qc_verify_def sample_proposal_def vote_on_proposal_def)
qed

text \<open>
  C22. A round of slots whose shares, \<open>certs_per_slot\<close>, stay within \<open>m_max\<close>: every slot gets a
  certificate, in order of the slots; it verifies against the quorum of the committee and carries
  the votes of a quorum of different members; and the proposals carry every available certificate
  exactly once, in order. A larger share is cut to \<open>m_max\<close> without an error.
\<close>

theorem slot_round_certifies:
  assumes "slots_ok config" and "committee_ok c" and "distinct certs" and "certs_per_slot config certs \<le> m_max config"
  shows "\<exists>qcs. run_slot_consensus sha256 v config c certs = Inr qcs
    \<and> map sq_slot qcs = map of_nat [0..<k_slots config]
    \<and> (\<forall>qc \<in> set qcs. slot_qc_verify qc (quorum_threshold c)
          \<and> map sv_voter (sq_votes qc) = take (quorum_threshold c) (node_ids c))
    \<and> concat (map (\<lambda>qc. avail_certs (sq_proposal qc)) qcs) = certs"
proof -
  obtain qcs where qcs: "run_slot_consensus sha256 v config c certs = Inr qcs" "length qcs = k_slots config"
    "\<And>s. s < k_slots config \<Longrightarrow> slot_qc_ok sha256 v config c certs s (qcs ! s)"
    using run_slot_consensus_Inr[OF assms(1-3)] by metis
  have slot: "sq_slot (qcs ! s) = of_nat s" "slot_qc_verify (qcs ! s) (quorum_threshold c)"
    "map sv_voter (sq_votes (qcs ! s)) = take (quorum_threshold c) (node_ids c)"
    "avail_certs (sq_proposal (qcs ! s)) = slot_certs config certs s" if "s < k_slots config" for s
  proof -
    have "length (slot_certs config certs s) \<le> m_max config"
      using assms(4) by (simp add: slot_certs_slice)
    with qcs(3)[OF that] show "sq_slot (qcs ! s) = of_nat s" "slot_qc_verify (qcs ! s) (quorum_threshold c)"
      "map sv_voter (sq_votes (qcs ! s)) = take (quorum_threshold c) (node_ids c)"
      "avail_certs (sq_proposal (qcs ! s)) = slot_certs config certs s"
      by (simp_all add: slot_qc_ok_def)
  qed
  have "map sq_slot qcs = map of_nat [0..<k_slots config]"
    by (rule nth_equalityI) (simp_all add: qcs(2) slot)
  moreover have "map (\<lambda>qc. avail_certs (sq_proposal qc)) qcs = map (slot_certs config certs) [0..<k_slots config]"
    by (rule nth_equalityI) (simp_all add: qcs(2) slot)
  moreover have "0 < k_slots config" using assms(1) by (simp add: slots_ok_def)
  ultimately show ?thesis
    using qcs(1,2) slot(2,3) slot_certs_partition[of config certs] by (auto simp: in_set_conv_nth)
qed

theorem slot_round_certifies_witness:
  "\<exists>qcs. run_slot_consensus pad32 5 config2 committee4 [[1], [2], [3]] = Inr qcs
    \<and> concat (map (\<lambda>qc. avail_certs (sq_proposal qc)) qcs) = [[1], [2], [3]]"
  using slot_round_certifies[OF config2_ok(1) committee4_ok, of "[[1], [2], [3]]" pad32 5]
  by (auto simp: certs_per_slot_def config2_ok)

text \<open>
  C23. Buckets: when the slots divide the buckets, every bucket belongs to exactly one slot of
  every view.
\<close>

theorem buckets_partition:
  assumes "0 < k" and "k dvd nb" and "0 < nb" and "nb \<le> 2 ^ 63" and "unat v * (nb div k) < 2 ^ 64" and "x < nb"
  shows "\<exists>ranges. assign_buckets v nb k = Inr ranges \<and> length ranges = k
    \<and> (\<exists>!s. s < k \<and> range_contains (ranges ! s) (of_nat x))"
proof -
  obtain b where nb: "nb = k * b" using assms(2) by blast
  then have b: "0 < b" "nb div k = b" using assms(1,3) by auto
  obtain ranges where r: "assign_buckets v nb k = Inr ranges" "length ranges = k"
    using assms(1,3) by (rule assign_buckets_Inr)
  have own: "range_contains (ranges ! s) (of_nat x) \<longleftrightarrow> (unat v + s) mod k = x div b" if "s < k" for s
    by (rule bucket_owner[OF assms(1) b(1) _ _ _ that]) (use assms r nb b in auto)
  have "x div b < k" using assms(6) nb b(1) by (simp add: less_mult_imp_div_less)
  from rotate_unique[OF this, of "unat v"] have "\<exists>!s. s < k \<and> range_contains (ranges ! s) (of_nat x)"
    using own by (metis (no_types))
  with r show ?thesis by blast
qed

theorem buckets_partition_witness:
  "\<exists>ranges. assign_buckets 3 12 4 = Inr ranges \<and> (\<exists>!s. s < 4 \<and> range_contains (ranges ! s) 7)"
  using buckets_partition[of 4 12 3 7] by auto

text \<open>
  C24. What a slot collector certifies: whatever votes arrive in whatever order, a certificate holds
  at least the threshold of votes, all of them received, for the view and the slot of the
  collector, no two of the same voter.
\<close>

theorem slot_collector_sound:
  assumes "fst (slot_add_vote vote (fold (\<lambda>x c. snd (slot_add_vote x c)) vs (set_proposal p (slot_collector_new v s t)))) = Some qc"
  shows "t \<le> length (sq_votes qc) \<and> distinct (map sv_voter (sq_votes qc)) \<and> sq_proposal qc = p
    \<and> sq_view qc = v \<and> sq_slot qc = s
    \<and> (\<forall>x \<in> set (sq_votes qc). sv_view x = v \<and> sv_slot x = s \<and> x \<in> set (vs @ [vote]))"
proof -
  let ?new = "set_proposal p (slot_collector_new v s t)"
  let ?c = "fold (\<lambda>x c. snd (slot_add_vote x c)) vs ?new"
  let ?c' = "fold (\<lambda>x c. snd (slot_add_vote x c)) (vs @ [vote]) ?new"
  have new: "slot_votes.collector_ok ?new" "sc_votes ?new = []" "sc_view ?new = v" "sc_slot ?new = s" "sc_proposal ?new = Some p"
    by (simp_all add: slot_votes.collector_ok_def set_proposal_def slot_collector_new_def)
  have t: "sc_threshold (fold (\<lambda>x c. snd (slot_add_vote x c)) xs ?new) = t" for xs
  proof (induction xs rule: rev_induct)
    case (snoc x xs)
    with slot_votes.add_threshold show ?case by simp
  qed (simp add: set_proposal_def slot_collector_new_def)
  note cert = slot_votes.certified_votes[OF slot_votes.collector_ok_fold[OF new(1)] assms]
  have c': "?c' = snd (slot_add_vote vote ?c)" by simp
  have qc: "qc = \<lparr>sq_view = v, sq_slot = s, sq_digest = bp_digest p, sq_proposal = p, sq_votes = sc_votes ?c'\<rparr>"
    using cert(1) unfolding c'[symmetric] slot_certificate_def slot_fold_fields new by simp
  have "set (sc_votes ?c') \<subseteq> set (vs @ [vote])" using slot_votes.fold_votes_subset[of "vs @ [vote]" ?new] new by simp
  moreover have "t \<le> length (sc_votes ?c')" using cert(2) t by simp
  moreover have "list_all (\<lambda>x. sv_view x = v \<and> sv_slot x = s) (sc_votes ?c')"
    using cert(4) unfolding slot_fold_fields new c' .
  ultimately show ?thesis using cert(3) unfolding qc list_all_iff c' by auto
qed

theorem slot_collector_sound_witness:
  "\<exists>qc. fst (slot_add_vote (vote_on_proposal pad32 sample_proposal 2)
      (fold (\<lambda>x c. snd (slot_add_vote x c)) (map (vote_on_proposal pad32 sample_proposal) [0, 0, 1])
        (set_proposal sample_proposal (slot_collector_new 0 0 3)))) = Some qc \<and> 3 \<le> length (sq_votes qc)"
proof -
  let ?ans = "fst (slot_add_vote (vote_on_proposal pad32 sample_proposal 2)
      (fold (\<lambda>x c. snd (slot_add_vote x c)) (map (vote_on_proposal pad32 sample_proposal) [0, 0, 1])
        (set_proposal sample_proposal (slot_collector_new 0 0 3))))"
  obtain qc where "?ans = Some qc"
    by (simp add: slot_add_vote_def vote_on_proposal_def sample_proposal_def set_proposal_def slot_collector_new_def)
  with slot_collector_sound[OF this] show ?thesis by blast
qed

text \<open>
  C25. What it does not check: a vote for another digest than the one of the proposal completes a
  quorum, and the certificate that results does not verify.
\<close>

theorem slot_collector_ignores_digest:
  assumes "sv_view vote = v" and "sv_slot vote = s" and "sv_digest vote \<noteq> bp_digest p"
  shows "\<exists>qc. fst (slot_add_vote vote (set_proposal p (slot_collector_new v s 1))) = Some qc \<and> \<not> slot_qc_verify qc 1"
  using assms by (simp add: slot_add_vote_def set_proposal_def slot_collector_new_def slot_qc_verify_def)

theorem slot_collector_ignores_digest_witness:
  "\<exists>qc. fst (slot_add_vote \<lparr>sv_view = 0, sv_slot = 0, sv_digest = [8], sv_voter = 1, sv_signature = sign pad32 1 [8]\<rparr>
      (set_proposal sample_proposal (slot_collector_new 0 0 1))) = Some qc \<and> \<not> slot_qc_verify qc 1"
  by (rule slot_collector_ignores_digest) (simp_all add: sample_proposal_def)

section \<open>Macro-blocks and commits\<close>

text \<open>
  C26. Every block an engine commits, whatever certificates it is fed in whatever order, has its
  proof in the chain: its own certificate, then one that extends it, then one that extends that one.
\<close>

theorem commits_have_three_chains:
  "\<forall>b \<in> set (committed (feed sha256 qcs (engine_new config c node))). three_chain sha256 (map fst qcs) b"
proof -
  have "chain_inv sha256 (engine_new config c node)" by (simp add: chain_inv_def engine_new_def)
  from chain_inv_feed[OF this, of qcs] show ?thesis
    by (simp add: chain_inv_def feed_chain list_all_iff) (simp add: engine_new_def)
qed

text \<open>The simulator on two slots, four nodes, and one batch per slot and view.\<close>

definition sample_digests :: "DigestBytes list" where
  "sample_digests = map (\<lambda>i. [of_nat i]) [0..<8]"

lemma sample_digests_distinct: "distinct sample_digests"
  by code_simp

theorem commits_have_three_chains_witness:
  "\<exists>qs. committed (feed pad32 qs (engine_new config2 committee4 0)) \<noteq> []
     \<and> (\<forall>b \<in> set (committed (feed pad32 qs (engine_new config2 committee4 0))). three_chain pad32 (map fst qs) b)"
proof -
  obtain qs where qs: "length qs = 4" "views_fed pad32 config2 committee4 qs"
    using run_views_fed[OF config2_ok(1) committee4_ok sample_digests_distinct, of 4 pad32 2 10] by blast
  have "committed (feed pad32 qs (engine_new config2 committee4 0)) \<noteq> []"
    using views_fed_committed[OF qs(2)] qs(1) by simp
  with commits_have_three_chains[of pad32 qs config2 committee4 0] show ?thesis by blast
qed

text \<open>
  C27. On a chain without gaps everything is committed, once and in order, except the last two
  blocks: when every certificate extends the one before it, the engine has committed exactly the
  others, each with the slot certificates that came with the certificate two positions later.
\<close>

theorem linked_chain_commits:
  assumes "\<forall>i. Suc i < length qcs \<longrightarrow> extends_qc sha256 (fst (qcs ! Suc i)) (fst (qcs ! i))"
  shows "map cb_qc (committed (feed sha256 qcs (engine_new config c node))) = map fst (take (length qcs - 2) qcs)
    \<and> map cb_slot_qcs (committed (feed sha256 qcs (engine_new config c node))) = map snd (drop 2 qcs)"
proof -
  have eq: "committed (feed sha256 qcs (engine_new config c node)) =
      map (\<lambda>i. block_of (fst (qcs ! i)) (snd (qcs ! (i + 2)))) [0..<length qcs - 2]"
    by (rule feed_linked) (use assms in blast)
  show ?thesis
  proof
    show "map cb_qc (committed (feed sha256 qcs (engine_new config c node))) = map fst (take (length qcs - 2) qcs)"
      unfolding eq by (rule nth_equalityI) (simp_all add: block_of_def)
    show "map cb_slot_qcs (committed (feed sha256 qcs (engine_new config c node))) = map snd (drop 2 qcs)"
      unfolding eq by (rule nth_equalityI) (simp_all add: block_of_def add.commute)
  qed
qed

theorem linked_chain_commits_witness:
  "\<exists>qs. length qs = 4 \<and> length (committed (feed pad32 qs (engine_new config2 committee4 0))) = 2"
proof -
  obtain qs where qs: "length qs = 4" "views_fed pad32 config2 committee4 qs"
    using run_views_fed[OF config2_ok(1) committee4_ok sample_digests_distinct, of 4 pad32 2 10] by blast
  have "\<forall>i. Suc i < length qs \<longrightarrow> extends_qc pad32 (fst (qs ! Suc i)) (fst (qs ! i))"
    using views_fed_extends[OF qs(2)] by blast
  from conjunct1[OF linked_chain_commits[OF this, of config2 committee4 0]] have
    "length (map cb_qc (committed (feed pad32 qs (engine_new config2 committee4 0)))) = 2"
    using qs(1) by simp
  with qs(1) show ?thesis by auto
qed

text \<open>
  C28. The simulation makes progress: over any number of views no step panics, every view ends with
  a certificate, the engine commits all views but the last two in order of their heights, with
  certificates that verify, and its counter grows by one batch for every slot of every committed
  block, however many batches the proposal of the slot carries.
\<close>

theorem views_commit:
  assumes "slots_ok config" and "committee_ok c" and "distinct digests"
  shows "\<exists>e prev. run_views sha256 config c per_view t digests n = Inr (e, prev, (n - 2) * (k_slots config * t))
    \<and> map cb_height (committed e) = map of_nat [0..<n - 2]
    \<and> list_all (\<lambda>b. macro_qc_verify (cb_qc b) (quorum_threshold c)) (committed e)"
proof -
  obtain qs where qs: "length qs = n" "views_fed sha256 config c qs"
    and run: "run_views sha256 config c per_view t digests n =
      Inr (feed sha256 qs (engine_new config c 0), if n = 0 then None else Some (fst (qs ! (n - 1))),
           counted_txns t (feed sha256 qs (engine_new config c 0)))"
    using run_views_fed[OF assms] by blast
  note hd = views_fed_header[OF qs(2)]
  have com: "committed (feed sha256 qs (engine_new config c 0)) =
      map (\<lambda>i. block_of (fst (qs ! i)) (snd (qs ! (i + 2)))) [0..<n - 2]"
    using views_fed_committed[OF qs(2)] qs(1) by simp
  have "counted_txns t (feed sha256 qs (engine_new config c 0)) =
      (\<Sum>i \<leftarrow> [0..<n - 2]. length (slot_entries (mq_header (fst (qs ! i)))) * t)"
    by (simp add: counted_txns_def com block_of_def comp_def)
  also have "\<dots> = (\<Sum>i \<leftarrow> [0..<n - 2]. k_slots config * t)"
    by (rule arg_cong[of _ _ sum_list], rule map_cong) (simp_all add: hd(2) qs(1))
  finally have "counted_txns t (feed sha256 qs (engine_new config c 0)) = (n - 2) * (k_slots config * t)"
    by (simp add: sum_list_triv)
  moreover have "map cb_height (committed (feed sha256 qs (engine_new config c 0))) = map of_nat [0..<n - 2]"
    by (simp add: com block_of_def hd(1) qs(1))
  moreover have "list_all (\<lambda>b. macro_qc_verify (cb_qc b) (quorum_threshold c)) (committed (feed sha256 qs (engine_new config c 0)))"
    by (simp add: com list_all_iff block_of_def hd(3) qs(1))
  ultimately show ?thesis using run by auto
qed

theorem views_commit_witness:
  "\<exists>e prev. run_views pad32 config2 committee4 2 10 sample_digests 5 = Inr (e, prev, 60)
     \<and> map cb_height (committed e) = [0, 1, 2]"
  using views_commit[OF config2_ok(1) committee4_ok sample_digests_distinct, of pad32 2 10 5]
  by (auto simp: config2_ok upt_rec)

section \<open>View changes and batches\<close>

text \<open>
  C29. A view change needs a quorum and keeps the highest certificate: whatever messages arrive, an
  answer means that at least the threshold of different senders asked for the next view, and the
  certificate it carries is one of theirs that no other one exceeds in height (none if none of
  them had any).
\<close>

theorem view_change_keeps_highest:
  assumes "fst (process_new_view msg (fold (\<lambda>x m. snd (process_new_view x m)) msgs (view_change_new v t))) = Some (v', best)"
  shows "v' = v + 1 \<and>
    (\<exists>S. distinct (map nv_sender S) \<and> set S \<subseteq> set (msgs @ [msg]) \<and> t \<le> length S \<and>
       (\<forall>x \<in> set S. new_view x = v + 1) \<and>
       (case best of
          None \<Rightarrow> \<forall>x \<in> set S. nv_high_qc x = None
        | Some qc \<Rightarrow> (\<exists>x \<in> set S. nv_high_qc x = Some qc) \<and>
            (\<forall>x \<in> set S. \<forall>q. nv_high_qc x = Some q \<longrightarrow> mq_height q \<le> mq_height qc)))"
proof -
  let ?new = "view_change_new v t"
  let ?m = "fold (\<lambda>x m. snd (process_new_view x m)) msgs ?new"
  let ?m' = "fold (\<lambda>x m. snd (process_new_view x m)) (msgs @ [msg]) ?new"
  have new: "new_views.collector_ok ?new" "new_view_messages ?new = []" "vc_view ?new = v"
    by (simp_all add: new_views.collector_ok_def view_change_new_def)
  have t: "vc_threshold (fold (\<lambda>x m. snd (process_new_view x m)) xs ?new) = t" for xs
  proof (induction xs rule: rev_induct)
    case (snoc x xs)
    with new_views.add_threshold show ?case by simp
  qed (simp add: view_change_new_def)
  note cert = new_views.certified_votes[OF new_views.collector_ok_fold[OF new(1)] assms]
  have m': "?m' = snd (process_new_view msg ?m)" by simp
  define S where "S = new_view_messages ?m'"
  have view: "vc_view ?m' = v" by (simp only: new_view_fold_view new)
  have "v + 1 = v'" "max_by_key mq_height (List.map_filter nv_high_qc S) = best"
    using cert(1) unfolding m'[symmetric] new_view_answer_def view option.inject prod.inject S_def by blast+
  then have ans: "v' = v + 1" "best = max_by_key mq_height (List.map_filter nv_high_qc S)" by blast+
  have filt: "q \<in> set (List.map_filter nv_high_qc S) \<longleftrightarrow> (\<exists>x \<in> set S. nv_high_qc x = Some q)" for q
    by (force simp: List.map_filter_def)
  have "case best of
          None \<Rightarrow> \<forall>x \<in> set S. nv_high_qc x = None
        | Some qc \<Rightarrow> (\<exists>x \<in> set S. nv_high_qc x = Some qc) \<and>
            (\<forall>x \<in> set S. \<forall>q. nv_high_qc x = Some q \<longrightarrow> mq_height q \<le> mq_height qc)"
  proof (cases best)
    case None
    then have "List.map_filter nv_high_qc S = []" using ans(2) max_by_key_spec(1)[of mq_height] by metis
    with filt have "\<forall>x \<in> set S. \<forall>q. nv_high_qc x \<noteq> Some q" by (metis (no_types) empty_iff list.set(1))
    with None show ?thesis by simp
  next
    case (Some qc)
    then have "max_by_key mq_height (List.map_filter nv_high_qc S) = Some qc" using ans(2) by simp
    from max_by_key_spec(2)[OF this] filt have
      "(\<exists>x \<in> set S. nv_high_qc x = Some qc) \<and> (\<forall>x \<in> set S. \<forall>q. nv_high_qc x = Some q \<longrightarrow> mq_height q \<le> mq_height qc)"
      by blast
    with Some show ?thesis by simp
  qed
  moreover have "set S \<subseteq> set (msgs @ [msg])" using new_views.fold_votes_subset[of "msgs @ [msg]" ?new] new by (simp add: S_def)
  moreover have "distinct (map nv_sender S)" "t \<le> length S" using cert(2,3) t by (simp_all add: S_def)
  moreover have "\<forall>x \<in> set S. new_view x = v + 1"
    using cert(4) unfolding S_def m' list_all_iff by (simp add: new_view_fold_view new)
  ultimately show ?thesis using ans(1) by blast
qed

theorem view_change_keeps_highest_witness:
  "\<exists>v' best. fst (process_new_view (create_new_view pad32 2 1 None)
      (fold (\<lambda>x m. snd (process_new_view x m)) [create_new_view pad32 0 1 None, create_new_view pad32 1 1 None]
        (view_change_new 0 3))) = Some (v', best) \<and> v' = 1"
proof -
  let ?ans = "fst (process_new_view (create_new_view pad32 2 1 None)
      (fold (\<lambda>x m. snd (process_new_view x m)) [create_new_view pad32 0 1 None, create_new_view pad32 1 1 None]
        (view_change_new 0 3)))"
  obtain v' best where "?ans = Some (v', best)"
    by (simp add: process_new_view_def create_new_view_def view_change_new_def)
  with view_change_keeps_highest[OF this] show ?thesis by auto
qed

text \<open>
  C30. A submitted batch is available: its certificate carries a quorum of signatures and verifies,
  it is the last one in the queue, and looking its digest up returns the transactions submitted.
\<close>

theorem submitted_batch_available:
  assumes "committee_ok (dp_committee dp)" and "submit_batch sha256 worker txs dp = (cert, dp')"
  shows "avail_cert_verify cert (quorum_threshold (dp_committee dp))
    \<and> map_option batch_transactions (get_batch (batch_digest cert) dp') = Some txs
    \<and> available_certs dp' = available_certs dp @ [cert]
    \<and> take_certs (length (available_certs dp')) dp' = (available_certs dp @ [cert], dp'\<lparr>dp_certs := []\<rparr>)"
  using assms(2) quorum_le_size[OF assms(1)]
  by (auto simp: submit_batch_def Let_def avail_cert_verify_def get_batch_def available_certs_def take_certs_def batch_new_def)

theorem submitted_batch_available_witness:
  "\<exists>cert dp'. submit_batch pad32 0 [[1, 2], [3]] (data_plane_new committee4) = (cert, dp')
     \<and> map_option batch_transactions (get_batch (batch_digest cert) dp') = Some [[1, 2], [3]]"
proof -
  obtain cert dp' where "submit_batch pad32 0 [[1, 2], [3]] (data_plane_new committee4) = (cert, dp')" by fastforce
  with submitted_batch_available[OF _ this] committee4_ok show ?thesis by (simp add: data_plane_new_def)
qed

end
