(* ===== verification/NarwhalTypes.thy ===== *)
theory NarwhalTypes
  imports Bytes Quorum "HOL-Library.List_Lexorder"
begin

text \<open>
  The committee of Narwhal (\<open>narwhal/config/src/lib.rs\<close>), its headers, votes and certificates
  (\<open>narwhal/primary/src/messages.rs\<close>) and the errors they raise
  (\<open>narwhal/primary/src/error.rs\<close>).

  Keys and digests are the byte strings of the source (\<open>narwhal/crypto/src/lib.rs\<close>), ordered
  lexicographically; a \<open>BTreeMap\<close> or \<open>BTreeSet\<close> is the list of its entries in ascending order.
  Rounds are natural numbers. \<open>sha512\<close> and the two signature checks stand for the
  \<open>ed25519-dalek\<close> crate; \<open>sign_with\<close> is the answer of the signature service.
\<close>

type_synonym Digest = "u8 list"
type_synonym PublicKey = "u8 list"
type_synonym Round = nat
type_synonym Stake = u32
type_synonym SocketAddr = string

record Ed25519Signature =
  part1 :: "u8 list"
  part2 :: "u8 list"

definition signature_default :: Ed25519Signature where
  "signature_default = \<lparr>part1 = replicate 32 0, part2 = replicate 32 0\<rparr>"

definition digest_default :: Digest where
  "digest_default = replicate 32 0"

definition digest_size :: "Digest \<Rightarrow> usize" where
  "digest_size d = length d"

definition flatten :: "Ed25519Signature \<Rightarrow> u8 list" where
  "flatten s = part1 s @ part2 s"

text \<open>\<open>to_le_bytes\<close> of a \<open>u32\<close>.\<close>

definition to_le_bytes32 :: "u32 \<Rightarrow> u8 list" where
  "to_le_bytes32 x = map (\<lambda>i. ucast (drop_bit (8 * i) x)) [0..<4]"

section \<open>The committee\<close>

datatype ConfigError =
    NotInCommittee PublicKey
  | UnknownWorker u32
  | ImportError string string
  | ExportError string string

record Parameters =
  header_size :: usize
  max_header_delay :: nat
  gc_depth :: Round
  sync_retry_delay :: nat
  sync_retry_nodes :: usize
  batch_size :: usize
  max_batch_delay :: nat

definition parameters_default :: Parameters where
  "parameters_default =
     \<lparr>header_size = 1000, max_header_delay = 100, gc_depth = 50, sync_retry_delay = 5000, sync_retry_nodes = 3,
      batch_size = 500000, max_batch_delay = 100\<rparr>"

record PrimaryAddresses =
  primary_to_primary :: SocketAddr
  worker_to_primary :: SocketAddr

record WorkerAddresses =
  transactions_address :: SocketAddr
  worker_to_worker :: SocketAddr
  primary_to_worker :: SocketAddr

record NarwhalAuthority =
  stake_of :: Stake
  primary_of :: PrimaryAddresses
  workers_of :: "(u32 \<times> WorkerAddresses) list"

record NarwhalCommittee =
  members :: "(PublicKey \<times> NarwhalAuthority) list"

definition members_size :: "NarwhalCommittee \<Rightarrow> usize" where
  "members_size c = length (members c)"

definition stake :: "NarwhalCommittee \<Rightarrow> PublicKey \<Rightarrow> Stake" where
  "stake c name = (case map_of (members c) name of None \<Rightarrow> 0 | Some x \<Rightarrow> stake_of x)"

definition others_stake :: "NarwhalCommittee \<Rightarrow> PublicKey \<Rightarrow> (PublicKey \<times> Stake) list" where
  "others_stake c myself =
     map (\<lambda>(name, a). (name, stake_of a)) (filter (\<lambda>(name, _). name \<noteq> myself) (members c))"

definition total_votes :: "NarwhalCommittee \<Rightarrow> Stake" where
  "total_votes c = sum_list (map (stake_of \<circ> snd) (members c))"

definition stake_quorum :: "NarwhalCommittee \<Rightarrow> Stake" where
  "stake_quorum c = 2 * total_votes c div 3 + 1"

definition stake_validity :: "NarwhalCommittee \<Rightarrow> Stake" where
  "stake_validity c = (total_votes c + 2) div 3"

definition primary :: "NarwhalCommittee \<Rightarrow> PublicKey \<Rightarrow> ConfigError + PrimaryAddresses" where
  "primary c to =
     (case map_of (members c) to of Some x \<Rightarrow> Inr (primary_of x) | None \<Rightarrow> Inl (NotInCommittee to))"

definition others_primaries :: "NarwhalCommittee \<Rightarrow> PublicKey \<Rightarrow> (PublicKey \<times> PrimaryAddresses) list" where
  "others_primaries c myself =
     map (\<lambda>(name, a). (name, primary_of a)) (filter (\<lambda>(name, _). name \<noteq> myself) (members c))"

definition worker :: "NarwhalCommittee \<Rightarrow> PublicKey \<Rightarrow> u32 \<Rightarrow> ConfigError + WorkerAddresses" where
  "worker c to i =
     (case find (\<lambda>(name, _). name = to) (members c) of
        None \<Rightarrow> Inl (NotInCommittee to)
      | Some (_, a) \<Rightarrow>
          (case find (\<lambda>(worker_id, _). worker_id = i) (workers_of a) of
             Some (_, w) \<Rightarrow> Inr w
           | None \<Rightarrow> Inl (NotInCommittee to)))"

definition our_workers :: "NarwhalCommittee \<Rightarrow> PublicKey \<Rightarrow> ConfigError + WorkerAddresses list" where
  "our_workers c myself =
     (case find (\<lambda>(name, _). name = myself) (members c) of
        None \<Rightarrow> Inl (NotInCommittee myself)
      | Some (_, a) \<Rightarrow> Inr (map snd (workers_of a)))"

definition others_workers :: "NarwhalCommittee \<Rightarrow> PublicKey \<Rightarrow> u32 \<Rightarrow> (PublicKey \<times> WorkerAddresses) list" where
  "others_workers c myself i =
     List.map_filter (\<lambda>(name, a).
         map_option (\<lambda>(_, addresses). (name, addresses)) (find (\<lambda>(worker_id, _). worker_id = i) (workers_of a)))
       (filter (\<lambda>(name, _). name \<noteq> myself) (members c))"

section \<open>Messages\<close>

datatype DagError =
    InvalidSignature
  | StoreError string
  | SerializationError string
  | InvalidHeaderId
  | MalformedHeader Digest
  | UnknownAuthority PublicKey
  | AuthorityReuse PublicKey
  | UnexpectedVote Digest
  | CertificateRequiresQuorum
  | HeaderRequiresQuorum Digest
  | TooOld Digest Round

type_synonym 'a DagResult = "DagError + 'a"

definition ensure :: "bool \<Rightarrow> DagError \<Rightarrow> unit DagResult" where
  "ensure b e = (if b then Inr () else Inl e)"

fun dbind :: "'a DagResult \<Rightarrow> ('a \<Rightarrow> 'b DagResult) \<Rightarrow> 'b DagResult" where
  "dbind (Inl e) f = Inl e"
| "dbind (Inr x) f = f x"

record Header =
  author :: PublicKey
  round :: Round
  payload :: "(Digest \<times> u32) list"
  parents :: "Digest list"
  header_id :: Digest
  header_signature :: Ed25519Signature

definition header_default :: Header where
  "header_default =
     \<lparr>author = replicate 32 0, round = 0, payload = [], parents = [], header_id = digest_default,
      header_signature = signature_default\<rparr>"

definition header_digest :: "(u8 list \<Rightarrow> u8 list) \<Rightarrow> Header \<Rightarrow> Digest" where
  "header_digest sha512 h =
     take 32 (sha512 (author h @ to_le_bytes (of_nat (round h)) @
       concat (map (\<lambda>(x, y). x @ to_le_bytes32 y) (payload h)) @ concat (parents h)))"

definition header_new ::
  "(u8 list \<Rightarrow> u8 list) \<Rightarrow> (Digest \<Rightarrow> Ed25519Signature) \<Rightarrow> PublicKey \<Rightarrow> Round \<Rightarrow> (Digest \<times> u32) list
   \<Rightarrow> Digest list \<Rightarrow> Header" where
  "header_new sha512 sign_with name r pl ps =
     (let h = \<lparr>author = name, round = r, payload = pl, parents = ps, header_id = digest_default,
               header_signature = signature_default\<rparr>;
          i = header_digest sha512 h
      in h\<lparr>header_id := i, header_signature := sign_with i\<rparr>)"

text \<open>The signature check of a message: \<open>sig_ok digest key signature\<close>.\<close>

type_synonym sig_check = "Digest \<Rightarrow> PublicKey \<Rightarrow> Ed25519Signature \<Rightarrow> bool"

definition header_verify :: "(u8 list \<Rightarrow> u8 list) \<Rightarrow> sig_check \<Rightarrow> NarwhalCommittee \<Rightarrow> Header \<Rightarrow> unit DagResult" where
  "header_verify sha512 sig_ok c h =
     dbind (ensure (header_digest sha512 h = header_id h) InvalidHeaderId) (\<lambda>_.
     dbind (ensure (stake c (author h) > 0) (UnknownAuthority (author h))) (\<lambda>_.
     dbind (ensure (list_all (\<lambda>(_, worker_id). \<not> isl (worker c (author h) worker_id)) (payload h))
              (MalformedHeader (header_id h))) (\<lambda>_.
       ensure (sig_ok (header_id h) (author h) (header_signature h)) InvalidSignature)))"

record Vote =
  vote_id :: Digest
  vote_round :: Round
  vote_origin :: PublicKey
  vote_author :: PublicKey
  vote_signature :: Ed25519Signature

definition vote_digest :: "(u8 list \<Rightarrow> u8 list) \<Rightarrow> Vote \<Rightarrow> Digest" where
  "vote_digest sha512 v =
     take 32 (sha512 (vote_id v @ to_le_bytes (of_nat (vote_round v)) @ vote_origin v))"

definition vote_new :: "(u8 list \<Rightarrow> u8 list) \<Rightarrow> (Digest \<Rightarrow> Ed25519Signature) \<Rightarrow> Header \<Rightarrow> PublicKey \<Rightarrow> Vote" where
  "vote_new sha512 sign_with h name =
     (let v = \<lparr>vote_id = header_id h, vote_round = round h, vote_origin = author h, vote_author = name,
               vote_signature = signature_default\<rparr>
      in v\<lparr>vote_signature := sign_with (vote_digest sha512 v)\<rparr>)"

definition vote_verify :: "(u8 list \<Rightarrow> u8 list) \<Rightarrow> sig_check \<Rightarrow> NarwhalCommittee \<Rightarrow> Vote \<Rightarrow> unit DagResult" where
  "vote_verify sha512 sig_ok c v =
     dbind (ensure (stake c (vote_author v) > 0) (UnknownAuthority (vote_author v))) (\<lambda>_.
       ensure (sig_ok (vote_digest sha512 v) (vote_author v) (vote_signature v)) InvalidSignature)"

record Certificate =
  header :: Header
  cert_votes :: "(PublicKey \<times> Ed25519Signature) list"

definition cert_round :: "Certificate \<Rightarrow> Round" where
  "cert_round x = round (header x)"

definition origin :: "Certificate \<Rightarrow> PublicKey" where
  "origin x = author (header x)"

definition cert_digest :: "(u8 list \<Rightarrow> u8 list) \<Rightarrow> Certificate \<Rightarrow> Digest" where
  "cert_digest sha512 x =
     take 32 (sha512 (header_id (header x) @ to_le_bytes (of_nat (cert_round x)) @ origin x))"

text \<open>Equality of certificates as the source defines it.\<close>

definition cert_eq :: "Certificate \<Rightarrow> Certificate \<Rightarrow> bool" where
  "cert_eq x y \<longleftrightarrow>
     header_id (header x) = header_id (header y) \<and> cert_round x = cert_round y \<and> origin x = origin y"

definition genesis :: "NarwhalCommittee \<Rightarrow> Certificate list" where
  "genesis c = map (\<lambda>(name, _). \<lparr>header = header_default\<lparr>author := name\<rparr>, cert_votes = []\<rparr>) (members c)"

fun cert_weight ::
  "NarwhalCommittee \<Rightarrow> (PublicKey \<times> Ed25519Signature) list \<Rightarrow> PublicKey set \<Rightarrow> Stake \<Rightarrow> Stake DagResult" where
  "cert_weight c [] used weight = Inr weight"
| "cert_weight c ((name, _) # vs) used weight =
     dbind (ensure (name \<notin> used) (AuthorityReuse name)) (\<lambda>_.
     dbind (ensure (stake c name > 0) (UnknownAuthority name)) (\<lambda>_.
       cert_weight c vs (insert name used) (weight + stake c name)))"

type_synonym batch_check = "Digest \<Rightarrow> (PublicKey \<times> Ed25519Signature) list \<Rightarrow> bool"

definition cert_verify ::
  "(u8 list \<Rightarrow> u8 list) \<Rightarrow> sig_check \<Rightarrow> batch_check \<Rightarrow> NarwhalCommittee \<Rightarrow> Certificate \<Rightarrow> unit DagResult" where
  "cert_verify sha512 sig_ok batch_ok c x =
     (if list_ex (cert_eq x) (genesis c) then Inr ()
      else
        dbind (header_verify sha512 sig_ok c (header x)) (\<lambda>_.
        dbind (cert_weight c (cert_votes x) {} 0) (\<lambda>weight.
        dbind (ensure (weight \<ge> stake_quorum c) CertificateRequiresQuorum) (\<lambda>_.
          ensure (batch_ok (cert_digest sha512 x) (cert_votes x)) InvalidSignature))))"

section \<open>Stake as a quorum system\<close>

definition stake_total :: "NarwhalCommittee \<Rightarrow> nat" where
  "stake_total c = (\<Sum>n \<in> fst ` set (members c). unat (stake c n))"

interpretation stake_quorums: quorum_system "fst ` set (members c)" "\<lambda>n. unat (stake c n)"
  "2 * stake_total c div 3 + 1" "(stake_total c - 1) div 3" for c
proof unfold_locales
  have "t + (t - 1) div 3 < 2 * (2 * t div 3 + 1)" for t :: nat by presburger
  then show "(\<Sum>n \<in> fst ` set (members c). unat (stake c n)) + (stake_total c - 1) div 3
      < 2 * (2 * stake_total c div 3 + 1)" by (simp add: stake_total_def)
qed simp

text \<open>A committee whose stake is positive and does not overflow the thresholds.\<close>

definition stake_ok :: "NarwhalCommittee \<Rightarrow> bool" where
  "stake_ok c \<longleftrightarrow> distinct (map fst (members c)) \<and> 0 < stake_total c \<and> 2 * stake_total c + 2 < 2 ^ 32"

lemma unat_add_small: "unat x + unat y < 2 ^ 32 \<Longrightarrow> unat (x + y :: u32) = unat x + unat y"
  by (simp add: unat_word_ariths)

lemma unat_sum_list:
  "(\<Sum>x \<leftarrow> xs. unat (f x)) < 2 ^ 32 \<Longrightarrow> unat (\<Sum>x \<leftarrow> xs. f x :: u32) = (\<Sum>x \<leftarrow> xs. unat (f x))"
proof (induction xs)
  case (Cons x xs)
  then have "unat (\<Sum>x \<leftarrow> xs. f x) = (\<Sum>x \<leftarrow> xs. unat (f x))" by simp
  with Cons.prems unat_add_small[of "f x" "\<Sum>x \<leftarrow> xs. f x"] show ?case by simp
qed simp

lemma stake_total_list:
  assumes "distinct (map fst (members c))"
  shows "stake_total c = (\<Sum>x \<leftarrow> members c. unat (stake_of (snd x)))"
proof -
  have "stake_total c = (\<Sum>n \<leftarrow> map fst (members c). unat (stake c n))"
    unfolding stake_total_def sum_list_distinct_conv_sum_set[OF assms] by simp
  also have "\<dots> = (\<Sum>x \<leftarrow> members c. unat (stake_of (snd x)))"
    unfolding map_map comp_def
  proof (rule arg_cong[of _ _ sum_list], rule map_cong)
    fix x assume "x \<in> set (members c)"
    with assms have "map_of (members c) (fst x) = Some (snd x)" by (simp add: map_of_is_SomeI)
    then show "unat (stake c (fst x)) = unat (stake_of (snd x))" by (simp add: stake_def)
  qed simp
  finally show ?thesis .
qed

lemma stake_thresholds:
  assumes "stake_ok c"
  shows "unat (total_votes c) = stake_total c"
    and "unat (stake_quorum c) = 2 * stake_total c div 3 + 1"
    and "unat (stake_validity c) = (stake_total c + 2) div 3"
proof -
  let ?t = "stake_total c"
  have d: "distinct (map fst (members c))" and small: "2 * ?t + 2 < 2 ^ 32" using assms by (simp_all add: stake_ok_def)
  show t: "unat (total_votes c) = ?t"
    using unat_sum_list[of "\<lambda>x. stake_of (snd x)" "members c"] stake_total_list[OF d] small
    by (simp add: total_votes_def comp_def)
  have "unat (2 * total_votes c) = 2 * ?t" using t small by (simp add: unat_word_ariths)
  then have "unat (2 * total_votes c div 3) = 2 * ?t div 3" by (simp add: unat_div)
  moreover have "2 * ?t div 3 + 1 < 2 ^ 32" using small by simp
  ultimately show "unat (stake_quorum c) = 2 * ?t div 3 + 1"
    unfolding stake_quorum_def by (simp add: unat_word_ariths)
  have "unat (total_votes c + 2) = ?t + 2" using t small by (simp add: unat_word_ariths)
  then show "unat (stake_validity c) = (?t + 2) div 3" unfolding stake_validity_def by (simp add: unat_div)
qed

lemma stake_validity_system:
  assumes "stake_ok c"
  shows "validity_system (fst ` set (members c)) (\<lambda>n. unat (stake c n)) (unat (stake_quorum c))
    ((stake_total c - 1) div 3) (unat (stake_validity c))"
proof -
  have t: "0 < stake_total c" using assms by (simp add: stake_ok_def)
  have "t < (2 * t div 3 + 1) + (t + 2) div 3" "0 < t \<Longrightarrow> (t - 1) div 3 < (t + 2) div 3" for t :: nat by presburger+
  with t show ?thesis
    unfolding stake_thresholds[OF assms]
    by (intro validity_system.intro validity_system_axioms.intro stake_quorums.quorum_system_axioms)
      (simp_all flip: stake_total_def)
qed

text \<open>The weight that verifying a certificate adds up.\<close>

lemma stake_le_total: "stake_ok c \<Longrightarrow> A \<subseteq> fst ` set (members c) \<Longrightarrow> (\<Sum>n \<in> A. unat (stake c n)) \<le> stake_total c"
  unfolding stake_total_def by (rule sum_mono2) auto

lemma stake_member: "0 < stake c n \<Longrightarrow> n \<in> fst ` set (members c)"
  by (force simp: stake_def map_of_eq_None_iff split: option.splits dest: map_of_SomeD)

lemma cert_weight_Inr:
  "cert_weight c vs used w = Inr w' \<Longrightarrow> used \<subseteq> fst ` set (members c) \<Longrightarrow>
    unat w = (\<Sum>n \<in> used. unat (stake c n)) \<Longrightarrow> stake_ok c \<Longrightarrow>
    distinct (map fst vs) \<and> fst ` set vs \<inter> used = {} \<and> fst ` set vs \<subseteq> fst ` set (members c) \<and>
    unat w' = (\<Sum>n \<in> used \<union> fst ` set vs. unat (stake c n))"
proof (induction c vs used w rule: cert_weight.induct)
  case (2 c name s vs used w)
  have pre: "name \<notin> used" "0 < stake c name" "cert_weight c vs (insert name used) (w + stake c name) = Inr w'"
    using 2(2) by (auto simp: ensure_def split: if_splits)
  have sub: "insert name used \<subseteq> fst ` set (members c)" using 2(3) stake_member[OF pre(2)] by simp
  have fin: "finite used" using 2(3) finite_subset by blast
  have sum: "(\<Sum>n \<in> insert name used. unat (stake c n)) = unat w + unat (stake c name)"
    using pre(1) fin 2(4) by simp
  have "unat (w + stake c name) = unat w + unat (stake c name)"
    using stake_le_total[OF 2(5) sub] 2(5) sum by (intro unat_add_small) (simp add: stake_ok_def)
  then have "distinct (map fst vs) \<and> fst ` set vs \<inter> insert name used = {} \<and> fst ` set vs \<subseteq> fst ` set (members c) \<and>
      unat w' = (\<Sum>n \<in> insert name used \<union> fst ` set vs. unat (stake c n))"
    using 2(1) pre sub sum 2(5) by (simp add: ensure_def)
  then show ?case using stake_member[OF pre(2)] pre(1) by auto
qed simp

end
