(* ===== verification/ConsensusDag.thy ===== *)
theory ConsensusDag
  imports NarwhalTypes "HOL-Library.AList"
begin

text \<open>
  The consensus state that \<open>narwhal/consensus/src/lib.rs\<close> (Tusk) and
  \<open>narwhal/consensus/src/mp3bft.rs\<close> share: the map of certificates by round and author, the last
  committed rounds, its clean-up, the test for a path between two certificates, and the
  depth-first search that flattens the history of a leader.

  A hash map is the association list of its entries. The state record is extended by MP3-BFT++, so
  its operations are written once, for every extension.
\<close>

section \<open>The state\<close>

type_synonym Dag = "(Round \<times> (PublicKey \<times> Digest \<times> Certificate) list) list"

record State =
  last_committed_round :: Round
  last_committed :: "(PublicKey \<times> Round) list"
  dag :: Dag

definition genesis_entries :: "(u8 list \<Rightarrow> u8 list) \<Rightarrow> Certificate list \<Rightarrow> (PublicKey \<times> Digest \<times> Certificate) list" where
  "genesis_entries sha512 gen = fold (\<lambda>x. AList.update (origin x) (cert_digest sha512 x, x)) gen []"

definition state_new :: "(u8 list \<Rightarrow> u8 list) \<Rightarrow> Certificate list \<Rightarrow> State" where
  "state_new sha512 gen =
     \<lparr>last_committed_round = 0,
      last_committed = map (\<lambda>(x, _, y). (x, cert_round y)) (genesis_entries sha512 gen),
      dag = [(0, genesis_entries sha512 gen)]\<rparr>"

text \<open>The insertion of a received certificate.\<close>

definition dag_insert :: "(u8 list \<Rightarrow> u8 list) \<Rightarrow> Certificate \<Rightarrow> Dag \<Rightarrow> Dag" where
  "dag_insert sha512 x d =
     AList.update (cert_round x)
       (AList.update (origin x) (cert_digest sha512 x, x)
         (case map_of d (cert_round x) of None \<Rightarrow> [] | Some authorities \<Rightarrow> authorities)) d"

text \<open>\<open>update\<close>: record a commit, then drop what no later commit needs.\<close>

definition commit_round :: "Certificate \<Rightarrow> (PublicKey \<times> Round) list \<Rightarrow> (PublicKey \<times> Round) list" where
  "commit_round x lc =
     AList.update (origin x)
       (case map_of lc (origin x) of None \<Rightarrow> cert_round x | Some r \<Rightarrow> max r (cert_round x)) lc"

definition retain_dag :: "Round \<Rightarrow> Round \<Rightarrow> PublicKey \<times> Round \<Rightarrow> Dag \<Rightarrow> Dag" where
  "retain_dag gc lcr = (\<lambda>(name, rd) d.
     filter (\<lambda>(r, authorities). authorities \<noteq> [] \<and> r + gc \<ge> lcr)
       (map (\<lambda>(r, authorities). (r, filter (\<lambda>(n, _). n \<noteq> name \<or> r \<ge> rd) authorities)) d))"

definition state_update :: "Round \<Rightarrow> Certificate \<Rightarrow> 'a State_scheme \<Rightarrow> 'a State_scheme" where
  "state_update gc x st =
     (let lc = commit_round x (last_committed st);
          lcr = fold max (map snd lc) 0
      in st\<lparr>last_committed := lc, last_committed_round := lcr, dag := fold (retain_dag gc lcr) lc (dag st)\<rparr>)"

section \<open>Leaders and paths\<close>

text \<open>The leader of a round: round robin over the sorted keys.\<close>

definition leader_key :: "NarwhalCommittee \<Rightarrow> Round \<Rightarrow> PublicKey rust" where
  "leader_key c rd = rbind (rrem rd (members_size c)) (vget (sort (map fst (members c))))"

definition leader :: "NarwhalCommittee \<Rightarrow> Round \<Rightarrow> Dag \<Rightarrow> (Digest \<times> Certificate) option rust" where
  "leader c rd d =
     rbind (leader_key c rd) (\<lambda>key. Inr (Option.bind (map_of d rd) (\<lambda>x. map_of x key)))"

definition linked_round :: "Dag \<Rightarrow> Round \<Rightarrow> Certificate list \<Rightarrow> Certificate list rust" where
  "linked_round d r ps =
     (case map_of d r of
        None \<Rightarrow> Inl ExpectFailed
      | Some authorities \<Rightarrow>
          Inr (map snd (filter (\<lambda>(digest, _). list_ex (\<lambda>x. digest \<in> set (parents (header x))) ps)
                 (map snd authorities))))"

definition linked :: "Certificate \<Rightarrow> Certificate \<Rightarrow> Dag \<Rightarrow> bool rust" where
  "linked x prev d =
     rbind (rfold (linked_round d) (rev [cert_round prev..<cert_round x]) [x])
       (\<lambda>ps. Inr (list_ex (cert_eq prev) ps))"

text \<open>
  One round of the walk back from a leader: if the round has a leader and a path leads to it, it is
  to be committed too, and the walk goes on from there.
\<close>

definition walk_back ::
  "NarwhalCommittee \<Rightarrow> Dag \<Rightarrow> Round \<Rightarrow> Certificate \<times> Certificate list \<Rightarrow> (Certificate \<times> Certificate list) rust" where
  "walk_back c d r = (\<lambda>(x, to_commit).
     rbind (leader c r d) (\<lambda>l.
       case l of
         None \<Rightarrow> Inr (x, to_commit)
       | Some (_, prev) \<Rightarrow>
           rbind (linked x prev d) (\<lambda>b. Inr (if b then (prev, to_commit @ [prev]) else (x, to_commit)))))"

text \<open>The support of a leader: the stake of the certificates of a round that name it as a parent.\<close>

definition support :: "NarwhalCommittee \<Rightarrow> Digest \<Rightarrow> (PublicKey \<times> Digest \<times> Certificate) list \<Rightarrow> Stake" where
  "support c digest authorities =
     sum_list (map (\<lambda>(_, x). stake c (origin x))
       (filter (\<lambda>(_, x). digest \<in> set (parents (header x))) (map snd authorities)))"

section \<open>The history of a leader\<close>

text \<open>
  The entry of a parent, one round below. Nothing is below round zero: there \<open>round() - 1\<close> wraps to
  a round that no certificate has.
\<close>

definition parent_entry :: "Dag \<Rightarrow> Certificate \<Rightarrow> Digest \<Rightarrow> (Digest \<times> Certificate) option" where
  "parent_entry d x p =
     (if cert_round x = 0 then None
      else Option.bind (map_of d (cert_round x - 1)) (\<lambda>authorities. find (\<lambda>(digest, _). digest = p) (map snd authorities)))"

definition visit_parent ::
  "Dag \<Rightarrow> (PublicKey \<times> Round) list \<Rightarrow> Certificate \<Rightarrow> Digest \<Rightarrow> Certificate list \<times> Digest set
   \<Rightarrow> Certificate list \<times> Digest set" where
  "visit_parent d lc x p = (\<lambda>(buffer, already_ordered).
     case parent_entry d x p of
       None \<Rightarrow> (buffer, already_ordered)
     | Some (digest, y) \<Rightarrow>
         if digest \<in> already_ordered \<or> map_of lc (origin y) = Some (cert_round y)
         then (buffer, already_ordered)
         else (y # buffer, insert digest already_ordered))"

definition dag_digests :: "Dag \<Rightarrow> Digest set" where
  "dag_digests d = (\<Union>(_, authorities) \<in> set d. (fst \<circ> snd) ` set authorities)"

lemma finite_dag_digests [simp]: "finite (dag_digests d)"
  by (auto simp: dag_digests_def)

lemma parent_entry_digest:
  assumes "parent_entry d x p = Some (digest, y)"
  shows "digest = p" "digest \<in> dag_digests d"
proof -
  from assms obtain authorities where "map_of d (cert_round x - 1) = Some authorities"
    and "find (\<lambda>(digest, _). digest = p) (map snd authorities) = Some (digest, y)"
    by (auto simp: parent_entry_def bind_eq_Some_conv split: if_splits)
  then have "(cert_round x - 1, authorities) \<in> set d" "(digest, y) \<in> snd ` set authorities" "digest = p"
    by (auto simp: find_Some_iff in_set_conv_nth dest!: map_of_SomeD intro: nth_mem) (metis nth_mem image_eqI snd_conv)+
  then show "digest = p" "digest \<in> dag_digests d" by (force simp: dag_digests_def)+
qed

text \<open>Visiting the parents never grows the work left: a certificate pushed is a digest used up.\<close>

definition dfs_work :: "Dag \<Rightarrow> Certificate list \<times> Digest set \<Rightarrow> nat" where
  "dfs_work d = (\<lambda>(buffer, already_ordered). length buffer + card (dag_digests d - already_ordered))"

lemma visit_parent_work: "dfs_work d (visit_parent d lc x p s) \<le> dfs_work d s"
proof (cases s)
  case (Pair buffer seen)
  show ?thesis
  proof (cases "parent_entry d x p")
    case (Some e)
    obtain digest y where e: "e = (digest, y)" by fastforce
    have "digest \<in> dag_digests d" using parent_entry_digest Some e by blast
    then have "digest \<notin> seen \<Longrightarrow> card (dag_digests d - seen) = Suc (card (dag_digests d - insert digest seen))"
      by (metis Diff_iff Diff_insert card_Suc_Diff1 finite_Diff finite_dag_digests)
    with Some e show ?thesis by (simp add: Pair visit_parent_def dfs_work_def)
  qed (simp add: Pair visit_parent_def)
qed

lemma visit_parents_work: "dfs_work d (fold (visit_parent d lc x) ps s) \<le> dfs_work d s"
proof (induction ps arbitrary: s)
  case (Cons p ps)
  show ?case using order.trans[OF Cons visit_parent_work] by simp
qed simp

function dfs :: "Dag \<Rightarrow> (PublicKey \<times> Round) list \<Rightarrow> Certificate list \<Rightarrow> Digest set \<Rightarrow> Certificate list" where
  "dfs d lc [] already_ordered = []"
| "dfs d lc (x # buffer) already_ordered =
     (let (b, s) = fold (visit_parent d lc x) (parents (header x)) (buffer, already_ordered) in x # dfs d lc b s)"
  by pat_completeness auto

termination dfs
proof (relation "measure (\<lambda>(d, lc, b, s). dfs_work d (b, s))")
  fix d lc x buffer seen r b s
  assume "r = fold (visit_parent d lc x) (parents (header x)) (buffer, seen)" and "(b, s) = r"
  then have "dfs_work d (b, s) \<le> dfs_work d (buffer, seen)" using visit_parents_work by metis
  also have "\<dots> < dfs_work d (x # buffer, seen)" by (simp add: dfs_work_def)
  finally show "((d, lc, b, s), d, lc, x # buffer, seen) \<in> measure (\<lambda>(d, lc, b, s). dfs_work d (b, s))" by simp
qed simp

definition order_dag :: "Round \<Rightarrow> Certificate \<Rightarrow> 'a State_scheme \<Rightarrow> Certificate list" where
  "order_dag gc x st =
     sort_key cert_round (filter (\<lambda>y. cert_round y + gc \<ge> last_committed_round st) (dfs (dag st) (last_committed st) [x] {}))"

text \<open>The commit of a leader: flatten its history, then update the state certificate by certificate.\<close>

definition commit_leader ::
  "Round \<Rightarrow> Certificate \<Rightarrow> Certificate list \<times> 'a State_scheme \<Rightarrow> Certificate list \<times> 'a State_scheme" where
  "commit_leader gc x = (\<lambda>(sequence, st).
     let xs = order_dag gc x st in (sequence @ xs, fold (state_update gc) xs st))"

end
