(* ===== verification/DagState.thy ===== *)
theory DagState
  imports ConsensusDag
begin

text \<open>
  Invariants of the consensus state: what the map of certificates holds and what an update
  removes from it.
\<close>

section \<open>Entries\<close>

definition entry :: "Dag \<Rightarrow> Round \<Rightarrow> PublicKey \<Rightarrow> (Digest \<times> Certificate) option" where
  "entry d r n = Option.bind (map_of d r) (\<lambda>authorities. map_of authorities n)"

definition authorities_wf :: "(u8 list \<Rightarrow> u8 list) \<Rightarrow> Round \<Rightarrow> (PublicKey \<times> Digest \<times> Certificate) list \<Rightarrow> bool" where
  "authorities_wf sha512 r authorities \<longleftrightarrow> distinct (map fst authorities) \<and>
     (\<forall>n digest x. map_of authorities n = Some (digest, x) \<longrightarrow>
        r = cert_round x \<and> n = origin x \<and> digest = cert_digest sha512 x)"

definition dag_wf :: "(u8 list \<Rightarrow> u8 list) \<Rightarrow> Dag \<Rightarrow> bool" where
  "dag_wf sha512 d \<longleftrightarrow> distinct (map fst d) \<and>
     (\<forall>r authorities. map_of d r = Some authorities \<longrightarrow> authorities_wf sha512 r authorities)"

abbreviation in_dag :: "(u8 list \<Rightarrow> u8 list) \<Rightarrow> Dag \<Rightarrow> Certificate \<Rightarrow> bool" where
  "in_dag sha512 d x \<equiv> entry d (cert_round x) (origin x) = Some (cert_digest sha512 x, x)"

lemma entryD:
  assumes "dag_wf sha512 d" and "entry d r n = Some (digest, x)"
  shows "cert_round x = r" "origin x = n" "digest = cert_digest sha512 x" "in_dag sha512 d x"
  using assms by (auto simp: dag_wf_def authorities_wf_def entry_def bind_eq_Some_conv)

lemma values_entry:
  assumes "dag_wf sha512 d" and "map_of d r = Some authorities"
  shows "e \<in> snd ` set authorities \<longleftrightarrow> (\<exists>x. e = (cert_digest sha512 x, x) \<and> cert_round x = r \<and> in_dag sha512 d x)"
proof -
  have "authorities_wf sha512 r authorities" using assms by (simp add: dag_wf_def)
  then have d: "distinct (map fst authorities)"
    and wf: "\<And>n digest x. map_of authorities n = Some (digest, x) \<Longrightarrow>
      r = cert_round x \<and> n = origin x \<and> digest = cert_digest sha512 x"
    unfolding authorities_wf_def by blast+
  have ent: "entry d r n = map_of authorities n" for n by (simp add: entry_def assms(2))
  have "e \<in> snd ` set authorities \<longleftrightarrow> (\<exists>n. map_of authorities n = Some e)"
    using d by (force simp: image_iff)
  also have "\<dots> \<longleftrightarrow> (\<exists>x. e = (cert_digest sha512 x, x) \<and> cert_round x = r \<and> in_dag sha512 d x)"
    using wf[of _ "fst e" "snd e"] ent by (metis prod.collapse fst_conv snd_conv)
  finally show ?thesis .
qed

lemma in_dag_digests: "in_dag sha512 d x \<Longrightarrow> cert_digest sha512 x \<in> dag_digests d"
  by (force simp: entry_def dag_digests_def bind_eq_Some_conv dest!: map_of_SomeD)

lemma authorities_wf_Nil [simp]: "authorities_wf sha512 r []"
  by (simp add: authorities_wf_def)

lemma authorities_wf_single [simp]:
  "authorities_wf sha512 (cert_round x) [(origin x, cert_digest sha512 x, x)]"
  by (simp add: authorities_wf_def)

lemma authorities_wf_filter:
  "authorities_wf sha512 r as \<Longrightarrow> authorities_wf sha512 r (filter (\<lambda>(n, _). P n) as)"
  unfolding authorities_wf_def
  by (auto simp: map_of_eq_Some_iff distinct_map_filter)

lemma authorities_wf_update:
  "authorities_wf sha512 (cert_round x) as \<Longrightarrow>
   authorities_wf sha512 (cert_round x) (AList.update (origin x) (cert_digest sha512 x, x) as)"
  by (auto simp: authorities_wf_def distinct_update update_conv')

lemma dag_insert_wf: "dag_wf sha512 d \<Longrightarrow> dag_wf sha512 (dag_insert sha512 x d)"
  unfolding dag_insert_def
  by (auto simp: dag_wf_def distinct_update update_conv' split: option.splits intro!: authorities_wf_update)

lemma entry_dag_insert:
  "entry (dag_insert sha512 x d) r n =
    (if r = cert_round x \<and> n = origin x then Some (cert_digest sha512 x, x) else entry d r n)"
  by (auto simp: entry_def dag_insert_def update_conv' split: option.splits)

section \<open>Updates\<close>

lemma map_of_map_filter_key:
  "distinct (map fst xs) \<Longrightarrow>
   map_of (filter (\<lambda>(k, v). P k v) xs) k = (case map_of xs k of None \<Rightarrow> None | Some v \<Rightarrow> if P k v then Some v else None)"
  by (induction xs) (auto split: option.splits if_splits simp: map_of_eq_None_iff image_iff dest: map_of_SomeD)

lemma map_of_map_key: "map_of (map (\<lambda>(k, v). (k, f k v)) xs) k = map_option (f k) (map_of xs k)"
  by (induction xs) auto

lemma retain_dag_map_of:
  assumes "distinct (map fst d)"
  shows "map_of (retain_dag gc lcr (name, rd) d) r =
    (case map_of d r of None \<Rightarrow> None | Some as \<Rightarrow>
       let as' = filter (\<lambda>(n, _). n \<noteq> name \<or> r \<ge> rd) as in if as' \<noteq> [] \<and> r + gc \<ge> lcr then Some as' else None)"
proof -
  have "distinct (map fst (map (\<lambda>(r, as). (r, filter (\<lambda>(n, _). n \<noteq> name \<or> r \<ge> rd) as)) d))"
    using assms by (simp add: comp_def split_def)
  from map_of_map_filter_key[OF this] show ?thesis
    by (auto simp: retain_dag_def map_of_map_key Let_def split: option.splits)
qed

lemma retain_dag_distinct: "distinct (map fst d) \<Longrightarrow> distinct (map fst (retain_dag gc lcr e d))"
  by (cases e) (auto simp: retain_dag_def comp_def split_def intro!: distinct_map_filter)

lemma retain_dag_wf:
  assumes "dag_wf sha512 d"
  shows "dag_wf sha512 (retain_dag gc lcr (name, rd) d)"
proof -
  have d: "distinct (map fst d)" and wf: "\<And>r as. map_of d r = Some as \<Longrightarrow> authorities_wf sha512 r as"
    using assms unfolding dag_wf_def by blast+
  have "authorities_wf sha512 r as'" if "map_of (retain_dag gc lcr (name, rd) d) r = Some as'" for r as'
    using that wf[of r] authorities_wf_filter[of sha512 r _ "\<lambda>n. n \<noteq> name \<or> rd \<le> r"]
    unfolding retain_dag_map_of[OF d] by (auto simp: Let_def split: option.splits if_splits)
  then show ?thesis unfolding dag_wf_def using retain_dag_distinct[OF d] by blast
qed

lemma entry_retain_dag:
  assumes "dag_wf sha512 d"
  shows "entry (retain_dag gc lcr (name, rd) d) r n =
    (if (n = name \<longrightarrow> rd \<le> r) \<and> lcr \<le> r + gc then entry d r n else None)"
proof (cases "map_of d r")
  case (Some as)
  let ?as = "filter (\<lambda>(n, _). n \<noteq> name \<or> r \<ge> rd) as"
  have d: "distinct (map fst d)" and a: "distinct (map fst as)"
    using assms Some unfolding dag_wf_def authorities_wf_def by blast+
  have "entry (retain_dag gc lcr (name, rd) d) r n = (if ?as \<noteq> [] \<and> lcr \<le> r + gc then map_of ?as n else None)"
    by (simp add: entry_def retain_dag_map_of[OF d] Some Let_def)
  also have "\<dots> = (if lcr \<le> r + gc then map_of ?as n else None)" by (cases ?as) simp_all
  also have "map_of ?as n = (if n = name \<longrightarrow> rd \<le> r then map_of as n else None)"
    using map_of_map_filter_key[OF a, of "\<lambda>k v. k \<noteq> name \<or> r \<ge> rd" n] by (cases "map_of as n") simp_all
  also have "map_of as n = entry d r n" by (simp add: entry_def Some)
  finally show ?thesis by simp
next
  case None
  have "distinct (map fst d)" using assms unfolding dag_wf_def by blast
  then show ?thesis using None by (simp add: entry_def retain_dag_map_of)
qed

lemma retain_all_wf: "dag_wf sha512 d \<Longrightarrow> dag_wf sha512 (fold (retain_dag gc lcr) lc d)"
  by (induction lc arbitrary: d) (auto simp: retain_dag_wf)

lemma entry_retain_all:
  "dag_wf sha512 d \<Longrightarrow>
   entry (fold (retain_dag gc lcr) lc d) r n =
     (if (\<forall>rd. (n, rd) \<in> set lc \<longrightarrow> rd \<le> r) \<and> (lc = [] \<or> lcr \<le> r + gc) then entry d r n else None)"
proof (induction lc arbitrary: d)
  case (Cons e lc)
  obtain name rd where e: "e = (name, rd)" by fastforce
  show ?case using Cons.IH[OF retain_dag_wf[OF Cons.prems, of gc lcr name rd]] entry_retain_dag[OF Cons.prems] unfolding e
    by auto
qed simp

text \<open>The last committed round is the maximum over the authors.\<close>

definition state_wf :: "(u8 list \<Rightarrow> u8 list) \<Rightarrow> 'a State_scheme \<Rightarrow> bool" where
  "state_wf sha512 st \<longleftrightarrow> dag_wf sha512 (dag st) \<and> distinct (map fst (last_committed st)) \<and>
     last_committed_round st = fold max (map snd (last_committed st)) 0"

lemma fold_max_le: "fold max xs a \<le> b \<longleftrightarrow> a \<le> b \<and> (\<forall>x \<in> set xs. x \<le> b)" for a b :: nat
  by (induction xs arbitrary: a) auto

lemma lc_max_le:
  "distinct (map fst lc) \<Longrightarrow> fold max (map snd lc) 0 \<le> (b :: nat) \<longleftrightarrow> (\<forall>n r. map_of lc n = Some r \<longrightarrow> r \<le> b)"
  by (auto simp: fold_max_le map_of_eq_Some_iff)

lemma map_of_commit_round:
  "map_of (commit_round x lc) n =
    (if n = origin x then Some (case map_of lc n of None \<Rightarrow> cert_round x | Some r \<Rightarrow> max r (cert_round x))
     else map_of lc n)"
  by (simp add: commit_round_def update_conv')

lemma commit_round_distinct: "distinct (map fst lc) \<Longrightarrow> distinct (map fst (commit_round x lc))"
  by (simp add: commit_round_def distinct_update)

lemma commit_round_max:
  assumes "distinct (map fst lc)"
  shows "fold max (map snd (commit_round x lc)) 0 = max (fold max (map snd lc) 0) (cert_round x)"
proof -
  have "fold max (map snd (commit_round x lc)) 0 \<le> b \<longleftrightarrow> max (fold max (map snd lc) 0) (cert_round x) \<le> b" for b
    unfolding lc_max_le[OF commit_round_distinct[OF assms]] max.bounded_iff lc_max_le[OF assms] map_of_commit_round
    by (auto split: option.splits if_splits)
  then show ?thesis by (meson order.antisym order_refl)
qed

lemma state_update_wf: "state_wf sha512 st \<Longrightarrow> state_wf sha512 (state_update gc x st)"
  by (simp add: state_wf_def state_update_def Let_def retain_all_wf commit_round_distinct)

lemma state_update_round:
  "state_wf sha512 st \<Longrightarrow> last_committed_round (state_update gc x st) = max (last_committed_round st) (cert_round x)"
  by (simp add: state_wf_def state_update_def Let_def commit_round_max)

lemma state_update_committed: "last_committed (state_update gc x st) = commit_round x (last_committed st)"
  by (simp add: state_update_def Let_def)

lemma state_update_entry:
  assumes "state_wf sha512 st"
  shows "entry (dag (state_update gc x st)) r n =
    (if (\<forall>rd. map_of (last_committed (state_update gc x st)) n = Some rd \<longrightarrow> rd \<le> r) \<and>
        last_committed_round (state_update gc x st) \<le> r + gc
     then entry (dag st) r n else None)"
proof -
  let ?lc = "commit_round x (last_committed st)"
  have d: "distinct (map fst ?lc)" and wf: "dag_wf sha512 (dag st)"
    using assms by (simp_all add: state_wf_def commit_round_distinct)
  have "?lc \<noteq> []" by (simp add: commit_round_def update_nonempty)
  then show ?thesis
    using entry_retain_all[OF wf, of gc "fold max (map snd ?lc) 0" ?lc r n] map_of_eq_Some_iff[OF d, of n]
    by (simp add: state_update_def Let_def)
qed

lemma committed_le_round:
  assumes "state_wf sha512 st" and "map_of (last_committed st) n = Some r"
  shows "r \<le> last_committed_round st"
proof -
  have "distinct (map fst (last_committed st))" "last_committed_round st = fold max (map snd (last_committed st)) 0"
    using assms(1) by (simp_all add: state_wf_def)
  with lc_max_le[of "last_committed st" "last_committed_round st"] assms(2) show ?thesis by simp
qed

lemma state_updates_wf: "state_wf sha512 st \<Longrightarrow> state_wf sha512 (fold (state_update gc) xs st)"
  by (induction xs arbitrary: st) (simp_all add: state_update_wf)

lemma state_updates_round:
  "state_wf sha512 st \<Longrightarrow>
   last_committed_round (fold (state_update gc) xs st) = fold max (map cert_round xs) (last_committed_round st)"
  by (induction xs arbitrary: st) (simp_all add: state_update_wf state_update_round max.commute)

text \<open>Updates leave the rounds above the last committed one alone.\<close>

lemma state_updates_entry:
  "state_wf sha512 st \<Longrightarrow> last_committed_round (fold (state_update gc) xs st) < r \<Longrightarrow>
   entry (dag (fold (state_update gc) xs st)) r n = entry (dag st) r n"
proof (induction xs arbitrary: st)
  case (Cons x xs)
  let ?u = "state_update gc x st"
  have wf: "state_wf sha512 ?u" using Cons.prems(1) by (rule state_update_wf)
  have "last_committed_round ?u \<le> last_committed_round (fold (state_update gc) xs ?u)"
    unfolding state_updates_round[OF wf] using fold_max_le by blast
  with Cons.prems(2) have lt: "last_committed_round ?u < r" by simp
  have "rd \<le> r" if "map_of (last_committed ?u) n = Some rd" for rd
    using committed_le_round[OF wf that] lt by simp
  then have "entry (dag ?u) r n = entry (dag st) r n"
    using lt unfolding state_update_entry[OF Cons.prems(1)] by auto
  with Cons.IH[OF wf] Cons.prems(2) show ?case by simp
qed simp

end
