(* ===== verification/DagSearch.thy ===== *)
theory DagSearch
  imports DagState
begin

text \<open>
  What the depth-first search of \<open>order_dag\<close> returns, and what the commit of leaders keeps of the
  consensus state. Both consensus protocols rest on these lemmas.
\<close>

section \<open>The search\<close>

definition cert_key :: "Certificate \<Rightarrow> Round \<times> PublicKey" where
  "cert_key x = (cert_round x, origin x)"

lemma cert_key_eq [simp]: "cert_key x = cert_key y \<longleftrightarrow> cert_round x = cert_round y \<and> origin x = origin y"
  by (simp add: cert_key_def)

text \<open>A step of the search: a parent in the map that its author has not committed.\<close>

definition search_step ::
  "(u8 list \<Rightarrow> u8 list) \<Rightarrow> Dag \<Rightarrow> (PublicKey \<times> Round) list \<Rightarrow> Certificate \<Rightarrow> Certificate \<Rightarrow> bool" where
  "search_step sha512 d lc x y \<longleftrightarrow> in_dag sha512 d y \<and> cert_round x = Suc (cert_round y) \<and>
     cert_digest sha512 y \<in> set (parents (header x)) \<and> map_of lc (origin y) \<noteq> Some (cert_round y)"

lemma parent_entry_SomeD:
  assumes "dag_wf sha512 d" and "parent_entry d x p = Some (digest, y)"
  shows "in_dag sha512 d y" "cert_round x = Suc (cert_round y)" "cert_digest sha512 y = p" "digest = p"
proof -
  from assms(2) obtain as where as: "map_of d (cert_round x - 1) = Some as" "0 < cert_round x"
    and f: "find (\<lambda>(digest, _). digest = p) (map snd as) = Some (digest, y)"
    by (auto simp: parent_entry_def bind_eq_Some_conv split: if_splits)
  have "(digest, y) \<in> snd ` set as" using f by (auto simp: find_Some_iff in_set_conv_nth) (metis nth_mem image_eqI snd_conv)
  with values_entry[OF assms(1) as(1)] as(2) show "in_dag sha512 d y" "cert_round x = Suc (cert_round y)"
    and "cert_digest sha512 y = p" "digest = p"
    using parent_entry_digest(1)[OF assms(2)] by auto
qed

lemma parent_entry_ex:
  assumes "dag_wf sha512 d" and "in_dag sha512 d y" and "cert_round x = Suc (cert_round y)"
  shows "\<exists>z. parent_entry d x (cert_digest sha512 y) = Some (cert_digest sha512 y, z)"
proof -
  obtain as where as: "map_of d (cert_round y) = Some as" using assms(2) by (auto simp: entry_def bind_eq_Some_conv)
  have "(cert_digest sha512 y, y) \<in> set (map snd as)" using values_entry[OF assms(1) as] assms(2) by auto
  then have "find (\<lambda>(digest, _). digest = cert_digest sha512 y) (map snd as) \<noteq> None"
    unfolding find_None_iff by (metis (mono_tags, lifting) case_prodI)
  then obtain e where e: "parent_entry d x (cert_digest sha512 y) = Some e"
    using as assms(3) by (auto simp: parent_entry_def)
  then show ?thesis using parent_entry_digest(1)[of d x _ "fst e" "snd e"] by (cases e) auto
qed

lemma visit_parents:
  assumes "dag_wf sha512 d" and "fold (visit_parent d lc x) ps (buf, seen) = (b, s)" and "set ps \<subseteq> set (parents (header x))"
  shows "\<exists>new. b = new @ buf \<and> s = seen \<union> cert_digest sha512 ` set new \<and> distinct (map (cert_digest sha512) new) \<and>
    (\<forall>y \<in> set new. search_step sha512 d lc x y \<and> cert_digest sha512 y \<notin> seen) \<and>
    (\<forall>p \<in> set ps. \<forall>e y. parent_entry d x p = Some (e, y) \<longrightarrow> map_of lc (origin y) = Some (cert_round y) \<or> p \<in> s)"
  using assms(2,3)
proof (induction ps arbitrary: buf seen)
  case Nil
  then show ?case by simp
next
  case (Cons p ps)
  obtain buf1 seen1 where v: "visit_parent d lc x p (buf, seen) = (buf1, seen1)" by fastforce
  from Cons.IH[of buf1 seen1] Cons.prems v obtain new where
    new: "b = new @ buf1" "s = seen1 \<union> cert_digest sha512 ` set new" "distinct (map (cert_digest sha512) new)"
      "\<And>y. y \<in> set new \<Longrightarrow> search_step sha512 d lc x y \<and> cert_digest sha512 y \<notin> seen1"
      "\<And>q e y. q \<in> set ps \<Longrightarrow> parent_entry d x q = Some (e, y) \<Longrightarrow> map_of lc (origin y) = Some (cert_round y) \<or> q \<in> s"
    by auto
  show ?case
  proof (cases "(buf1, seen1) = (buf, seen)")
    case True
    have "map_of lc (origin y) = Some (cert_round y) \<or> p \<in> seen" if "parent_entry d x p = Some (e, y)" for e y
      using v that parent_entry_digest(1)[OF that] True by (auto simp: visit_parent_def split: if_splits)
    then have all: "map_of lc (origin y) = Some (cert_round y) \<or> q \<in> s"
      if "q \<in> set (p # ps)" "parent_entry d x q = Some (e, y)" for q e y
      using that new(2) new(5)[OF _ that(2)] True by auto
    have "b = new @ buf" "s = seen \<union> cert_digest sha512 ` set new" using True new(1,2) by simp_all
    moreover have "\<forall>y \<in> set new. search_step sha512 d lc x y \<and> cert_digest sha512 y \<notin> seen"
      using True new(4) by simp
    moreover note new(3)
    moreover have "\<forall>q \<in> set (p # ps). \<forall>e y. parent_entry d x q = Some (e, y) \<longrightarrow>
        map_of lc (origin y) = Some (cert_round y) \<or> q \<in> s" by (intro ballI allI impI) (rule all)
    ultimately show ?thesis by (intro exI[of _ new] conjI)
  next
    case False
    then obtain e y where pe: "parent_entry d x p = Some (e, y)"
      using v unfolding visit_parent_def by (cases "parent_entry d x p") auto
    with False v have e: "e \<notin> seen" "map_of lc (origin y) \<noteq> Some (cert_round y)"
      "buf1 = y # buf" "seen1 = insert e seen"
      unfolding visit_parent_def by (simp_all split: if_splits)
    have e_p: "e = p" and y: "search_step sha512 d lc x y" "cert_digest sha512 y = p"
      using parent_entry_SomeD[OF assms(1) pe] e(2) Cons.prems(2) by (auto simp: search_step_def)
    have all: "map_of lc (origin z) = Some (cert_round z) \<or> q \<in> s"
      if "q \<in> set (p # ps)" "parent_entry d x q = Some (f, z)" for q f z
      using that new(2) new(5)[OF _ that(2)] e(4) e_p by auto
    have "b = (new @ [y]) @ buf" "s = seen \<union> cert_digest sha512 ` set (new @ [y])"
      using new(1,2) e(3,4) e_p y(2) by auto
    moreover have "distinct (map (cert_digest sha512) (new @ [y]))"
    proof -
      have "cert_digest sha512 z \<noteq> p" if "z \<in> set new" for z using new(4)[OF that] e(4) e_p by auto
      then have "p \<notin> cert_digest sha512 ` set new" by blast
      then show ?thesis using new(3) y(2) by simp
    qed
    moreover have "\<forall>z \<in> set (new @ [y]). search_step sha512 d lc x z \<and> cert_digest sha512 z \<notin> seen"
      using new(4) e(1,4) e_p y by auto
    moreover have "\<forall>q \<in> set (p # ps). \<forall>e y. parent_entry d x q = Some (e, y) \<longrightarrow>
        map_of lc (origin y) = Some (cert_round y) \<or> q \<in> s" by (intro ballI allI impI) (rule all)
    ultimately show ?thesis by (intro exI[of _ "new @ [y]"] conjI)
  qed
qed

definition dag_inj :: "(u8 list \<Rightarrow> u8 list) \<Rightarrow> Dag \<Rightarrow> bool" where
  "dag_inj sha512 d \<longleftrightarrow>
     (\<forall>y z. in_dag sha512 d y \<and> in_dag sha512 d z \<and> cert_digest sha512 y = cert_digest sha512 z \<longrightarrow> y = z)"

lemma dfs_visit:
  assumes "dag_wf sha512 d"
  obtains new where
    "fold (visit_parent d lc x) (parents (header x)) (buf, seen) = (new @ buf, seen \<union> cert_digest sha512 ` set new)"
    "distinct (map (cert_digest sha512) new)"
    "\<And>y. y \<in> set new \<Longrightarrow> search_step sha512 d lc x y \<and> cert_digest sha512 y \<notin> seen"
    "\<And>y. dag_inj sha512 d \<Longrightarrow> search_step sha512 d lc x y \<Longrightarrow> cert_digest sha512 y \<in> seen \<union> cert_digest sha512 ` set new"
proof -
  obtain b s where f: "fold (visit_parent d lc x) (parents (header x)) (buf, seen) = (b, s)" by fastforce
  from visit_parents[OF assms this order_refl] obtain new where
    new: "b = new @ buf" "s = seen \<union> cert_digest sha512 ` set new" "distinct (map (cert_digest sha512) new)"
      "\<forall>y \<in> set new. search_step sha512 d lc x y \<and> cert_digest sha512 y \<notin> seen"
      "\<forall>p \<in> set (parents (header x)). \<forall>e y. parent_entry d x p = Some (e, y) \<longrightarrow>
         map_of lc (origin y) = Some (cert_round y) \<or> p \<in> s" by (elim exE conjE)
  have "cert_digest sha512 y \<in> s" if inj: "dag_inj sha512 d" and step: "search_step sha512 d lc x y" for y
  proof -
    from step obtain z where z: "parent_entry d x (cert_digest sha512 y) = Some (cert_digest sha512 y, z)"
      using parent_entry_ex[OF assms] unfolding search_step_def by blast
    with parent_entry_SomeD[OF assms z] inj step have "z = y" by (simp add: dag_inj_def search_step_def)
    with new(5) z step show ?thesis by (auto simp: search_step_def)
  qed
  with f new(1-4) that show thesis by simp
qed

lemma dfs_sound:
  "dag_wf sha512 d \<Longrightarrow> y \<in> set (dfs d lc buf seen) \<Longrightarrow> \<exists>x \<in> set buf. (search_step sha512 d lc)\<^sup>*\<^sup>* x y"
proof (induction d lc buf seen rule: dfs.induct)
  case (2 d lc x buf seen)
  obtain new where v: "fold (visit_parent d lc x) (parents (header x)) (buf, seen) = (new @ buf, seen \<union> cert_digest sha512 ` set new)"
    "\<And>z. z \<in> set new \<Longrightarrow> search_step sha512 d lc x z" using dfs_visit[OF 2(2)] by metis
  from 2(3) v(1) consider "y = x" | "y \<in> set (dfs d lc (new @ buf) (seen \<union> cert_digest sha512 ` set new))" by auto
  then show ?case
  proof cases
    case 2
    with "2.IH"[OF v(1)[symmetric] refl "2.prems"(1)] obtain z where
      "z \<in> set (new @ buf)" "(search_step sha512 d lc)\<^sup>*\<^sup>* z y" by blast
    with v(2)[of z] show ?thesis by (auto intro: converse_rtranclp_into_rtranclp)
  qed auto
qed simp

lemma dfs_closed:
  assumes "dag_wf sha512 d" and "dag_inj sha512 d"
    and "\<And>x y. x \<in> D \<Longrightarrow> search_step sha512 d lc x y \<Longrightarrow> y \<in> D \<union> set buf"
    and "\<And>e. e \<in> seen \<Longrightarrow> \<exists>z \<in> D \<union> set buf. in_dag sha512 d z \<and> cert_digest sha512 z = e"
    and "x \<in> D \<union> set (dfs d lc buf seen)" and "search_step sha512 d lc x y"
  shows "y \<in> D \<union> set (dfs d lc buf seen)"
  using assms
proof (induction d lc buf seen arbitrary: D rule: dfs.induct)
  case (2 d lc v buf seen)
  obtain new where v: "fold (visit_parent d lc v) (parents (header v)) (buf, seen) = (new @ buf, seen \<union> cert_digest sha512 ` set new)"
    "\<And>z. z \<in> set new \<Longrightarrow> search_step sha512 d lc v z"
    "\<And>z. search_step sha512 d lc v z \<Longrightarrow> cert_digest sha512 z \<in> seen \<union> cert_digest sha512 ` set new"
    using dfs_visit[OF "2.prems"(1)] "2.prems"(2) by metis
  let ?D = "insert v D"
  have eq: "set (dfs d lc (v # buf) seen) = insert v (set (dfs d lc (new @ buf) (seen \<union> cert_digest sha512 ` set new)))"
    using v(1) by simp
  have seen: "\<exists>z \<in> ?D \<union> set (new @ buf). in_dag sha512 d z \<and> cert_digest sha512 z = e"
    if "e \<in> seen \<union> cert_digest sha512 ` set new" for e
    using that "2.prems"(4)[of e] v(2) by (auto simp: search_step_def)
  have "z \<in> ?D \<union> set (new @ buf)" if u: "u \<in> ?D" and step: "search_step sha512 d lc u z" for u z
  proof (cases "u = v")
    case True
    with seen[OF v(3)[of z]] step obtain w where "w \<in> ?D \<union> set (new @ buf)" "in_dag sha512 d w" "cert_digest sha512 w = cert_digest sha512 z"
      by blast
    with "2.prems"(2) step show ?thesis by (metis dag_inj_def search_step_def)
  next
    case False
    with u "2.prems"(3)[OF _ step] show ?thesis by auto
  qed
  with "2.IH"[OF v(1)[symmetric] refl "2.prems"(1,2), of ?D] seen "2.prems"(5,6) show ?case
    unfolding eq by blast
qed auto

lemma dfs_reaches:
  assumes "dag_wf sha512 d" and "dag_inj sha512 d"
  shows "set (dfs d lc [x] {}) = {y. (search_step sha512 d lc)\<^sup>*\<^sup>* x y}"
proof -
  define R where "R = set (dfs d lc [x] {})"
  have x: "x \<in> R" unfolding R_def by (simp add: split_def Let_def)
  have sound: "(search_step sha512 d lc)\<^sup>*\<^sup>* x y" if "y \<in> R" for y
    using dfs_sound[OF assms(1) that[unfolded R_def]] by simp
  have closed: "z \<in> R" if "y \<in> R" "search_step sha512 d lc y z" for y z
    using dfs_closed[OF assms, of "{}" lc "[x]" "{}" y z] that by (simp only: R_def Un_empty_left) blast
  have "y \<in> R" if "(search_step sha512 d lc)\<^sup>*\<^sup>* x y" for y
    using that by induction (use x closed in blast)+
  with sound show ?thesis unfolding R_def[symmetric] by blast
qed

lemma dfs_distinct:
  "dag_wf sha512 d \<Longrightarrow> (\<forall>y \<in> set buf. cert_digest sha512 y \<in> seen) \<Longrightarrow> distinct buf \<Longrightarrow>
   distinct (dfs d lc buf seen) \<and> (\<forall>y \<in> set (dfs d lc buf seen). y \<in> set buf \<or> cert_digest sha512 y \<notin> seen)"
proof (induction d lc buf seen rule: dfs.induct)
  case (2 d lc x buf seen)
  obtain new where v: "fold (visit_parent d lc x) (parents (header x)) (buf, seen) = (new @ buf, seen \<union> cert_digest sha512 ` set new)"
    "distinct (map (cert_digest sha512) new)" "\<And>z. z \<in> set new \<Longrightarrow> cert_digest sha512 z \<notin> seen"
    using dfs_visit[OF "2.prems"(1)] by metis
  let ?rest = "dfs d lc (new @ buf) (seen \<union> cert_digest sha512 ` set new)"
  have buf: "distinct (new @ buf)" "\<forall>y \<in> set (new @ buf). cert_digest sha512 y \<in> seen \<union> cert_digest sha512 ` set new"
    using v(2,3) "2.prems"(2,3) by (auto simp: distinct_map)
  have rest: "distinct ?rest" "\<And>y. y \<in> set ?rest \<Longrightarrow> y \<in> set (new @ buf) \<or> cert_digest sha512 y \<notin> seen \<union> cert_digest sha512 ` set new"
    using "2.IH"[OF v(1)[symmetric] refl "2.prems"(1) buf(2,1)] by blast+
  have "x \<notin> set ?rest" using rest(2)[of x] v(3)[of x] "2.prems"(2,3) by auto
  moreover have "y \<in> set buf \<or> cert_digest sha512 y \<notin> seen" if "y \<in> set ?rest" for y
    using rest(2)[OF that] v(3)[of y] by auto
  ultimately show ?case using rest(1) v(1) by auto
qed simp

lemma search_round: "(search_step sha512 d lc)\<^sup>*\<^sup>* x y \<Longrightarrow> cert_round y \<le> cert_round x"
  by (induction rule: rtranclp_induct) (auto simp: search_step_def)

lemma search_cases:
  assumes "(search_step sha512 d lc)\<^sup>*\<^sup>* x y"
  shows "y = x \<or> (in_dag sha512 d y \<and> cert_round y < cert_round x \<and> map_of lc (origin y) \<noteq> Some (cert_round y))"
  using assms
proof (cases rule: rtranclp.cases)
  case (rtrancl_into_rtrancl z)
  with search_round[OF rtrancl_into_rtrancl(1)] show ?thesis by (auto simp: search_step_def)
qed simp

lemma dfs_leader:
  assumes "dag_wf sha512 d"
  shows "x \<in> set (dfs d lc [x] {})" and "distinct (dfs d lc [x] {})"
    and "y \<in> set (dfs d lc [x] {}) \<Longrightarrow>
      y = x \<or> (in_dag sha512 d y \<and> cert_round y < cert_round x \<and> map_of lc (origin y) \<noteq> Some (cert_round y))"
proof -
  obtain new where v: "fold (visit_parent d lc x) (parents (header x)) ([], {}) = (new @ [], {} \<union> cert_digest sha512 ` set new)"
    "distinct (map (cert_digest sha512) new)" "\<And>z. z \<in> set new \<Longrightarrow> search_step sha512 d lc x z"
    using dfs_visit[OF assms] by metis
  let ?rest = "dfs d lc new (cert_digest sha512 ` set new)"
  have eq: "dfs d lc [x] {} = x # ?rest" using v(1) by simp
  show "x \<in> set (dfs d lc [x] {})" unfolding eq by simp
  have "distinct ?rest" using dfs_distinct[OF assms, of new "cert_digest sha512 ` set new"] v(2) by (simp add: distinct_map)
  moreover have "x \<notin> set ?rest"
  proof
    assume "x \<in> set ?rest"
    then obtain z where z: "z \<in> set new" "(search_step sha512 d lc)\<^sup>*\<^sup>* z x" using dfs_sound[OF assms] by blast
    with search_round[OF z(2)] v(3)[OF z(1)] show False by (simp add: search_step_def)
  qed
  ultimately show "distinct (dfs d lc [x] {})" unfolding eq by simp
  assume "y \<in> set (dfs d lc [x] {})"
  then have "(search_step sha512 d lc)\<^sup>*\<^sup>* x y" using dfs_sound[OF assms, of y lc "[x]" "{}"] by (simp del: dfs.simps)
  then show
    "y = x \<or> (in_dag sha512 d y \<and> cert_round y < cert_round x \<and> map_of lc (origin y) \<noteq> Some (cert_round y))"
    by (rule search_cases)
qed

declare dfs.simps(2) [simp del]

section \<open>Commits\<close>

text \<open>
  What has been committed: no author twice for a round, the last committed round of its author is
  not below it, and where they differ the certificate has left the map.
\<close>

definition commit_inv :: "(u8 list \<Rightarrow> u8 list) \<Rightarrow> Certificate list \<Rightarrow> 'a State_scheme \<Rightarrow> bool" where
  "commit_inv sha512 old st \<longleftrightarrow> state_wf sha512 st \<and> distinct (map cert_key old) \<and>
     (\<forall>x \<in> set old. \<exists>r. map_of (last_committed st) (origin x) = Some r \<and> cert_round x \<le> r \<and>
        (entry (dag st) (cert_round x) (origin x) \<noteq> None \<longrightarrow> r = cert_round x))"

lemma commit_inv_update:
  assumes "commit_inv sha512 old st" and "cert_key x \<notin> cert_key ` set old"
  shows "commit_inv sha512 (old @ [x]) (state_update gc x st)"
proof -
  let ?u = "state_update gc x st"
  have wf: "state_wf sha512 st" using assms(1) by (simp add: commit_inv_def)
  have "\<exists>r. map_of (last_committed ?u) (origin y) = Some r \<and> cert_round y \<le> r \<and>
      (entry (dag ?u) (cert_round y) (origin y) \<noteq> None \<longrightarrow> r = cert_round y)" if y: "y \<in> set (old @ [x])" for y
  proof -
    obtain r where r: "map_of (last_committed ?u) (origin y) = Some r" "cert_round y \<le> r"
    proof (cases "y \<in> set old")
      case True
      then obtain r where "map_of (last_committed st) (origin y) = Some r" "cert_round y \<le> r"
        using assms(1) unfolding commit_inv_def by blast
      then show thesis using that unfolding state_update_committed map_of_commit_round
        by (cases "origin y = origin x") (auto simp: le_max_iff_disj)
    next
      case False
      then show thesis using that y unfolding state_update_committed map_of_commit_round
        by (cases "map_of (last_committed st) (origin x)") auto
    qed
    moreover have "r \<le> cert_round y" if "entry (dag ?u) (cert_round y) (origin y) \<noteq> None"
      using that r(1) unfolding state_update_entry[OF wf] by (auto split: if_splits)
    ultimately show ?thesis by force
  qed
  then show ?thesis using assms state_update_wf[OF wf] by (simp add: commit_inv_def)
qed

lemma commit_inv_updates:
  "commit_inv sha512 old st \<Longrightarrow> distinct (map cert_key (old @ xs)) \<Longrightarrow>
   commit_inv sha512 (old @ xs) (fold (state_update gc) xs st)"
proof (induction xs arbitrary: old st)
  case (Cons x xs)
  have "commit_inv sha512 (old @ [x]) (state_update gc x st)"
    using Cons.prems by (intro commit_inv_update) auto
  from Cons.IH[OF this] Cons.prems(2) show ?case by simp
qed simp

lemma state_updates_sub:
  "state_wf sha512 st \<Longrightarrow> entry (dag (fold (state_update gc) xs st)) r n = Some e \<Longrightarrow> entry (dag st) r n = Some e"
proof (induction xs arbitrary: st)
  case (Cons x xs)
  then have "entry (dag (state_update gc x st)) r n = Some e" by (simp add: state_update_wf)
  then show ?case unfolding state_update_entry[OF Cons.prems(1)] by (simp split: if_splits)
qed simp

lemma committed_rounds: "commit_inv sha512 old st \<Longrightarrow> y \<in> set old \<Longrightarrow> cert_round y \<le> last_committed_round st"
  unfolding commit_inv_def using committed_le_round by (meson order.trans)

lemma order_dag_set:
  "set (order_dag gc x st) = {y \<in> set (dfs (dag st) (last_committed st) [x] {}). last_committed_round st \<le> cert_round y + gc}"
  by (simp add: order_dag_def del: dfs.simps)

lemma commit_leader_inv:
  assumes inv: "commit_inv sha512 old st" and key: "cert_key x \<notin> cert_key ` set old"
    and gc: "last_committed_round st \<le> cert_round x + gc"
  shows "commit_inv sha512 (old @ order_dag gc x st) (fold (state_update gc) (order_dag gc x st) st)"
    and "x \<in> set (order_dag gc x st)"
    and "y \<in> set (order_dag gc x st) \<Longrightarrow> y = x \<or> (in_dag sha512 (dag st) y \<and> cert_round y < cert_round x)"
    and "last_committed_round (fold (state_update gc) (order_dag gc x st) st) = max (last_committed_round st) (cert_round x)"
proof -
  let ?xs = "order_dag gc x st"
  have wf: "state_wf sha512 st" and d: "dag_wf sha512 (dag st)" using inv by (simp_all add: commit_inv_def state_wf_def)
  note dfs = dfs_leader[OF d, where x = x and lc = "last_committed st"]
  show x: "x \<in> set ?xs" using dfs(1) gc by (simp add: order_dag_set del: dfs.simps)
  have mem: "y = x \<or> (in_dag sha512 (dag st) y \<and> cert_round y < cert_round x \<and> map_of (last_committed st) (origin y) \<noteq> Some (cert_round y))"
    if "y \<in> set ?xs" for y using dfs(3)[of y] that by (simp add: order_dag_set del: dfs.simps)
  then show "y \<in> set ?xs \<Longrightarrow> y = x \<or> (in_dag sha512 (dag st) y \<and> cert_round y < cert_round x)" by blast
  have "distinct ?xs" unfolding order_dag_def distinct_sort by (rule distinct_filter[OF dfs(2)])
  have "inj_on cert_key (set ?xs)"
  proof (rule inj_onI)
    fix y z assume y: "y \<in> set ?xs" and z: "z \<in> set ?xs" and eq: "cert_key y = cert_key z"
    then have k: "cert_round y = cert_round z" "origin y = origin z" by simp_all
    have "y = x \<longleftrightarrow> z = x" using mem[OF y] mem[OF z] k(1) by (metis less_irrefl)
    moreover have "y = z" if "in_dag sha512 (dag st) y" "in_dag sha512 (dag st) z"
      using that unfolding k by simp
    ultimately show "y = z" using mem[OF y] mem[OF z] by blast
  qed
  have fresh: "cert_key y \<notin> cert_key ` set old" if "y \<in> set ?xs" for y
  proof
    assume old: "cert_key y \<in> cert_key ` set old"
    then obtain z where z: "z \<in> set old" "cert_round z = cert_round y" "origin z = origin y" by force
    have "y \<noteq> x" using old key by blast
    with mem[OF that] have m: "in_dag sha512 (dag st) y" "map_of (last_committed st) (origin y) \<noteq> Some (cert_round y)" by blast+
    from inv z have "\<exists>r. map_of (last_committed st) (origin y) = Some r \<and>
        (entry (dag st) (cert_round y) (origin y) \<noteq> None \<longrightarrow> r = cert_round y)"
      unfolding commit_inv_def by metis
    with m show False by auto
  qed
  have "cert_key ` set old \<inter> cert_key ` set ?xs = {}"
  proof (rule equals0I)
    fix k assume "k \<in> cert_key ` set old \<inter> cert_key ` set ?xs"
    then obtain y where "y \<in> set ?xs" "cert_key y \<in> cert_key ` set old" by (elim IntE imageE) simp
    then show False by (rule fresh[THEN notE])
  qed
  moreover have "distinct (map cert_key ?xs)" using \<open>distinct ?xs\<close> \<open>inj_on cert_key (set ?xs)\<close>
    by (simp add: distinct_map)
  moreover have "distinct (map cert_key old)" using inv by (simp add: commit_inv_def)
  ultimately have "distinct (map cert_key (old @ ?xs))" unfolding map_append distinct_append set_map by blast
  with inv show "commit_inv sha512 (old @ ?xs) (fold (state_update gc) ?xs st)" by (rule commit_inv_updates)
  have "fold max (map cert_round ?xs) (last_committed_round st) \<le> b \<longleftrightarrow> max (last_committed_round st) (cert_round x) \<le> b" for b
  proof -
    have "cert_round y \<le> cert_round x" if "y \<in> set ?xs" for y using mem[OF that] by auto
    then show ?thesis using x unfolding fold_max_le by (auto intro: order.trans)
  qed
  then show "last_committed_round (fold (state_update gc) ?xs st) = max (last_committed_round st) (cert_round x)"
    unfolding state_updates_round[OF wf] by (meson order.antisym order_refl)
qed

text \<open>The commit of a sequence of leaders of rising rounds.\<close>

lemma commit_leaders_inv:
  assumes "commit_inv sha512 old st" and "sorted_wrt (\<lambda>x y. cert_round x < cert_round y) ls"
    and "\<And>x. x \<in> set ls \<Longrightarrow> last_committed_round st < cert_round x"
  shows "\<exists>xs st'. fold (commit_leader gc) ls (seq, st) = (seq @ xs, st') \<and> commit_inv sha512 (old @ xs) st' \<and>
    (\<forall>y \<in> set xs. y \<in> set ls \<or> in_dag sha512 (dag st) y) \<and>
    last_committed_round st' = (if ls = [] then last_committed_round st else cert_round (last ls)) \<and>
    (\<forall>r n. last_committed_round st' < r \<longrightarrow> entry (dag st') r n = entry (dag st) r n) \<and>
    (\<forall>r n e. entry (dag st') r n = Some e \<longrightarrow> entry (dag st) r n = Some e)"
  using assms
proof (induction ls arbitrary: old seq st)
  case (Cons x ls)
  let ?xs = "order_dag gc x st"
  let ?u = "fold (state_update gc) ?xs st"
  have wf: "state_wf sha512 st" using Cons.prems(1) by (simp add: commit_inv_def)
  have lt: "last_committed_round st < cert_round x" using Cons.prems(3) by simp
  then have key: "cert_key x \<notin> cert_key ` set old" using committed_rounds[OF Cons.prems(1)] by force
  note c = commit_leader_inv[OF Cons.prems(1) key, of gc]
  have u: "commit_inv sha512 (old @ ?xs) ?u" "last_committed_round ?u = cert_round x" using c(1,4) lt by simp_all
  have ls: "sorted_wrt (\<lambda>x y. cert_round x < cert_round y) ls"
    "\<And>y. y \<in> set ls \<Longrightarrow> last_committed_round ?u < cert_round y" using Cons.prems(2) u(2) by simp_all
  from Cons.IH[OF u(1) ls, of "seq @ ?xs"] obtain ys st' where
    rest: "fold (commit_leader gc) ls (seq @ ?xs, ?u) = ((seq @ ?xs) @ ys, st')"
      "commit_inv sha512 ((old @ ?xs) @ ys) st'" "\<forall>y \<in> set ys. y \<in> set ls \<or> in_dag sha512 (dag ?u) y"
      "last_committed_round st' = (if ls = [] then last_committed_round ?u else cert_round (last ls))"
      "\<forall>r n. last_committed_round st' < r \<longrightarrow> entry (dag st') r n = entry (dag ?u) r n"
      "\<forall>r n e. entry (dag st') r n = Some e \<longrightarrow> entry (dag ?u) r n = Some e"
    by blast
  have le: "last_committed_round ?u \<le> last_committed_round st'"
    using rest(4) u(2) Cons.prems(2) by (auto simp: less_imp_le)
  have "y \<in> set (x # ls) \<or> in_dag sha512 (dag st) y" if "y \<in> set (?xs @ ys)" for y
  proof (cases "y \<in> set ?xs")
    case True
    then show ?thesis using c(3)[of y] lt by auto
  next
    case False
    with that rest(3) state_updates_sub[OF wf, of gc ?xs "cert_round y" "origin y"] show ?thesis by auto
  qed
  then have "\<forall>y \<in> set (?xs @ ys). y \<in> set (x # ls) \<or> in_dag sha512 (dag st) y" by blast
  moreover have "\<forall>r n. last_committed_round st' < r \<longrightarrow> entry (dag st') r n = entry (dag st) r n"
    using rest(5) le state_updates_entry[OF wf] by (metis le_less_trans)
  moreover have "\<forall>r n e. entry (dag st') r n = Some e \<longrightarrow> entry (dag st) r n = Some e"
    using rest(6) state_updates_sub[OF wf] by blast
  moreover have "fold (commit_leader gc) (x # ls) (seq, st) = (seq @ (?xs @ ys), st')"
    using rest(1) by (simp add: commit_leader_def Let_def)
  moreover have "commit_inv sha512 (old @ (?xs @ ys)) st'" using rest(2) by simp
  moreover have "last_committed_round st' = (if x # ls = [] then last_committed_round st else cert_round (last (x # ls)))"
    using rest(4) u(2) by simp
  ultimately show ?case by blast
qed simp

lemma commit_inv_insert:
  assumes "commit_inv sha512 old st" and "cert_key x \<notin> cert_key ` set old"
  shows "commit_inv sha512 old (st\<lparr>dag := dag_insert sha512 x (dag st)\<rparr>)"
proof -
  have "entry (dag_insert sha512 x (dag st)) (cert_round y) (origin y) = entry (dag st) (cert_round y) (origin y)"
    if "y \<in> set old" for y
  proof -
    have "cert_key y \<noteq> cert_key x" using that assms(2) by (metis image_eqI)
    then show ?thesis by (auto simp: entry_dag_insert)
  qed
  with assms(1) show ?thesis by (simp add: commit_inv_def state_wf_def dag_insert_wf del: map_of_eq_Some_iff)
qed

text \<open>The state in which a node starts: the genesis certificates are committed.\<close>

lemma update_new: "k \<notin> fst ` set xs \<Longrightarrow> AList.update k v xs = xs @ [(k, v)]"
  by (induction xs) auto

lemma genesis_entries_distinct:
  assumes "distinct (map origin gen)"
  shows "genesis_entries sha512 gen = map (\<lambda>x. (origin x, cert_digest sha512 x, x)) gen"
proof -
  have "fold (\<lambda>x. AList.update (origin x) (cert_digest sha512 x, x)) gen acc =
      acc @ map (\<lambda>x. (origin x, cert_digest sha512 x, x)) gen"
    if "fst ` set acc \<inter> origin ` set gen = {}" for acc
    using that assms
  proof (induction gen arbitrary: acc)
    case (Cons x gen)
    let ?e = "(origin x, cert_digest sha512 x, x)"
    have "AList.update (origin x) (cert_digest sha512 x, x) acc = acc @ [?e]"
      using Cons.prems(1) by (intro update_new) auto
    moreover have "fst ` set (acc @ [?e]) \<inter> origin ` set gen = {}" using Cons.prems by auto
    ultimately show ?case using Cons.IH[of "acc @ [?e]"] Cons.prems(2) by simp
  qed simp
  from this[of "[]"] show ?thesis by (simp add: genesis_entries_def)
qed

lemma genesis_facts:
  "map origin (genesis c) = map fst (members c)" "x \<in> set (genesis c) \<Longrightarrow> cert_round x = 0"
  by (auto simp: genesis_def origin_def cert_round_def header_default_def)

lemma map_of_origin: "distinct (map origin gen) \<Longrightarrow> map_of (map (\<lambda>x. (origin x, f x)) gen) n = Some v \<longleftrightarrow> (\<exists>x \<in> set gen. origin x = n \<and> v = f x)"
  by (subst map_of_eq_Some_iff) (auto simp: comp_def)

lemma state_new_inv:
  assumes "distinct (map fst (members c))"
  shows "commit_inv sha512 (genesis c) (state_new sha512 (genesis c))"
    and "last_committed_round (state_new sha512 (genesis c)) = 0"
    and "entry (dag (state_new sha512 (genesis c))) r n = Some e \<Longrightarrow> snd e \<in> set (genesis c)"
proof -
  have d: "distinct (map origin (genesis c))" using assms by (simp add: genesis_facts)
  let ?s = "state_new sha512 (genesis c)"
  have dag: "dag ?s = [(0, map (\<lambda>x. (origin x, cert_digest sha512 x, x)) (genesis c))]"
    and lc: "last_committed ?s = map (\<lambda>x. (origin x, cert_round x)) (genesis c)"
    and lcr: "last_committed_round ?s = 0"
    by (simp_all add: state_new_def genesis_entries_distinct[OF d])
  have entry: "entry (dag ?s) r n = Some e \<longleftrightarrow> r = 0 \<and> (\<exists>x \<in> set (genesis c). origin x = n \<and> e = (cert_digest sha512 x, x))" for r n e
    using map_of_origin[OF d, of "\<lambda>x. (cert_digest sha512 x, x)" n e] by (auto simp: dag entry_def)
  show "last_committed_round ?s = 0" by (rule lcr)
  show "entry (dag ?s) r n = Some e \<Longrightarrow> snd e \<in> set (genesis c)" using entry by auto
  have "authorities_wf sha512 0 (map (\<lambda>x. (origin x, cert_digest sha512 x, x)) (genesis c))"
    unfolding authorities_wf_def map_of_origin[OF d] using d genesis_facts(2) by (auto simp: comp_def)
  then have "dag_wf sha512 (dag ?s)" by (simp add: dag dag_wf_def)
  moreover have "fold max (map snd (last_committed ?s)) 0 \<le> 0"
    unfolding fold_max_le lc using genesis_facts(2) by auto
  moreover have "distinct (map fst (last_committed ?s))" using d by (simp add: lc comp_def)
  moreover have "distinct (map cert_key (genesis c))"
    using d by (auto simp: distinct_map inj_on_def)
  moreover have "map_of (last_committed ?s) (origin x) = Some (cert_round x)" if "x \<in> set (genesis c)" for x
    unfolding lc map_of_origin[OF d] using that by auto
  ultimately show "commit_inv sha512 (genesis c) ?s"
    unfolding commit_inv_def state_wf_def lcr by auto
qed

section \<open>What a node has received\<close>

text \<open>
  A node that has received \<open>cs\<close> and output \<open>out\<close>: its outputs are received certificates, its map
  holds received and genesis certificates only, and all of those above the last committed round.
\<close>

definition base_inv ::
  "(u8 list \<Rightarrow> u8 list) \<Rightarrow> NarwhalCommittee \<Rightarrow> Certificate list \<Rightarrow> Certificate list \<Rightarrow> 'a State_scheme \<Rightarrow> bool" where
  "base_inv sha512 c cs out st \<longleftrightarrow> commit_inv sha512 (genesis c @ out) st \<and> set out \<subseteq> set cs \<and>
     (\<forall>r n e. entry (dag st) r n = Some e \<longrightarrow> snd e \<in> set cs \<union> set (genesis c)) \<and>
     (\<forall>x \<in> set cs. last_committed_round st < cert_round x \<longrightarrow> in_dag sha512 (dag st) x)"

lemma base_new: "distinct (map fst (members c)) \<Longrightarrow> base_inv sha512 c [] [] (state_new sha512 (genesis c))"
  using state_new_inv by (simp add: base_inv_def)

lemma base_insert:
  assumes "base_inv sha512 c cs out st" and "cert_key x \<notin> cert_key ` set (genesis c @ cs)"
  shows "base_inv sha512 c (cs @ [x]) out (st\<lparr>dag := dag_insert sha512 x (dag st)\<rparr>)"
proof -
  have out: "cert_key x \<notin> cert_key ` set (genesis c @ out)" using assms by (auto simp: base_inv_def)
  have "cert_key y \<noteq> cert_key x" if "y \<in> set cs" for y using that assms(2) by (metis Un_iff image_eqI set_append)
  then have "in_dag sha512 (dag_insert sha512 x (dag st)) y"
    if "y \<in> set (cs @ [x])" "last_committed_round st < cert_round y" for y
    using that assms(1) by (auto simp: entry_dag_insert base_inv_def)
  moreover have "snd e \<in> set (cs @ [x]) \<union> set (genesis c)" if "entry (dag_insert sha512 x (dag st)) r n = Some e" for r n e
  proof (cases "r = cert_round x \<and> n = origin x")
    case False
    then have "entry (dag st) r n = Some e" using that by (simp add: entry_dag_insert split: if_splits)
    then show ?thesis using assms(1) unfolding base_inv_def by fastforce
  qed (use that in \<open>auto simp: entry_dag_insert\<close>)
  moreover have "commit_inv sha512 (genesis c @ out) (st\<lparr>dag := dag_insert sha512 x (dag st)\<rparr>)"
    by (rule commit_inv_insert[OF _ out]) (use assms(1) in \<open>simp add: base_inv_def\<close>)
  moreover have "set out \<subseteq> set (cs @ [x])" using assms(1) by (auto simp: base_inv_def)
  ultimately show ?thesis unfolding base_inv_def by simp
qed

lemma base_commit:
  assumes inv: "base_inv sha512 c cs out st" and ls: "sorted_wrt (\<lambda>x y. cert_round x < cert_round y) ls"
    "\<And>x. x \<in> set ls \<Longrightarrow> last_committed_round st < cert_round x \<and> in_dag sha512 (dag st) x"
  shows "\<exists>xs st'. fold (commit_leader gc) ls (seq, st) = (seq @ xs, st') \<and> base_inv sha512 c cs (out @ xs) st' \<and>
    last_committed_round st' = (if ls = [] then last_committed_round st else cert_round (last ls))"
proof -
  from inv have ci: "commit_inv sha512 (genesis c @ out) st" and out: "set out \<subseteq> set cs"
    and sub: "\<And>r n e. entry (dag st) r n = Some e \<Longrightarrow> snd e \<in> set cs \<union> set (genesis c)"
    and held: "\<And>x. x \<in> set cs \<Longrightarrow> last_committed_round st < cert_round x \<Longrightarrow> in_dag sha512 (dag st) x"
    unfolding base_inv_def by blast+
  from commit_leaders_inv[OF ci ls(1), of gc seq] ls(2) obtain xs st' where
    f: "fold (commit_leader gc) ls (seq, st) = (seq @ xs, st')" and ci': "commit_inv sha512 ((genesis c @ out) @ xs) st'"
    and xs: "\<forall>y \<in> set xs. y \<in> set ls \<or> in_dag sha512 (dag st) y"
    and lcr: "last_committed_round st' = (if ls = [] then last_committed_round st else cert_round (last ls))"
    and high: "\<forall>r n. last_committed_round st' < r \<longrightarrow> entry (dag st') r n = entry (dag st) r n"
    and low: "\<forall>r n e. entry (dag st') r n = Some e \<longrightarrow> entry (dag st) r n = Some e" by blast
  have "y \<in> set cs" if y: "y \<in> set xs" for y
  proof -
    have "in_dag sha512 (dag st) y" using xs y ls(2) by blast
    then have "y \<in> set cs \<union> set (genesis c)" using sub by fastforce
    moreover have "y \<notin> set (genesis c)" using ci' y by (auto simp: commit_inv_def)
    ultimately show ?thesis by blast
  qed
  moreover have "last_committed_round st \<le> last_committed_round st'"
    using lcr ls(2) by (auto simp: less_imp_le)
  ultimately have "base_inv sha512 c cs (out @ xs) st'"
    unfolding base_inv_def using ci' out sub held high low
    by (metis (no_types, lifting) Un_subset_iff append.assoc le_less_trans set_append subsetI)
  with f lcr show ?thesis by blast
qed

text \<open>The commit of one leader that is not committed yet, possibly at the last committed round.\<close>

lemma base_commit_one:
  assumes inv: "base_inv sha512 c cs out st" and x: "x \<in> set cs" "cert_key x \<notin> cert_key ` set (genesis c @ out)"
    "last_committed_round st \<le> cert_round x"
  shows "base_inv sha512 c cs (out @ order_dag gc x st) (fold (state_update gc) (order_dag gc x st) st)"
    and "last_committed_round (fold (state_update gc) (order_dag gc x st) st) = cert_round x"
    and "y \<in> set (order_dag gc x st) \<Longrightarrow> y = x \<or> cert_round y < cert_round x"
proof -
  let ?xs = "order_dag gc x st"
  let ?st = "fold (state_update gc) ?xs st"
  from inv have ci: "commit_inv sha512 (genesis c @ out) st" and out: "set out \<subseteq> set cs" and wf: "state_wf sha512 st"
    and sub: "\<And>r n e. entry (dag st) r n = Some e \<Longrightarrow> snd e \<in> set cs \<union> set (genesis c)"
    and held: "\<And>x. x \<in> set cs \<Longrightarrow> last_committed_round st < cert_round x \<Longrightarrow> in_dag sha512 (dag st) x"
    unfolding base_inv_def commit_inv_def by blast+
  note c = commit_leader_inv[OF ci x(2), of gc]
  have ci': "commit_inv sha512 (genesis c @ (out @ ?xs)) ?st" using c(1) x(3) by simp
  show lcr: "last_committed_round ?st = cert_round x" using c(4) x(3) by simp
  show "y \<in> set ?xs \<Longrightarrow> y = x \<or> cert_round y < cert_round x" for y using c(3)[of y] x(3) by auto
  have "y \<in> set cs" if y: "y \<in> set ?xs" for y
  proof -
    have "y \<in> set cs \<union> set (genesis c)" using c(3)[OF _ y] x sub[of "cert_round y" "origin y"] by fastforce
    moreover have "y \<notin> set (genesis c)" using ci' y by (auto simp: commit_inv_def)
    ultimately show ?thesis by blast
  qed
  moreover have "in_dag sha512 (dag ?st) y" if "y \<in> set cs" "last_committed_round ?st < cert_round y" for y
    using state_updates_entry[OF wf that(2)] held[OF that(1)] that(2) lcr x(3) by simp
  moreover have "snd e \<in> set cs \<union> set (genesis c)" if "entry (dag ?st) r n = Some e" for r n e
    using state_updates_sub[OF wf that] by (rule sub)
  ultimately show "base_inv sha512 c cs (out @ ?xs) ?st"
    unfolding base_inv_def using ci' out by (simp add: subset_iff)
qed

end
