(* ===== verification/CertifiedDag.thy ===== *)
theory CertifiedDag
  imports DagSearch
begin

text \<open>
  The certificates that a committee produces, as one set: no author has two in a round, digests do
  not collide, and every certificate names a quorum of certificates of the round below. A node sees
  a part of the set, closed under parents. In such a part \<open>linked\<close> decides reachability, and a
  leader with enough support is reachable from everything two rounds above it.
\<close>

section \<open>Certified sets and paths\<close>

definition parents_in :: "(u8 list \<Rightarrow> u8 list) \<Rightarrow> Certificate set \<Rightarrow> Certificate \<Rightarrow> Certificate set" where
  "parents_in sha512 G x =
     {y \<in> G. cert_round x = Suc (cert_round y) \<and> cert_digest sha512 y \<in> set (parents (header x))}"

definition stake_sum :: "NarwhalCommittee \<Rightarrow> Certificate set \<Rightarrow> nat" where
  "stake_sum c A = (\<Sum>n \<in> origin ` A. unat (stake c n))"

definition certified_dag :: "(u8 list \<Rightarrow> u8 list) \<Rightarrow> NarwhalCommittee \<Rightarrow> Certificate set \<Rightarrow> bool" where
  "certified_dag sha512 c G \<longleftrightarrow>
     inj_on cert_key G \<and> inj_on (cert_digest sha512) G \<and>
     (\<forall>x \<in> G. 0 < cert_round x \<and> origin x \<in> fst ` set (members c)) \<and>
     (\<forall>x \<in> G. 1 < cert_round x \<longrightarrow> unat (stake_quorum c) \<le> stake_sum c (parents_in sha512 G x))"

definition parent_closed :: "(u8 list \<Rightarrow> u8 list) \<Rightarrow> Certificate set \<Rightarrow> Certificate set \<Rightarrow> bool" where
  "parent_closed sha512 G V \<longleftrightarrow> V \<subseteq> G \<and> (\<forall>x \<in> V. parents_in sha512 G x \<subseteq> V)"

abbreviation dag_path :: "(u8 list \<Rightarrow> u8 list) \<Rightarrow> Certificate set \<Rightarrow> Certificate \<Rightarrow> Certificate \<Rightarrow> bool" where
  "dag_path sha512 G \<equiv> (\<lambda>x y. y \<in> parents_in sha512 G x)\<^sup>*\<^sup>*"

lemma certified_unique: "certified_dag sha512 c G \<Longrightarrow> x \<in> G \<Longrightarrow> y \<in> G \<Longrightarrow> cert_key x = cert_key y \<Longrightarrow> x = y"
  unfolding certified_dag_def by (meson inj_onD)

lemma path_round: "dag_path sha512 G x y \<Longrightarrow> cert_round y \<le> cert_round x"
  by (induction rule: rtranclp_induct) (auto simp: parents_in_def)

lemma path_same_round: "dag_path sha512 G x y \<Longrightarrow> cert_round x \<le> cert_round y \<Longrightarrow> y = x"
proof (erule rtranclp.cases)
  fix a b d
  assume "x = a" "y = d" "dag_path sha512 G a b" "d \<in> parents_in sha512 G b" "cert_round x \<le> cert_round y"
  moreover from path_round[OF \<open>dag_path sha512 G a b\<close>] have "cert_round b \<le> cert_round a" .
  ultimately show ?thesis by (auto simp: parents_in_def)
qed simp

lemma path_closed: "dag_path sha512 G x y \<Longrightarrow> parent_closed sha512 G V \<Longrightarrow> x \<in> V \<Longrightarrow> y \<in> V"
  by (induction rule: rtranclp_induct) (auto simp: parent_closed_def)

text \<open>The certificates of a round that a certificate reaches.\<close>

definition reach :: "(u8 list \<Rightarrow> u8 list) \<Rightarrow> Certificate set \<Rightarrow> Certificate \<Rightarrow> Round \<Rightarrow> Certificate set" where
  "reach sha512 G x r = {y. dag_path sha512 G x y \<and> cert_round y = r}"

lemma reach_self: "reach sha512 G x (cert_round x) = {x}"
  unfolding reach_def using path_same_round by fastforce

lemma reach_below:
  assumes "r < cert_round x"
  shows "reach sha512 G x r = (\<Union>z \<in> reach sha512 G x (Suc r). parents_in sha512 G z)"
proof
  show "reach sha512 G x r \<subseteq> (\<Union>z \<in> reach sha512 G x (Suc r). parents_in sha512 G z)"
  proof
    fix y assume y: "y \<in> reach sha512 G x r"
    then have "dag_path sha512 G x y" "y \<noteq> x" using assms by (auto simp: reach_def)
    then obtain z where "dag_path sha512 G x z" "y \<in> parents_in sha512 G z" by (metis rtranclp.cases)
    with y show "y \<in> (\<Union>z \<in> reach sha512 G x (Suc r). parents_in sha512 G z)"
      by (auto simp: reach_def parents_in_def)
  qed
  show "(\<Union>z \<in> reach sha512 G x (Suc r). parents_in sha512 G z) \<subseteq> reach sha512 G x r"
    by (auto simp: reach_def parents_in_def intro: rtranclp.rtrancl_into_rtrancl)
qed

lemma quorum_parents:
  assumes "stake_ok c" and "certified_dag sha512 c G" and "x \<in> G" and "1 < cert_round x"
  shows "parents_in sha512 G x \<noteq> {}"
proof
  assume "parents_in sha512 G x = {}"
  with assms(2-4) have "unat (stake_quorum c) \<le> 0" by (force simp: certified_dag_def stake_sum_def)
  with stake_thresholds(2)[OF assms(1)] show False by simp
qed

lemma reach_nonempty:
  assumes "stake_ok c" and "certified_dag sha512 c G" and "x \<in> G" and "0 < r" and "r \<le> cert_round x"
  shows "reach sha512 G x r \<noteq> {} \<and> reach sha512 G x r \<subseteq> G"
  using assms(5,4)
proof (induction r rule: inc_induct)
  case base
  show ?case using assms(3) by (simp add: reach_self)
next
  case (step r)
  then obtain z where z: "z \<in> reach sha512 G x (Suc r)" "z \<in> G" by auto
  then have "parents_in sha512 G z \<noteq> {}" using step by (intro quorum_parents[OF assms(1,2)]) (auto simp: reach_def)
  with z(1) show ?case unfolding reach_below[OF step(2)] by (auto simp: parents_in_def)
qed

section \<open>Support\<close>

definition supporters :: "(u8 list \<Rightarrow> u8 list) \<Rightarrow> Certificate set \<Rightarrow> Certificate \<Rightarrow> Certificate set" where
  "supporters sha512 G x = {y \<in> G. x \<in> parents_in sha512 G y}"

lemma supported_reached:
  assumes ok: "stake_ok c" and G: "certified_dag sha512 c G"
    and l: "unat (stake_validity c) \<le> stake_sum c (supporters sha512 G l)" "0 < cert_round l"
    and x: "x \<in> G" "cert_round l + 2 \<le> cert_round x"
  shows "dag_path sha512 G x l"
proof -
  obtain z where z: "z \<in> G" "dag_path sha512 G x z" "cert_round z = cert_round l + 2"
    using reach_nonempty[OF ok G x(1), of "cert_round l + 2"] x(2) by (auto simp: reach_def)
  let ?A = "parents_in sha512 G z" and ?B = "supporters sha512 G l"
  have sub: "origin ` ?A \<subseteq> fst ` set (members c)" "origin ` ?B \<subseteq> fst ` set (members c)"
    using G by (auto simp: certified_dag_def parents_in_def supporters_def)
  have "unat (stake_quorum c) \<le> stake_sum c ?A" using G z l(2) by (auto simp: certified_dag_def)
  with validity_system.validity_meets_quorum[OF stake_validity_system[OF ok] sub] l(1)
  have "origin ` ?A \<inter> origin ` ?B \<noteq> {}" by (simp add: stake_sum_def)
  then obtain a b where ab: "a \<in> ?A" "b \<in> ?B" "origin a = origin b" by auto
  then have "a = b" using G z(3) by (auto simp: certified_dag_def parents_in_def supporters_def inj_on_def)
  with ab have "a \<in> ?A" "l \<in> parents_in sha512 G a" by (auto simp: supporters_def)
  with z(2) show ?thesis by (meson rtranclp.rtrancl_into_rtrancl)
qed

section \<open>The walk over leaders\<close>

text \<open>From round \<open>lo\<close> on, the map of a node holds exactly the certificates it has received.\<close>

definition holds_from :: "(u8 list \<Rightarrow> u8 list) \<Rightarrow> Round \<Rightarrow> Certificate set \<Rightarrow> Dag \<Rightarrow> bool" where
  "holds_from sha512 lo V d \<longleftrightarrow> dag_wf sha512 d \<and>
     (\<forall>y. lo \<le> cert_round y \<longrightarrow> (in_dag sha512 d y \<longleftrightarrow> y \<in> V))"

lemma linked_rounds:
  assumes ok: "stake_ok c" and G: "certified_dag sha512 c G" and V: "parent_closed sha512 G V" and x: "x \<in> V"
    and d: "holds_from sha512 lo V d" and lo: "0 < lo" and m: "lo \<le> m" "m \<le> cert_round x"
  shows "\<exists>ps. rfold (linked_round d) (rev [m..<cert_round x]) [x] = Inr ps \<and> set ps = reach sha512 G x m"
  using m(2,1)
proof (induction m rule: inc_induct)
  case base
  show ?case by (simp add: reach_self)
next
  case (step m)
  then obtain ps where ps: "rfold (linked_round d) (rev [Suc m..<cert_round x]) [x] = Inr ps" "set ps = reach sha512 G x (Suc m)"
    by auto
  have wf: "dag_wf sha512 d" and held: "\<And>y. lo \<le> cert_round y \<Longrightarrow> in_dag sha512 d y \<longleftrightarrow> y \<in> V"
    using d by (simp_all add: holds_from_def)
  have xG: "x \<in> G" using V x by (auto simp: parent_closed_def)
  have inV: "y \<in> V" if "y \<in> reach sha512 G x r" for y r using that path_closed[OF _ V x] by (simp add: reach_def)
  obtain y where y: "y \<in> reach sha512 G x m" using reach_nonempty[OF ok G xG, of m] step lo by auto
  then have "in_dag sha512 d y" "cert_round y = m" using held[of y] inV step.prems by (auto simp: reach_def)
  then obtain as where as: "map_of d m = Some as" by (auto simp: entry_def bind_eq_Some_conv)
  have vals: "(digest, z) \<in> snd ` set as \<longleftrightarrow> digest = cert_digest sha512 z \<and> cert_round z = m \<and> z \<in> V" for digest z
    using values_entry[OF wf as, of "(digest, z)"] held[of z] step.prems by auto
  let ?qs = "map snd (filter (\<lambda>(digest, _). list_ex (\<lambda>x. digest \<in> set (parents (header x))) ps) (map snd as))"
  have "z \<in> set ?qs \<longleftrightarrow> z \<in> reach sha512 G x m" for z
  proof -
    have "z \<in> set ?qs \<longleftrightarrow> (\<exists>digest. (digest, z) \<in> snd ` set as \<and> (\<exists>p \<in> set ps. digest \<in> set (parents (header p))))"
      by (force simp: list_ex_iff)
    also have "\<dots> \<longleftrightarrow> cert_round z = m \<and> z \<in> V \<and> (\<exists>p \<in> reach sha512 G x (Suc m). cert_digest sha512 z \<in> set (parents (header p)))"
      unfolding vals ps(2) by blast
    also have "\<dots> \<longleftrightarrow> z \<in> reach sha512 G x m"
      using inV[of z m] V unfolding reach_below[OF step(2)] by (auto simp: parents_in_def reach_def parent_closed_def)
    finally show ?thesis .
  qed
  then have "set ?qs = reach sha512 G x m" by blast
  moreover have "linked_round d m ps = Inr ?qs" using as by (simp add: linked_round_def)
  moreover have "rev [m..<cert_round x] = rev [Suc m..<cert_round x] @ [m]" using step(2) by (simp add: upt_conv_Cons)
  ultimately show ?case using ps(1) by (simp only: rfold_append rbind.simps rfold.simps) blast
qed

lemma linked_path:
  assumes "stake_ok c" and G: "certified_dag sha512 c G" and V: "parent_closed sha512 G V" and x: "x \<in> V"
    and "holds_from sha512 lo V d" and "0 < lo" and y: "y \<in> V" "lo \<le> cert_round y" "cert_round y \<le> cert_round x"
  shows "linked x y d = Inr (dag_path sha512 G x y)"
proof -
  obtain ps where ps: "rfold (linked_round d) (rev [cert_round y..<cert_round x]) [x] = Inr ps" "set ps = reach sha512 G x (cert_round y)"
    using linked_rounds[OF assms(1-6) y(2,3)] by blast
  have "cert_eq y z \<longleftrightarrow> z = y" if "z \<in> set ps" for z
  proof -
    have "z \<in> V" using that ps(2) path_closed[OF _ V x] by (simp add: reach_def)
    then have "z \<in> G" "y \<in> G" using V y(1) by (auto simp: parent_closed_def)
    then show ?thesis using G by (auto simp: cert_eq_def certified_dag_def inj_on_def)
  qed
  then have "list_ex (cert_eq y) ps \<longleftrightarrow> y \<in> set ps" by (auto simp: list_ex_iff)
  with ps show ?thesis by (simp add: linked_def reach_def)
qed

definition key_of :: "NarwhalCommittee \<Rightarrow> Round \<Rightarrow> PublicKey" where
  "key_of c r = sort (map fst (members c)) ! (r mod length (members c))"

lemma leader_entry: "members c \<noteq> [] \<Longrightarrow> leader c r d = Inr (entry d r (key_of c r))"
  by (simp add: leader_def leader_key_def key_of_def members_size_def entry_def)

text \<open>
  The past leaders of a leader, over a descending list of rounds: at each round the leader of the
  round, if there is a path to it from the last one found.
\<close>

inductive chain_from :: "(u8 list \<Rightarrow> u8 list) \<Rightarrow> NarwhalCommittee \<Rightarrow> Certificate set \<Rightarrow> Certificate \<Rightarrow> Round list \<Rightarrow> Certificate list \<Rightarrow> bool"
  for sha512 c G where
  chain_nil: "chain_from sha512 c G x [] []"
| chain_hit: "y \<in> G \<Longrightarrow> cert_key y = (r, key_of c r) \<Longrightarrow> dag_path sha512 G x y \<Longrightarrow> chain_from sha512 c G y rs ls \<Longrightarrow>
    chain_from sha512 c G x (r # rs) (y # ls)"
| chain_miss: "(\<And>y. y \<in> G \<Longrightarrow> cert_key y = (r, key_of c r) \<Longrightarrow> \<not> dag_path sha512 G x y) \<Longrightarrow> chain_from sha512 c G x rs ls \<Longrightarrow>
    chain_from sha512 c G x (r # rs) ls"

inductive_cases chain_NilE: "chain_from sha512 c G x [] ls"
inductive_cases chain_ConsE: "chain_from sha512 c G x (r # rs) ls"

lemma chain_det:
  assumes "certified_dag sha512 c G"
  shows "chain_from sha512 c G x rs ls \<Longrightarrow> chain_from sha512 c G x rs ls' \<Longrightarrow> ls = ls'"
proof (induction arbitrary: ls' rule: chain_from.induct)
  case (chain_nil x)
  then show ?case by (rule chain_NilE) simp
next
  case (chain_hit y r x rs ls)
  from chain_hit.prems show ?case
  proof (rule chain_ConsE)
    fix z ks assume z: "ls' = z # ks" "z \<in> G" "cert_key z = (r, key_of c r)" "chain_from sha512 c G z rs ks"
    then have "z = y" using certified_unique[OF assms z(2) chain_hit.hyps(1)] chain_hit.hyps(2) by metis
    with z chain_hit.IH show ?thesis by simp
  qed (use chain_hit.hyps in blast)
next
  case (chain_miss r x rs ls)
  from chain_miss.prems show ?case by (rule chain_ConsE) (use chain_miss in blast)+
qed

lemma chain_append:
  "chain_from sha512 c G x rs ls \<Longrightarrow> chain_from sha512 c G (last (x # ls)) ss ks \<Longrightarrow>
   chain_from sha512 c G x (rs @ ss) (ls @ ks)"
  by (induction rule: chain_from.induct) (auto intro: chain_from.intros split: if_splits)

lemma walk_back_chain:
  assumes ok: "stake_ok c" and G: "certified_dag sha512 c G" and V: "parent_closed sha512 G V"
    and d: "holds_from sha512 lo V d" and lo: "0 < lo"
  shows "x \<in> V \<Longrightarrow> sorted_wrt (>) (cert_round x # rs) \<Longrightarrow> (\<forall>r \<in> set rs. lo \<le> r) \<Longrightarrow>
    \<exists>ls. rfold (walk_back c d) rs (x, tc) = Inr (last (x # ls), tc @ ls) \<and> chain_from sha512 c G x rs ls \<and>
      set ls \<subseteq> V \<and> sorted_wrt (\<lambda>a b. cert_round b < cert_round a) (x # ls) \<and> cert_round ` set ls \<subseteq> set rs"
proof (induction rs arbitrary: x tc)
  case Nil
  then show ?case by (auto intro: chain_nil)
next
  case (Cons r rs)
  have mem: "members c \<noteq> []" using ok by (auto simp: stake_ok_def stake_total_def)
  have wf: "dag_wf sha512 d" using d by (simp add: holds_from_def)
  have held: "in_dag sha512 d y \<longleftrightarrow> y \<in> V" if "lo \<le> cert_round y" for y using d that by (simp add: holds_from_def)
  have r: "lo \<le> r" "r < cert_round x" "sorted_wrt (>) (cert_round x # rs)" "sorted_wrt (>) (r # rs)" using Cons.prems by auto
  have VG: "V \<subseteq> G" using V by (simp add: parent_closed_def)
  have miss: ?case if no: "\<And>y. y \<in> G \<Longrightarrow> cert_key y = (r, key_of c r) \<Longrightarrow> \<not> dag_path sha512 G x y"
    and stay: "walk_back c d r (x, tc) = Inr (x, tc)"
  proof -
    from Cons.IH[OF Cons.prems(1) r(3), of tc] Cons.prems(3) obtain ls where
      ls: "rfold (walk_back c d) rs (x, tc) = Inr (last (x # ls), tc @ ls)" "chain_from sha512 c G x rs ls"
      "set ls \<subseteq> V" "sorted_wrt (\<lambda>a b. cert_round b < cert_round a) (x # ls)" "cert_round ` set ls \<subseteq> set rs"
      by (auto simp del: sorted_wrt.simps)
    have "chain_from sha512 c G x (r # rs) ls" by (rule chain_miss[OF no ls(2)])
    moreover have "rfold (walk_back c d) (r # rs) (x, tc) = Inr (last (x # ls), tc @ ls)" using ls(1) stay by simp
    moreover have "cert_round ` set ls \<subseteq> set (r # rs)" using ls(5) by auto
    ultimately show ?thesis using ls(3,4) by blast
  qed
  show ?case
  proof (cases "entry d r (key_of c r)")
    case None
    have "\<not> dag_path sha512 G x y" if y: "y \<in> G" "cert_key y = (r, key_of c r)" for y
    proof
      assume "dag_path sha512 G x y"
      then have "y \<in> V" using path_closed[OF _ V Cons.prems(1)] by blast
      with held[of y] y r(1) None show False by (simp add: cert_key_def)
    qed
    with None show ?thesis by (intro miss) (simp_all add: walk_back_def leader_entry[OF mem])
  next
    case (Some e)
    obtain digest y where e: "e = (digest, y)" by fastforce
    have y: "cert_round y = r" "origin y = key_of c r" "y \<in> V"
      using entryD[OF wf, of r "key_of c r" digest y] Some e held[of y] r(1) by auto
    have linked: "linked x y d = Inr (dag_path sha512 G x y)"
      using linked_path[OF ok G V Cons.prems(1) d lo y(3)] y(1) r by simp
    have yG: "y \<in> G" and key: "cert_key y = (r, key_of c r)" using y VG by (auto simp: cert_key_def)
    show ?thesis
    proof (cases "dag_path sha512 G x y")
      case True
      have "sorted_wrt (>) (cert_round y # rs)" using r(4) y(1) by simp
      with Cons.IH[OF y(3), of "tc @ [y]"] Cons.prems(3) obtain ls where ls:
        "rfold (walk_back c d) rs (y, tc @ [y]) = Inr (last (y # ls), (tc @ [y]) @ ls)" "chain_from sha512 c G y rs ls"
        "set ls \<subseteq> V" "sorted_wrt (\<lambda>a b. cert_round b < cert_round a) (y # ls)" "cert_round ` set ls \<subseteq> set rs"
        by auto
      have "walk_back c d r (x, tc) = Inr (y, tc @ [y])"
        using True Some e linked by (simp add: walk_back_def leader_entry[OF mem])
      then have "rfold (walk_back c d) (r # rs) (x, tc) = Inr (last (x # y # ls), tc @ y # ls)" using ls(1) by simp
      moreover have "set (y # ls) \<subseteq> V" "cert_round ` set (y # ls) \<subseteq> set (r # rs)" using ls(3,5) y by auto
      moreover have "sorted_wrt (\<lambda>a b. cert_round b < cert_round a) (x # y # ls)" using ls(4) y(1) r(2) by auto
      ultimately show ?thesis using chain_hit[OF yG key True ls(2)] by blast
    next
      case False
      have "\<not> dag_path sha512 G x z" if "z \<in> G" "cert_key z = (r, key_of c r)" for z
        using that False certified_unique[OF G that(1) yG] key by metis
      with False Some e linked show ?thesis by (intro miss) (simp_all add: walk_back_def leader_entry[OF mem])
    qed
  qed
qed

text \<open>The map of a node that keeps the base invariant.\<close>

lemma base_holds_from:
  assumes "base_inv sha512 c cs out st"
  shows "holds_from sha512 (Suc (last_committed_round st)) (set cs) (dag st)"
proof -
  have "in_dag sha512 (dag st) y \<longleftrightarrow> y \<in> set cs" if "Suc (last_committed_round st) \<le> cert_round y" for y
    using assms that genesis_facts(2)[of y c] unfolding base_inv_def by fastforce
  then show ?thesis using assms by (simp add: holds_from_def base_inv_def commit_inv_def state_wf_def)
qed

lemma holds_fromD: "holds_from sha512 lo V d \<Longrightarrow> lo \<le> cert_round y \<Longrightarrow> in_dag sha512 d y \<longleftrightarrow> y \<in> V"
  unfolding holds_from_def by blast

lemma fresh_key:
  assumes "certified_dag sha512 c G" and "set cs \<subseteq> G" and "x \<in> G" and "x \<notin> set cs"
  shows "cert_key x \<notin> cert_key ` set (genesis c @ cs)"
proof
  assume "cert_key x \<in> cert_key ` set (genesis c @ cs)"
  then obtain y where y: "y \<in> set (genesis c) \<or> y \<in> set cs" "cert_key x = cert_key y"
    unfolding set_append image_Un by blast
  have "0 < cert_round x" using assms(1,3) by (simp add: certified_dag_def)
  with y genesis_facts(2)[of y c] have "y \<in> set cs" by auto
  with certified_unique[OF assms(1,3) _ y(2)] assms(2,4) show False by blast
qed

section \<open>Orders of arrival\<close>

text \<open>Certificates in an order in which parents come first.\<close>

definition causal :: "(u8 list \<Rightarrow> u8 list) \<Rightarrow> Certificate set \<Rightarrow> Certificate list \<Rightarrow> bool" where
  "causal sha512 G cs \<longleftrightarrow> distinct cs \<and> set cs \<subseteq> G \<and>
     (\<forall>i \<in> {0..<length cs}. parents_in sha512 G (cs ! i) \<subseteq> set (take i cs))"

lemma causal_snoc:
  assumes "causal sha512 G (cs @ [x])"
  shows "causal sha512 G cs" and "x \<in> G" and "parents_in sha512 G x \<subseteq> set cs" and "x \<notin> set cs"
proof -
  have p: "parents_in sha512 G ((cs @ [x]) ! i) \<subseteq> set (take i (cs @ [x]))" if "i < Suc (length cs)" for i
    using assms that unfolding causal_def by simp
  have "parents_in sha512 G (cs ! i) \<subseteq> set (take i cs)" if "i < length cs" for i
    using p[of i] that by (simp add: nth_append)
  then show "causal sha512 G cs" using assms unfolding causal_def by simp
  show "parents_in sha512 G x \<subseteq> set cs" using p[of "length cs"] by simp
  show "x \<in> G" "x \<notin> set cs" using assms unfolding causal_def by simp_all
qed

lemma causal_closed: "causal sha512 G cs \<Longrightarrow> parent_closed sha512 G (set cs)"
proof (induction cs rule: rev_induct)
  case (snoc x cs)
  with causal_snoc[OF snoc.prems] show ?case by (auto simp: parent_closed_def)
qed (simp add: parent_closed_def)

end
