(* ===== verification/Tusk.thy ===== *)
theory Tusk
  imports ConsensusDag
begin

text \<open>
  Tusk, the consensus of \<open>narwhal/consensus/src/lib.rs\<close>: \<open>order_leaders\<close> and the loop of \<open>run\<close> as
  a step on each certificate received. Besides the certificates that the source sends to its
  outputs, a run records the leaders it committed.

  At round zero \<open>round - 1\<close> wraps to an odd number, and the source goes on to the next
  certificate; so does the model, where the difference is zero.
\<close>

definition rounds_back :: "Round \<Rightarrow> Round \<Rightarrow> Round list" where
  "rounds_back lo hi = filter (\<lambda>r. even (hi - r)) (rev [lo..<Suc hi])"

definition order_leaders :: "NarwhalCommittee \<Rightarrow> Certificate \<Rightarrow> 'a State_scheme \<Rightarrow> Certificate list rust" where
  "order_leaders c x st =
     rbind (rfold (walk_back c (dag st)) (rounds_back (last_committed_round st + 2) (cert_round x - 2)) (x, [x]))
       (\<lambda>(_, to_commit). Inr to_commit)"

text \<open>The leaders that a certificate of the given round lets the node commit, newest first.\<close>

definition leaders_to_commit :: "NarwhalCommittee \<Rightarrow> Round \<Rightarrow> 'a State_scheme \<Rightarrow> Certificate list rust" where
  "leaders_to_commit c rd st =
     (let r = rd - 1 in
      if odd r \<or> r < 4 then Inr []
      else if r - 2 \<le> last_committed_round st then Inr []
      else
        rbind (leader c (r - 2) (dag st)) (\<lambda>l.
          case l of
            None \<Rightarrow> Inr []
          | Some (leader_digest, x) \<Rightarrow>
              (case map_of (dag st) (r - 1) of
                 None \<Rightarrow> Inl ExpectFailed
               | Some authorities \<Rightarrow>
                   if support c leader_digest authorities < stake_validity c then Inr []
                   else order_leaders c x st)))"

definition tusk_step ::
  "(u8 list \<Rightarrow> u8 list) \<Rightarrow> NarwhalCommittee \<Rightarrow> Round \<Rightarrow> Certificate \<Rightarrow> Certificate list \<times> Certificate list \<times> State
   \<Rightarrow> (Certificate list \<times> Certificate list \<times> State) rust" where
  "tusk_step sha512 c gc x = (\<lambda>(leaders, output, st).
     let st1 = st\<lparr>dag := dag_insert sha512 x (dag st)\<rparr>
     in rbind (leaders_to_commit c (cert_round x) st1) (\<lambda>ls.
          let (sequence, st2) = fold (commit_leader gc) (rev ls) ([], st1)
          in Inr (leaders @ rev ls, output @ sequence, st2)))"

definition tusk_run ::
  "(u8 list \<Rightarrow> u8 list) \<Rightarrow> NarwhalCommittee \<Rightarrow> Round \<Rightarrow> Certificate list
   \<Rightarrow> (Certificate list \<times> Certificate list \<times> State) rust" where
  "tusk_run sha512 c gc xs = rfold (tusk_step sha512 c gc) xs ([], [], state_new sha512 (genesis c))"

end
