(* ===== verification/TuskSafety.thy ===== *)
theory TuskSafety
  imports CertifiedDag Tusk "HOL-Library.Sublist"
begin

text \<open>
  Tusk on the shared state: a run outputs no certificate twice, and two nodes that have received
  parts of one certified set commit the same leaders in the same order.
\<close>

section \<open>Leaders rise\<close>

lemma walk_back_rounds:
  assumes "dag_wf sha512 d"
  shows "rfold (walk_back c d) rs (x, tc) = Inr (y, tc') \<Longrightarrow> sorted_wrt (>) (cert_round x # rs) \<Longrightarrow>
    \<exists>ls. tc' = tc @ ls \<and> (\<forall>l \<in> set ls. in_dag sha512 d l \<and> cert_round l \<in> set rs) \<and>
      sorted_wrt (\<lambda>a b. cert_round b < cert_round a) (x # ls)"
proof (induction rs arbitrary: x tc)
  case (Cons r rs)
  from Cons.prems(1) obtain z tc1 where w: "walk_back c d r (x, tc) = Inr (z, tc1)" "rfold (walk_back c d) rs (z, tc1) = Inr (y, tc')"
    by (auto simp: fault_simps)
  then have cases: "(z = x \<and> tc1 = tc) \<or> (tc1 = tc @ [z] \<and> cert_round z = r \<and> in_dag sha512 d z)"
    using entryD[OF assms] by (fastforce simp: walk_back_def fault_simps leader_def entry_def split: option.splits if_splits)
  have "sorted_wrt (>) (cert_round z # rs)" using cases Cons.prems(2) by auto
  from Cons.IH[OF w(2) this] obtain ls where ls: "tc' = tc1 @ ls" "\<forall>l \<in> set ls. in_dag sha512 d l \<and> cert_round l \<in> set rs"
    "sorted_wrt (\<lambda>a b. cert_round b < cert_round a) (z # ls)" by blast
  from cases show ?case
  proof
    assume "z = x \<and> tc1 = tc"
    with ls show ?thesis by (intro exI[of _ ls]) auto
  next
    assume "tc1 = tc @ [z] \<and> cert_round z = r \<and> in_dag sha512 d z"
    with ls Cons.prems(2) show ?thesis by (intro exI[of _ "z # ls"]) fastforce
  qed
qed simp

lemma rounds_back_facts:
  shows "set (rounds_back lo hi) = {r. lo \<le> r \<and> r \<le> hi \<and> even (hi - r)}" and "sorted_wrt (>) (rounds_back lo hi)"
proof -
  show "set (rounds_back lo hi) = {r. lo \<le> r \<and> r \<le> hi \<and> even (hi - r)}" by (auto simp: rounds_back_def)
  show "sorted_wrt (>) (rounds_back lo hi)" unfolding rounds_back_def
    by (rule sorted_wrt_filter) (simp only: sorted_wrt_rev sorted_wrt_upt)
qed

lemma leaders_to_commitE:
  assumes "leaders_to_commit c rd st = Inr ls" and "ls \<noteq> []"
  obtains r digest l authorities where "rd = r + 3" and "even r" and "2 \<le> r" and "last_committed_round st < r"
    and "leader c r (dag st) = Inr (Some (digest, l))" and "map_of (dag st) (r + 1) = Some authorities"
    and "stake_validity c \<le> support c digest authorities" and "order_leaders c l st = Inr ls"
proof -
  define q where "q = rd - 1"
  have q: "even q" "4 \<le> q" "last_committed_round st < q - 2"
    using assms unfolding leaders_to_commit_def Let_def q_def[symmetric] by (auto split: if_splits)
  then obtain o_l where l: "leader c (q - 2) (dag st) = Inr o_l"
    using assms unfolding leaders_to_commit_def Let_def q_def[symmetric] by (auto simp: fault_simps)
  then obtain digest l where o_l: "o_l = Some (digest, l)"
    using assms q unfolding leaders_to_commit_def Let_def q_def[symmetric] by (cases o_l) auto
  then obtain authorities where a: "map_of (dag st) (q - 1) = Some authorities"
    using assms q l unfolding leaders_to_commit_def Let_def q_def[symmetric] by (cases "map_of (dag st) (q - 1)") auto
  have "\<not> support c digest authorities < stake_validity c" "order_leaders c l st = Inr ls"
    using assms q l o_l a unfolding leaders_to_commit_def Let_def q_def[symmetric] by (auto split: if_splits)
  moreover have "q - 1 = (q - 2) + 1" "rd = (q - 2) + 3" using q(2) by (simp_all add: q_def)
  ultimately show thesis using that[of "q - 2" digest l authorities] q l o_l a by auto
qed

lemma leaders_rise:
  assumes "dag_wf sha512 (dag st)" and "leaders_to_commit c rd st = Inr ls"
  shows "sorted_wrt (\<lambda>x y. cert_round x < cert_round y) (rev ls)"
    and "x \<in> set (rev ls) \<Longrightarrow> last_committed_round st < cert_round x \<and> in_dag sha512 (dag st) x"
proof -
  have "sorted_wrt (\<lambda>a b. cert_round b < cert_round a) ls \<and> (\<forall>x \<in> set ls. last_committed_round st < cert_round x \<and> in_dag sha512 (dag st) x)"
  proof (cases "ls = []")
    case False
    with assms(2) obtain r digest l where lcr: "last_committed_round st < r" "2 \<le> r"
      and l: "leader c r (dag st) = Inr (Some (digest, l))" and ol: "order_leaders c l st = Inr ls"
      by (rule leaders_to_commitE) blast
    have l': "cert_round l = r" "in_dag sha512 (dag st) l"
      using l entryD[OF assms(1)] by (auto simp: leader_def fault_simps entry_def)
    let ?rs = "rounds_back (last_committed_round st + 2) (cert_round l - 2)"
    from ol obtain y where walk: "rfold (walk_back c (dag st)) ?rs (l, [l]) = Inr (y, ls)"
      by (auto simp: order_leaders_def fault_simps)
    have "sorted_wrt (>) (cert_round l # ?rs)" using rounds_back_facts(2) lcr(2) l'(1) by (auto simp: rounds_back_facts(1))
    from walk_back_rounds[OF assms(1) walk this] obtain ks where "ls = [l] @ ks"
      "\<forall>k \<in> set ks. in_dag sha512 (dag st) k \<and> cert_round k \<in> set ?rs"
      "sorted_wrt (\<lambda>a b. cert_round b < cert_round a) (l # ks)" by blast
    then show ?thesis using lcr(1) l' by (auto simp: rounds_back_facts)
  qed simp
  then show "sorted_wrt (\<lambda>x y. cert_round x < cert_round y) (rev ls)"
    and "x \<in> set (rev ls) \<Longrightarrow> last_committed_round st < cert_round x \<and> in_dag sha512 (dag st) x"
    by (auto simp: sorted_wrt_rev)
qed

lemma tusk_step_base:
  assumes inv: "base_inv sha512 c cs out st" and x: "cert_key x \<notin> cert_key ` set (genesis c @ cs)"
    and run: "tusk_step sha512 c gc x (ldrs, out, st) = Inr (ldrs', out', st')"
  shows "base_inv sha512 c (cs @ [x]) out' st'"
    and "\<exists>ls. leaders_to_commit c (cert_round x) (st\<lparr>dag := dag_insert sha512 x (dag st)\<rparr>) = Inr ls \<and> ldrs' = ldrs @ rev ls \<and>
      last_committed_round st' = (if ls = [] then last_committed_round st else cert_round (hd ls))"
proof -
  let ?st = "st\<lparr>dag := dag_insert sha512 x (dag st)\<rparr>"
  from run obtain ls where ls: "leaders_to_commit c (cert_round x) ?st = Inr ls"
    unfolding tusk_step_def Let_def by (auto simp: fault_simps)
  obtain sq st2 where sq: "fold (commit_leader gc) (rev ls) ([], ?st) = (sq, st2)" by fastforce
  with run ls have r: "ldrs' = ldrs @ rev ls" "fold (commit_leader gc) (rev ls) ([], ?st) = (sq, st')" "out' = out @ sq"
    unfolding tusk_step_def Let_def by auto
  have inv1: "base_inv sha512 c (cs @ [x]) out ?st" using inv x by (rule base_insert)
  then have wf: "dag_wf sha512 (dag ?st)" by (simp add: base_inv_def commit_inv_def state_wf_def)
  from base_commit[OF inv1 leaders_rise[OF wf ls], of gc "[]"] r(2,3) have
    st': "base_inv sha512 c (cs @ [x]) out' st'"
      "last_committed_round st' = (if rev ls = [] then last_committed_round ?st else cert_round (last (rev ls)))" by auto
  show "base_inv sha512 c (cs @ [x]) out' st'" by (rule st'(1))
  show "\<exists>ls. leaders_to_commit c (cert_round x) ?st = Inr ls \<and> ldrs' = ldrs @ rev ls \<and>
      last_committed_round st' = (if ls = [] then last_committed_round st else cert_round (hd ls))"
    using ls r(1) st'(2) by (auto simp: last_rev)
qed

text \<open>Runs, certificate by certificate.\<close>

lemma tusk_run_snoc:
  "tusk_run sha512 c gc (cs @ [x]) = rbind (tusk_run sha512 c gc cs) (tusk_step sha512 c gc x)"
  by (simp add: tusk_run_def rfold_snoc)

lemma tusk_base:
  "distinct (map fst (members c)) \<Longrightarrow> distinct (map cert_key (genesis c @ cs)) \<Longrightarrow>
   tusk_run sha512 c gc cs = Inr (ldrs, out, st) \<Longrightarrow> base_inv sha512 c cs out st"
proof (induction cs arbitrary: ldrs out st rule: rev_induct)
  case Nil
  then show ?case by (auto simp: tusk_run_def base_new)
next
  case (snoc x cs)
  from snoc.prems(3) obtain ldrs0 out0 st0 where r: "tusk_run sha512 c gc cs = Inr (ldrs0, out0, st0)"
    "tusk_step sha512 c gc x (ldrs0, out0, st0) = Inr (ldrs, out, st)" by (auto simp: tusk_run_snoc fault_simps)
  have "cert_key x \<notin> cert_key ` set (genesis c @ cs)" "distinct (map cert_key (genesis c @ cs))" using snoc.prems(2) by auto
  with tusk_step_base(1)[OF _ _ r(2)] snoc.IH[OF snoc.prems(1) _ r(1)] show ?case by blast
qed

section \<open>Support\<close>

lemma support_stake:
  assumes ok: "stake_ok c" and G: "certified_dag sha512 c G" and V: "V \<subseteq> G" and d: "holds_from sha512 lo V d"
    and lo: "lo \<le> r" and as: "map_of d r = Some authorities" and l: "l \<in> G" "r = Suc (cert_round l)"
    and s: "stake_validity c \<le> support c (cert_digest sha512 l) authorities"
  shows "unat (stake_validity c) \<le> stake_sum c (supporters sha512 G l)"
proof -
  have wf: "dag_wf sha512 d" using d by (simp add: holds_from_def)
  then have awf: "authorities_wf sha512 r authorities" using as by (simp add: dag_wf_def)
  let ?xs = "filter (\<lambda>(_, x). cert_digest sha512 l \<in> set (parents (header x))) (map snd authorities)"
  have mem: "x \<in> supporters sha512 G l" if "(digest, x) \<in> set ?xs" for digest x
  proof -
    have p: "cert_digest sha512 l \<in> set (parents (header x))" and "(digest, x) \<in> snd ` set authorities" using that by auto
    then have "cert_round x = r" "in_dag sha512 d x" using values_entry[OF wf as, of "(digest, x)"] by auto
    then have "x \<in> V" using d lo unfolding holds_from_def by blast
    with V l p \<open>cert_round x = r\<close> show ?thesis by (auto simp: supporters_def parents_in_def)
  qed
  have "map (origin \<circ> snd) (map snd authorities) = map fst authorities"
    using awf by (auto simp: authorities_wf_def)
  then have "distinct (map (origin \<circ> snd) (map snd authorities))" using awf unfolding authorities_wf_def by metis
  then have dist: "distinct (map (origin \<circ> snd) ?xs)" by (rule distinct_map_filter)
  have sub: "set (map (origin \<circ> snd) ?xs) \<subseteq> origin ` supporters sha512 G l" using mem by force
  have members: "origin ` supporters sha512 G l \<subseteq> fst ` set (members c)"
    using G by (auto simp: supporters_def certified_dag_def)
  have sum: "(\<Sum>x \<leftarrow> ?xs. unat (stake c (origin (snd x)))) = (\<Sum>n \<in> set (map (origin \<circ> snd) ?xs). unat (stake c n))"
    using sum_list_distinct_conv_sum_set[OF dist, of "\<lambda>n. unat (stake c n)"] by (simp add: comp_def)
  also have "\<dots> \<le> stake_sum c (supporters sha512 G l)"
    unfolding stake_sum_def by (rule sum_mono2[OF _ sub]) (use finite_subset[OF members] in simp_all)
  finally have le: "(\<Sum>x \<leftarrow> ?xs. unat (stake c (origin (snd x)))) \<le> stake_sum c (supporters sha512 G l)" .
  have "stake_sum c (supporters sha512 G l) \<le> stake_total c" unfolding stake_sum_def by (rule stake_le_total[OF ok members])
  with le ok have "(\<Sum>x \<leftarrow> ?xs. unat (stake c (origin (snd x)))) < 2 ^ 32" by (simp add: stake_ok_def)
  from unat_sum_list[OF this] have "unat (support c (cert_digest sha512 l) authorities) = (\<Sum>x \<leftarrow> ?xs. unat (stake c (origin (snd x))))"
    by (simp add: support_def split_def)
  with le s show ?thesis by (simp add: word_le_nat_alt)
qed

section \<open>Agreement\<close>

text \<open>What the committed leaders are: the last one, with enough support, and the leaders it reaches.\<close>

definition leader_chain :: "(u8 list \<Rightarrow> u8 list) \<Rightarrow> NarwhalCommittee \<Rightarrow> Certificate set \<Rightarrow> Round \<Rightarrow> Certificate list \<Rightarrow> bool" where
  "leader_chain sha512 c G lcr ldrs \<longleftrightarrow>
     (if ldrs = [] then lcr = 0
      else \<exists>l ls. rev ldrs = l # ls \<and> l \<in> G \<and> cert_key l = (lcr, key_of c lcr) \<and> even lcr \<and> 2 \<le> lcr \<and>
        unat (stake_validity c) \<le> stake_sum c (supporters sha512 G l) \<and>
        chain_from sha512 c G l (rounds_back 2 (lcr - 2)) ls)"

lemma rounds_back_split:
  assumes "even k" and "even hi" and "2 \<le> k" and "k \<le> hi"
  shows "rounds_back 2 hi = rounds_back (k + 2) hi @ k # rounds_back 2 (k - 2)"
proof -
  have ev: "rounds_back lo h = filter even (rev [lo..<Suc h])" if "even h" for lo h
    unfolding rounds_back_def using that by (intro filter_cong) auto
  have "[2..<Suc hi] = [2..<k] @ k # [Suc k..<Suc hi]"
    using assms(3,4) by (metis Suc_le_eq le_SucI less_Suc_eq_le upt_add_eq_append upt_conv_Cons le_add_diff_inverse)
  moreover have "filter even [Suc k..<Suc hi] = filter even [k + 2..<Suc hi]"
  proof (cases "k < hi")
    case True
    then have "Suc (Suc k) \<le> hi" using assms(1,2) by presburger
    then show ?thesis using assms(1) by (simp add: upt_conv_Cons)
  qed simp
  moreover have "filter even [2..<k] = filter even [2..<Suc (k - 2)]"
  proof (cases "k = 2")
    case False
    then obtain m where m: "k = Suc (Suc (Suc m))" using assms(1,3) by (metis add_2_eq_Suc le_Suc_ex add_0_right not0_implies_Suc numeral_2_eq_2)
    then show ?thesis using assms(1) by simp
  qed simp
  ultimately show ?thesis using assms(1,2) by (simp add: ev rev_filter[symmetric])
qed

lemma chain_members: "chain_from sha512 c G x rs ls \<Longrightarrow> y \<in> set ls \<Longrightarrow> y \<in> G \<and> cert_round y \<in> set rs"
  by (induction rule: chain_from.induct) (auto simp: cert_key_def)

lemma chain_total: "\<exists>ls. chain_from sha512 c G x rs ls"
proof (induction rs arbitrary: x)
  case (Cons r rs)
  show ?case
  proof (cases "\<exists>y \<in> G. cert_key y = (r, key_of c r) \<and> dag_path sha512 G x y")
    case True
    then show ?thesis using Cons.IH chain_hit by blast
  next
    case False
    then show ?thesis using Cons.IH[of x] chain_miss[of G r c sha512 x rs] by blast
  qed
qed (use chain_nil in blast)

text \<open>The leaders committed so far continue the walk back from every later leader.\<close>

lemma chain_extends:
  assumes ok: "stake_ok c" and G: "certified_dag sha512 c G" and old: "leader_chain sha512 c G k ldrs"
    and x: "x \<in> G" "cert_round x = k'" "even k'" "k < k'" and a: "chain_from sha512 c G x (rounds_back (k + 2) (k' - 2)) a"
  shows "chain_from sha512 c G x (rounds_back 2 (k' - 2)) (a @ rev ldrs)"
proof (cases "ldrs = []")
  case True
  with old a show ?thesis by (simp add: leader_chain_def numeral_2_eq_2)
next
  case False
  with old obtain l ls where l: "rev ldrs = l # ls" "l \<in> G" "cert_key l = (k, key_of c k)" "even k" "2 \<le> k"
    "unat (stake_validity c) \<le> stake_sum c (supporters sha512 G l)" "chain_from sha512 c G l (rounds_back 2 (k - 2)) ls"
    unfolding leader_chain_def by auto
  have k: "cert_round l = k" using l(3) by (simp add: cert_key_def)
  have hi: "k \<le> k' - 2" "even (k' - 2)" using x(3,4) l(4,5) by presburger+
  let ?y = "last (x # a)"
  have "?y \<in> G \<and> k + 2 \<le> cert_round ?y"
  proof (cases "a = []")
    case True
    then show ?thesis using x hi(1) l(5) by simp
  next
    case False
    then show ?thesis using chain_members[OF a, of "last a"] by (simp add: rounds_back_facts)
  qed
  then have "dag_path sha512 G ?y l" using supported_reached[OF ok G l(6)] k l(5) by simp
  then have "chain_from sha512 c G ?y (k # rounds_back 2 (k - 2)) (l # ls)" by (rule chain_hit[OF l(2,3) _ l(7)])
  from chain_append[OF a this] show ?thesis
    unfolding rounds_back_split[OF l(4) hi(2) l(5) hi(1)] l(1) by simp
qed

lemma leaders_to_commit_certified:
  assumes ok: "stake_ok c" and G: "certified_dag sha512 c G" and V: "parent_closed sha512 G (set cs)"
    and inv: "base_inv sha512 c cs out st" and x: "x \<in> set cs"
    and old: "leader_chain sha512 c G (last_committed_round st) ldrs"
  shows "\<exists>ls. leaders_to_commit c (cert_round x) st = Inr ls \<and>
    leader_chain sha512 c G (if ls = [] then last_committed_round st else cert_round (hd ls)) (ldrs @ rev ls)"
proof -
  let ?k = "last_committed_round st" and ?d = "dag st"
  define q where "q = cert_round x - 1"
  have mem: "members c \<noteq> []" using ok by (auto simp: stake_ok_def stake_total_def)
  have xG: "x \<in> G" and VG: "set cs \<subseteq> G" using V x by (auto simp: parent_closed_def)
  have wf: "dag_wf sha512 ?d" using inv by (simp add: base_inv_def commit_inv_def state_wf_def)
  have holds: "holds_from sha512 (Suc ?k) (set cs) ?d" using inv by (rule base_holds_from)
  note held = holds_fromD[OF holds]
  have unf: "leaders_to_commit c (cert_round x) st =
     (if odd q \<or> q < 4 then Inr [] else if q - 2 \<le> ?k then Inr []
      else case entry ?d (q - 2) (key_of c (q - 2)) of None \<Rightarrow> Inr []
         | Some (digest, l) \<Rightarrow> (case map_of ?d (q - 1) of None \<Rightarrow> Inl ExpectFailed
              | Some as \<Rightarrow> if support c digest as < stake_validity c then Inr [] else order_leaders c l st))"
    unfolding leaders_to_commit_def Let_def q_def[symmetric] leader_entry[OF mem] rbind.simps ..
  show ?thesis
  proof (cases "odd q \<or> q < 4 \<or> q - 2 \<le> ?k \<or> entry ?d (q - 2) (key_of c (q - 2)) = None")
    case True
    then have "leaders_to_commit c (cert_round x) st = Inr []" unfolding unf by auto
    with old show ?thesis by simp
  next
    case False
    then obtain digest l where q: "even q" "4 \<le> q" "?k < q - 2" and e: "entry ?d (q - 2) (key_of c (q - 2)) = Some (digest, l)"
      by auto
    have l: "cert_round l = q - 2" "origin l = key_of c (q - 2)" "digest = cert_digest sha512 l" "in_dag sha512 ?d l"
      using entryD[OF wf e] by blast+
    have lV: "l \<in> set cs" using held[of l] l(1,4) q(3) by simp
    have "0 < q - 1" "q - 1 \<le> cert_round x" using q(2) by (simp_all add: q_def)
    then obtain z where "z \<in> reach sha512 G x (q - 1)" using reach_nonempty[OF ok G xG] by blast
    then have "z \<in> set cs" "cert_round z = q - 1" using path_closed[OF _ V x] by (auto simp: reach_def)
    then have "in_dag sha512 ?d z" using held[of z] q(3) by simp
    then obtain as where as: "map_of ?d (q - 1) = Some as" using \<open>cert_round z = q - 1\<close> by (auto simp: entry_def bind_eq_Some_conv)
    show ?thesis
    proof (cases "support c digest as < stake_validity c")
      case True
      then have "leaders_to_commit c (cert_round x) st = Inr []" unfolding unf using e as by simp
      with old show ?thesis by simp
    next
      case supported: False
      let ?rs = "rounds_back (?k + 2) (q - 2 - 2)"
      have "sorted_wrt (>) (cert_round l # ?rs)" using rounds_back_facts q(2) l(1) by auto
      moreover have "\<forall>r \<in> set ?rs. Suc ?k \<le> r" by (simp add: rounds_back_facts)
      ultimately obtain ls where ls: "rfold (walk_back c ?d) ?rs (l, [l]) = Inr (last (l # ls), [l] @ ls)"
        "chain_from sha512 c G l ?rs ls"
        using walk_back_chain[OF ok G V holds _ lV, of ?rs "[l]"] by auto
      have "leaders_to_commit c (cert_round x) st = Inr (l # ls)"
        using supported q e as ls(1) l(1) unfolding unf by (simp add: order_leaders_def)
      moreover have "unat (stake_validity c) \<le> stake_sum c (supporters sha512 G l)"
        using support_stake[OF ok G VG holds _ as, of l] supported l(1,3) lV VG q by auto
      moreover have "chain_from sha512 c G l (rounds_back 2 (q - 2 - 2)) (ls @ rev ldrs)"
        using chain_extends[OF ok G old _ l(1) _ q(3) ls(2)] lV VG q(1,2) by auto
      ultimately show ?thesis using l(1,2) lV VG q(1,2)
        by (intro exI[of _ "l # ls"]) (auto simp: leader_chain_def cert_key_def)
    qed
  qed
qed

lemma tusk_certified:
  assumes ok: "stake_ok c" and G: "certified_dag sha512 c G"
  shows "causal sha512 G cs \<Longrightarrow> \<exists>ldrs out st. tusk_run sha512 c gc cs = Inr (ldrs, out, st) \<and>
    base_inv sha512 c cs out st \<and> leader_chain sha512 c G (last_committed_round st) ldrs"
proof (induction cs rule: rev_induct)
  case Nil
  have "distinct (map fst (members c))" using ok by (simp add: stake_ok_def)
  from base_new[OF this] state_new_inv(2)[OF this] show ?case by (simp add: tusk_run_def leader_chain_def)
next
  case (snoc x cs)
  note x = causal_snoc[OF snoc.prems]
  from snoc.IH[OF x(1)] obtain ldrs out st where r: "tusk_run sha512 c gc cs = Inr (ldrs, out, st)"
    "base_inv sha512 c cs out st" "leader_chain sha512 c G (last_committed_round st) ldrs" by blast
  let ?st = "st\<lparr>dag := dag_insert sha512 x (dag st)\<rparr>"
  have key: "cert_key x \<notin> cert_key ` set (genesis c @ cs)"
    using fresh_key[OF G _ x(2,4)] x(1) by (simp add: causal_def)
  have inv1: "base_inv sha512 c (cs @ [x]) out ?st" by (rule base_insert[OF r(2) key])
  have "leader_chain sha512 c G (last_committed_round ?st) ldrs" using r(3) by simp
  from leaders_to_commit_certified[OF ok G causal_closed[OF snoc.prems] inv1 _ this, of x] obtain ls where
    ls: "leaders_to_commit c (cert_round x) ?st = Inr ls"
      "leader_chain sha512 c G (if ls = [] then last_committed_round ?st else cert_round (hd ls)) (ldrs @ rev ls)" by auto
  obtain sq st2 where sq: "fold (commit_leader gc) (rev ls) ([], ?st) = (sq, st2)" by fastforce
  have step: "tusk_step sha512 c gc x (ldrs, out, st) = Inr (ldrs @ rev ls, out @ sq, st2)"
    using ls(1) sq by (simp add: tusk_step_def Let_def)
  from tusk_step_base[OF r(2) key step] ls have "base_inv sha512 c (cs @ [x]) (out @ sq) st2"
    "leader_chain sha512 c G (last_committed_round st2) (ldrs @ rev ls)" by (auto split: if_splits)
  then show ?case using r(1) step by (simp add: tusk_run_snoc)
qed

lemma leader_chains_prefix:
  assumes ok: "stake_ok c" and G: "certified_dag sha512 c G"
    and a: "leader_chain sha512 c G k ldrs" and b: "leader_chain sha512 c G k' ldrs'" and le: "k \<le> k'"
  shows "prefix ldrs ldrs'"
proof (cases "ldrs' = []")
  case True
  then have "k = 0" using b le by (simp add: leader_chain_def)
  then show ?thesis using a by (auto simp: leader_chain_def split: if_splits)
next
  case False
  with b obtain l ls where l: "rev ldrs' = l # ls" "l \<in> G" "cert_key l = (k', key_of c k')" "even k'"
    "chain_from sha512 c G l (rounds_back 2 (k' - 2)) ls" unfolding leader_chain_def by auto
  show ?thesis
  proof (cases "k = k'")
    case True
    with a False b obtain m ms where m: "rev ldrs = m # ms" "m \<in> G" "cert_key m = (k', key_of c k')"
      "chain_from sha512 c G m (rounds_back 2 (k' - 2)) ms" unfolding leader_chain_def by (auto split: if_splits)
    have "m = l" using certified_unique[OF G m(2) l(2)] m(3) l(3) by metis
    with chain_det[OF G m(4)] l(5) m(1) l(1) have "rev ldrs = rev ldrs'" by simp
    then show ?thesis by simp
  next
    case False
    obtain as where as: "chain_from sha512 c G l (rounds_back (k + 2) (k' - 2)) as" using chain_total by blast
    have "cert_round l = k'" using l(3) by (simp add: cert_key_def)
    from chain_extends[OF ok G a l(2) this l(4) _ as] False le have
      "chain_from sha512 c G l (rounds_back 2 (k' - 2)) (as @ rev ldrs)" by simp
    with chain_det[OF G l(5)] have "ls = as @ rev ldrs" by blast
    with l(1) have "ldrs' = ldrs @ rev (l # as)" by (metis append_Cons rev_append rev_rev_ident)
    then show ?thesis by simp
  qed
qed

end
