(* ===== verification/Mp3Consensus.thy ===== *)
theory Mp3Consensus
  imports ConsensusDag
begin

text \<open>
  MP3-BFT++ as a consensus for Narwhal (\<open>narwhal/consensus/src/mp3bft.rs\<close>): several leaders in
  every round, prepared when a certificate of the next round shows their support, and committed
  when two more rounds have been prepared. The state extends the one of Tusk; \<open>update\<close>, \<open>linked\<close>,
  \<open>order_dag\<close> and the election of one leader are the same code there and the same definitions here.
\<close>

record DagSlotQC =
  slot_round :: Round
  slot_leaders_of :: "(Digest \<times> Certificate) list"

record MacroBlock =
  block_height :: u64
  block_round :: Round
  block_slot_qc :: DagSlotQC

record Mp3State = State +
  prepared_chain :: "MacroBlock list"
  next_height :: u64

definition mp3_state_new :: "(u8 list \<Rightarrow> u8 list) \<Rightarrow> Certificate list \<Rightarrow> Mp3State" where
  "mp3_state_new sha512 gen = State.extend (state_new sha512 gen) \<lparr>prepared_chain = [], next_height = 0\<rparr>"

text \<open>The leaders of the slots of a round, each authority at most once.\<close>

definition slot_leader_step ::
  "PublicKey list \<Rightarrow> Round \<Rightarrow> (PublicKey \<times> Digest \<times> Certificate) list \<Rightarrow> usize
   \<Rightarrow> (Digest \<times> Certificate) list \<times> PublicKey set \<Rightarrow> ((Digest \<times> Certificate) list \<times> PublicKey set) rust" where
  "slot_leader_step keys rd round_certs slot = (\<lambda>(leaders, used).
     rbind (rrem (rd + slot) (length keys)) (\<lambda>idx.
     rbind (vget keys idx) (\<lambda>key.
       if key \<in> used then Inr (leaders, used)
       else
         case map_of round_certs key of
           None \<Rightarrow> Inr (leaders, used)
         | Some e \<Rightarrow> Inr (leaders @ [e], insert key used))))"

definition slot_leaders :: "NarwhalCommittee \<Rightarrow> usize \<Rightarrow> Round \<Rightarrow> Dag \<Rightarrow> (Digest \<times> Certificate) list rust" where
  "slot_leaders c k rd d =
     (case map_of d rd of
        None \<Rightarrow> Inr []
      | Some round_certs \<Rightarrow>
          let keys = sort (map fst (members c))
          in rbind (rfold (slot_leader_step keys rd round_certs) [0..<min k (length keys)] ([], {}))
               (\<lambda>(leaders, _). Inr leaders))"

definition mp3_order_leaders :: "NarwhalCommittee \<Rightarrow> Certificate \<Rightarrow> 'a State_scheme \<Rightarrow> Certificate list rust" where
  "mp3_order_leaders c x st =
     rbind (rfold (walk_back c (dag st)) (rev [last_committed_round st + 1..<Suc (cert_round x - 1)]) (x, [x]))
       (\<lambda>(_, to_commit). Inr to_commit)"

definition supported_leaders :: "NarwhalCommittee \<Rightarrow> Round \<Rightarrow> Dag \<Rightarrow> (Digest \<times> Certificate) list \<Rightarrow> (Digest \<times> Certificate) list" where
  "supported_leaders c r d =
     filter (\<lambda>(digest, _).
       (case map_of d r of None \<Rightarrow> 0 | Some round_certs \<Rightarrow> support c digest round_certs) \<ge> stake_validity c)"

text \<open>Prepare: the block of the supported leaders extends the chain or starts a new one.\<close>

definition prepare_block :: "Round \<Rightarrow> (Digest \<times> Certificate) list \<Rightarrow> Mp3State \<Rightarrow> Mp3State" where
  "prepare_block leader_round supported st =
     (let macro_block = \<lparr>block_height = next_height st, block_round = leader_round,
                         block_slot_qc = \<lparr>slot_round = leader_round, slot_leaders_of = supported\<rparr>\<rparr>;
          chain = prepared_chain st;
          consecutive = (chain = [] \<or> block_height macro_block = block_height (last chain) + 1)
      in st\<lparr>next_height := next_height st + 1,
            prepared_chain := (if consecutive then chain @ [macro_block] else [macro_block])\<rparr>)"

text \<open>Commit of a block: each of its leaders with the past leaders linked to it.\<close>

definition commit_slot_leader ::
  "NarwhalCommittee \<Rightarrow> Round \<Rightarrow> Digest \<times> Certificate \<Rightarrow> Certificate list \<times> Mp3State \<Rightarrow> (Certificate list \<times> Mp3State) rust" where
  "commit_slot_leader c gc = (\<lambda>(_, x) (sequence, st).
     rbind (mp3_order_leaders c x st) (\<lambda>linked_leaders.
       Inr (fold (commit_leader gc) (rev linked_leaders) (sequence, st))))"

definition commit_block ::
  "NarwhalCommittee \<Rightarrow> Round \<Rightarrow> MacroBlock \<Rightarrow> Certificate list \<times> Mp3State \<Rightarrow> (Certificate list \<times> Mp3State) rust" where
  "commit_block c gc b = rfold (commit_slot_leader c gc) (slot_leaders_of (block_slot_qc b))"

text \<open>The loop that commits while three blocks are prepared.\<close>

function commit_chain ::
  "NarwhalCommittee \<Rightarrow> Round \<Rightarrow> MacroBlock list \<Rightarrow> Certificate list \<times> Mp3State \<Rightarrow> (Certificate list \<times> Mp3State) rust" where
  "commit_chain c gc chain (output, st) =
     (if length chain \<ge> 3
      then rbind (commit_block c gc (chain ! 0) (output, st\<lparr>prepared_chain := tl chain\<rparr>)) (commit_chain c gc (tl chain))
      else Inr (output, st))"
  by pat_completeness auto
termination by (relation "measure (\<lambda>(_, _, chain, _). length chain)") auto

definition mp3_step ::
  "(u8 list \<Rightarrow> u8 list) \<Rightarrow> NarwhalCommittee \<Rightarrow> Round \<Rightarrow> usize \<Rightarrow> Certificate \<Rightarrow> Certificate list \<times> Round \<times> Mp3State
   \<Rightarrow> (Certificate list \<times> Round \<times> Mp3State) rust" where
  "mp3_step sha512 c gc k x = (\<lambda>(output, last_prepared_round, st).
     let st1 = st\<lparr>dag := dag_insert sha512 x (dag st)\<rparr>;
         r = cert_round x;
         leader_round = r - 1
     in if r < 2 \<or> leader_round \<le> last_committed_round st1 \<or> leader_round \<le> last_prepared_round
        then Inr (output, last_prepared_round, st1)
        else
          rbind (slot_leaders c k leader_round (dag st1)) (\<lambda>leaders.
            let supported = supported_leaders c r (dag st1) leaders
            in if supported = [] then Inr (output, last_prepared_round, st1)
               else
                 let st2 = prepare_block leader_round supported st1
                 in rbind (commit_chain c gc (prepared_chain st2) (output, st2)) (\<lambda>(output', st3).
                      Inr (output', leader_round, st3))))"

definition mp3_run ::
  "(u8 list \<Rightarrow> u8 list) \<Rightarrow> NarwhalCommittee \<Rightarrow> Round \<Rightarrow> usize \<Rightarrow> Certificate list
   \<Rightarrow> (Certificate list \<times> Round \<times> Mp3State) rust" where
  "mp3_run sha512 c gc k xs = rfold (mp3_step sha512 c gc k) xs ([], 0, mp3_state_new sha512 (genesis c))"

end
