(* ===== verification/Mp3Safety.thy ===== *)
theory Mp3Safety
  imports CertifiedDag Mp3Consensus
begin

text \<open>
  MP3-BFT++ on the shared state: on the certificates of a certified set, received parents first,
  it never panics, outputs no certificate twice, and keeps at most two prepared blocks, of
  consecutive heights.
\<close>

section \<open>Commits keep the chain\<close>

lemma state_update_chain [simp]:
  "prepared_chain (state_update gc x st) = prepared_chain st" "next_height (state_update gc x st) = next_height st"
  by (simp_all add: state_update_def Let_def)

lemma state_updates_chain [simp]:
  "prepared_chain (fold (state_update gc) xs st) = prepared_chain st" "next_height (fold (state_update gc) xs st) = next_height st"
  by (induction xs arbitrary: st) simp_all

lemma commit_leaders_chain:
  "fold (commit_leader gc) ls (seq, st) = (seq', st') \<Longrightarrow> prepared_chain st' = prepared_chain st \<and> next_height st' = next_height st"
proof (induction ls arbitrary: seq st)
  case (Cons l ls)
  from Cons.IH[of "seq @ order_dag gc l st" "fold (state_update gc) (order_dag gc l st) st"] Cons.prems
  show ?case by (simp add: commit_leader_def Let_def)
qed simp

text \<open>The base invariant is about the fields that the two states share.\<close>

lemma base_inv_cong:
  "last_committed_round st' = last_committed_round st \<Longrightarrow> last_committed st' = last_committed st \<Longrightarrow> dag st' = dag st \<Longrightarrow>
   base_inv sha512 c cs out st' \<longleftrightarrow> base_inv sha512 c cs out st"
  unfolding base_inv_def commit_inv_def state_wf_def by (simp only:)

section \<open>A leader and a block\<close>

lemma commit_slot_leader_ok:
  assumes ok: "stake_ok c" and G: "certified_dag sha512 c G" and V: "parent_closed sha512 G (set cs)"
    and inv: "base_inv sha512 c cs out st" and x: "x \<in> set cs" "x \<notin> set out" "last_committed_round st \<le> cert_round x"
  shows "\<exists>xs st'. commit_slot_leader c gc (digest, x) (out, st) = Inr (out @ xs, st') \<and> base_inv sha512 c cs (out @ xs) st' \<and>
    last_committed_round st' = cert_round x \<and> (\<forall>y \<in> set xs. y = x \<or> cert_round y < cert_round x) \<and>
    prepared_chain st' = prepared_chain st \<and> next_height st' = next_height st"
proof -
  let ?k = "last_committed_round st" and ?rs = "rev [last_committed_round st + 1..<Suc (cert_round x - 1)]"
  have VG: "set cs \<subseteq> G" and xG: "x \<in> G" using V x(1) by (auto simp: parent_closed_def)
  have pos: "0 < cert_round x" using G xG by (simp add: certified_dag_def)
  note holds = base_holds_from[OF inv]
  have rs: "sorted_wrt (>) (cert_round x # ?rs)" "\<forall>r \<in> set ?rs. Suc ?k \<le> r" using pos by (auto simp: sorted_wrt_rev)
  obtain ls where walk: "rfold (walk_back c (dag st)) ?rs (x, [x]) = Inr (last (x # ls), [x] @ ls)"
    and ls: "set ls \<subseteq> set cs" "sorted_wrt (\<lambda>a b. cert_round b < cert_round a) (x # ls)" "cert_round ` set ls \<subseteq> set ?rs"
    using walk_back_chain[OF ok G V holds _ x(1) rs, of "[x]"] by blast
  have asc: "sorted_wrt (\<lambda>a b. cert_round a < cert_round b) (rev ls)" using ls(2) by (simp add: sorted_wrt_rev)
  have mem: "?k < cert_round y \<and> in_dag sha512 (dag st) y" if "y \<in> set (rev ls)" for y
    using that ls(1,3) holds_fromD[OF holds, of y] by force
  from base_commit[OF inv asc mem, of gc out] obtain ys st1 where f: "fold (commit_leader gc) (rev ls) (out, st) = (out @ ys, st1)"
    and inv1: "base_inv sha512 c cs (out @ ys) st1"
    and lcr1: "last_committed_round st1 = (if rev ls = [] then ?k else cert_round (last (rev ls)))" by blast
  have below: "cert_round y < cert_round x" if "y \<in> set ls" for y using ls(2) that by simp
  have fresh: "x \<notin> set (out @ ys) \<and> (\<forall>y \<in> set ys. cert_round y < cert_round x) \<and> last_committed_round st1 \<le> cert_round x"
  proof (cases "ls = []")
    case True
    then have "ys = []" "st1 = st" using f by simp_all
    then show ?thesis using x(2,3) by simp
  next
    case False
    then have lt: "last_committed_round st1 < cert_round x" using lcr1 below[of "hd ls"] by (simp add: last_rev)
    have ci: "commit_inv sha512 (genesis c @ out @ ys) st1" using inv1 unfolding base_inv_def by blast
    have "cert_round y < cert_round x" if "y \<in> set (out @ ys)" for y
      using committed_rounds[OF ci, of y] that lt by simp
    then show ?thesis using lt by (metis Un_iff less_imp_le less_irrefl set_append)
  qed
  have sub: "set (out @ ys) \<subseteq> set cs" using inv1 unfolding base_inv_def by blast
  have key: "cert_key x \<notin> cert_key ` set (genesis c @ out @ ys)" using fresh_key[OF G _ xG] sub VG fresh by blast
  let ?xs = "order_dag gc x st1"
  note one = base_commit_one[OF inv1 x(1) key, where gc = gc]
  have "commit_slot_leader c gc (digest, x) (out, st) = Inr (out @ (ys @ ?xs), fold (state_update gc) ?xs st1)"
    using walk f by (simp add: commit_slot_leader_def mp3_order_leaders_def commit_leader_def Let_def)
  moreover have "prepared_chain (fold (state_update gc) ?xs st1) = prepared_chain st"
    "next_height (fold (state_update gc) ?xs st1) = next_height st" using commit_leaders_chain[OF f] by simp_all
  moreover have "base_inv sha512 c cs (out @ (ys @ ?xs)) (fold (state_update gc) ?xs st1)" using one(1) fresh by simp
  moreover have "\<forall>y \<in> set (ys @ ?xs). y = x \<or> cert_round y < cert_round x" using one(3) fresh by auto
  moreover have "last_committed_round (fold (state_update gc) ?xs st1) = cert_round x" using one(2) fresh by blast
  ultimately show ?thesis by blast
qed

lemma commit_block_ok:
  assumes ok: "stake_ok c" and G: "certified_dag sha512 c G" and V: "parent_closed sha512 G (set cs)"
  shows "base_inv sha512 c cs out st \<Longrightarrow> (\<forall>x \<in> snd ` set ls. x \<in> set cs \<and> x \<notin> set out \<and> cert_round x = r) \<Longrightarrow>
    distinct (map snd ls) \<Longrightarrow> last_committed_round st \<le> r \<Longrightarrow>
    \<exists>xs st'. rfold (commit_slot_leader c gc) ls (out, st) = Inr (out @ xs, st') \<and> base_inv sha512 c cs (out @ xs) st' \<and>
      last_committed_round st' = (if ls = [] then last_committed_round st else r) \<and>
      prepared_chain st' = prepared_chain st \<and> next_height st' = next_height st"
proof (induction ls arbitrary: out st)
  case (Cons l ls)
  obtain digest x where l: "l = (digest, x)" by fastforce
  have x: "x \<in> set cs" "x \<notin> set out" "cert_round x = r" "last_committed_round st \<le> cert_round x" using Cons.prems(2,4) l by simp_all
  from commit_slot_leader_ok[OF ok G V Cons.prems(1) x(1,2,4)] x(3) obtain xs st1 where
    s: "commit_slot_leader c gc l (out, st) = Inr (out @ xs, st1)" "base_inv sha512 c cs (out @ xs) st1"
      "last_committed_round st1 = r" "\<forall>y \<in> set xs. y = x \<or> cert_round y < r"
      "prepared_chain st1 = prepared_chain st" "next_height st1 = next_height st" unfolding l by metis
  have "\<forall>y \<in> snd ` set ls. y \<in> set cs \<and> y \<notin> set (out @ xs) \<and> cert_round y = r"
    using Cons.prems(2,3) s(4) l by fastforce
  from Cons.IH[OF s(2) this] Cons.prems(3) s(3) obtain ys st' where
    "rfold (commit_slot_leader c gc) ls (out @ xs, st1) = Inr ((out @ xs) @ ys, st')" "base_inv sha512 c cs ((out @ xs) @ ys) st'"
    "last_committed_round st' = r" "prepared_chain st' = prepared_chain st1" "next_height st' = next_height st1" by auto
  with s show ?case by (intro exI[of _ "xs @ ys"] exI[of _ st']) simp
qed simp

section \<open>Slot leaders\<close>

lemma slot_leader_steps:
  assumes "keys \<noteq> []" and "used = (origin \<circ> snd) ` set leaders" and "distinct (map (origin \<circ> snd) leaders)"
    and "authorities_wf sha512 r as" and "\<forall>e \<in> set leaders. map_of as (origin (snd e)) = Some e"
  shows "\<exists>leaders' used'. rfold (slot_leader_step keys rd as) slots (leaders, used) = Inr (leaders', used') \<and>
    distinct (map (origin \<circ> snd) leaders') \<and> (\<forall>e \<in> set leaders'. map_of as (origin (snd e)) = Some e)"
  using assms
proof (induction slots arbitrary: leaders used)
  case (Cons s slots)
  let ?key = "keys ! ((rd + s) mod length keys)"
  have step: "slot_leader_step keys rd as s (leaders, used) =
      Inr (if ?key \<in> used then (leaders, used) else case map_of as ?key of None \<Rightarrow> (leaders, used) | Some e \<Rightarrow> (leaders @ [e], insert ?key used))"
    using Cons.prems(1) by (auto simp: slot_leader_step_def split: option.splits)
  show ?case
  proof (cases "?key \<in> used \<or> map_of as ?key = None")
    case True
    then have "slot_leader_step keys rd as s (leaders, used) = Inr (leaders, used)" unfolding step by auto
    with Cons.IH[OF Cons.prems] show ?thesis by simp
  next
    case False
    then obtain e where e: "map_of as ?key = Some e" "?key \<notin> used" by auto
    then have o: "origin (snd e) = ?key" using Cons.prems(4) by (cases e) (auto simp: authorities_wf_def)
    have "slot_leader_step keys rd as s (leaders, used) = Inr (leaders @ [e], insert ?key used)" unfolding step using e by simp
    with Cons.IH[of "insert ?key used" "leaders @ [e]"] Cons.prems e o show ?thesis by auto
  qed
qed simp

lemma slot_leaders_ok:
  assumes "dag_wf sha512 d" and "members c \<noteq> []"
  shows "\<exists>ls. slot_leaders c k rd d = Inr ls \<and> distinct (map snd ls) \<and>
    (\<forall>x \<in> snd ` set ls. in_dag sha512 d x \<and> cert_round x = rd)"
proof (cases "map_of d rd")
  case (Some as)
  have wf: "authorities_wf sha512 rd as" using assms(1) Some by (simp add: dag_wf_def)
  let ?keys = "sort (map fst (members c))"
  have "?keys \<noteq> []" using assms(2) by (metis length_0_conv length_map length_sort)
  from slot_leader_steps[OF this _ _ wf, of "{}" "[]" rd "[0..<min k (length ?keys)]"] obtain ls used where
    ls: "rfold (slot_leader_step ?keys rd as) [0..<min k (length ?keys)] ([], {}) = Inr (ls, used)"
      "distinct (map (origin \<circ> snd) ls)" "\<forall>e \<in> set ls. map_of as (origin (snd e)) = Some e" by auto
  have "in_dag sha512 d (snd e) \<and> cert_round (snd e) = rd" if "e \<in> set ls" for e
  proof -
    have "entry d rd (origin (snd e)) = Some (fst e, snd e)" using ls(3) that Some by (simp add: entry_def)
    from entryD(1,4)[OF assms(1) this] show ?thesis by blast
  qed
  moreover have "distinct (map snd ls)" using ls(2) by (metis distinct_map map_map)
  ultimately show ?thesis using Some ls(1) by (auto simp: slot_leaders_def Let_def)
qed (simp add: slot_leaders_def)

section \<open>Steps\<close>

definition block_ok :: "Certificate list \<Rightarrow> MacroBlock \<Rightarrow> bool" where
  "block_ok cs b \<longleftrightarrow> (let ls = slot_leaders_of (block_slot_qc b) in
     ls \<noteq> [] \<and> distinct (map snd ls) \<and> (\<forall>x \<in> snd ` set ls. x \<in> set cs \<and> cert_round x = block_round b))"

definition heights_ok :: "Mp3State \<Rightarrow> bool" where
  "heights_ok st \<longleftrightarrow> (\<forall>i < length (prepared_chain st).
     block_height (prepared_chain st ! i) + of_nat (length (prepared_chain st) - i) = next_height st)"

definition mp3_inv ::
  "(u8 list \<Rightarrow> u8 list) \<Rightarrow> NarwhalCommittee \<Rightarrow> Certificate list \<Rightarrow> Certificate list \<times> Round \<times> Mp3State \<Rightarrow> bool" where
  "mp3_inv sha512 c cs = (\<lambda>(out, lpr, st). base_inv sha512 c cs out st \<and> heights_ok st \<and>
     length (prepared_chain st) \<le> 2 \<and> sorted_wrt (<) (last_committed_round st # map block_round (prepared_chain st)) \<and>
     (\<forall>b \<in> set (prepared_chain st). block_ok cs b \<and> block_round b \<le> lpr))"

lemma prepare_extends:
  assumes "heights_ok st"
  shows "\<exists>b. block_round b = r \<and> slot_leaders_of (block_slot_qc b) = ls \<and>
    prepare_block r ls st = st\<lparr>next_height := next_height st + 1, prepared_chain := prepared_chain st @ [b]\<rparr> \<and>
    heights_ok (prepare_block r ls st)"
proof -
  let ?b = "\<lparr>block_height = next_height st, block_round = r, block_slot_qc = \<lparr>slot_round = r, slot_leaders_of = ls\<rparr>\<rparr>"
  have "block_height (last (prepared_chain st)) + 1 = next_height st" if "prepared_chain st \<noteq> []"
    using assms[unfolded heights_ok_def, rule_format, of "length (prepared_chain st) - 1"] that
    by (simp add: last_conv_nth Suc_leI)
  then have p: "prepare_block r ls st = st\<lparr>next_height := next_height st + 1, prepared_chain := prepared_chain st @ [?b]\<rparr>"
    by (auto simp: prepare_block_def Let_def)
  moreover have "heights_ok (prepare_block r ls st)"
    using assms unfolding heights_ok_def p by (auto simp: nth_append less_Suc_eq Suc_diff_le algebra_simps)
  ultimately show ?thesis by (intro exI[of _ ?b]) simp
qed

text \<open>The commit loop on a chain of at most three blocks.\<close>

lemma commit_chain_ok:
  assumes ok: "stake_ok c" and G: "certified_dag sha512 c G" and V: "parent_closed sha512 G (set cs)"
    and inv: "base_inv sha512 c cs out st" and heights: "heights_ok st" and len: "length (prepared_chain st) \<le> 3"
    and rounds: "sorted_wrt (<) (last_committed_round st # map block_round (prepared_chain st))"
    and blocks: "\<forall>b \<in> set (prepared_chain st). block_ok cs b \<and> block_round b \<le> lpr"
  shows "\<exists>out' st'. commit_chain c gc (prepared_chain st) (out, st) = Inr (out', st') \<and> mp3_inv sha512 c cs (out', lpr, st')"
proof (cases "length (prepared_chain st) \<le> 2")
  case True
  then show ?thesis using inv heights rounds blocks by (auto simp: mp3_inv_def)
next
  case False
  then have "length (prepared_chain st) = Suc (Suc (Suc 0))" using len by simp
  then obtain a b d where chain: "prepared_chain st = [a, b, d]" by (auto simp: length_Suc_conv)
  let ?st = "st\<lparr>prepared_chain := [b, d]\<rparr>" and ?ls = "slot_leaders_of (block_slot_qc a)"
  have inv0: "base_inv sha512 c cs out ?st" using inv by (subst base_inv_cong[where st = st]) simp_all
  have a: "?ls \<noteq> []" "distinct (map snd ?ls)" "\<forall>x \<in> snd ` set ?ls. x \<in> set cs \<and> cert_round x = block_round a"
    using blocks chain by (simp_all add: block_ok_def Let_def)
  have ci: "commit_inv sha512 (genesis c @ out) st" using inv by (simp add: base_inv_def)
  have fresh: "x \<notin> set out" if "x \<in> snd ` set ?ls" for x
    using committed_rounds[OF ci, of x] that a(3) rounds chain by auto
  have lt: "last_committed_round ?st \<le> block_round a" using rounds chain by simp
  have "\<forall>x \<in> snd ` set ?ls. x \<in> set cs \<and> x \<notin> set out \<and> cert_round x = block_round a" using a(3) fresh by blast
  from commit_block_ok[OF ok G V inv0 this a(2) lt, of gc] a(1) obtain xs st' where
    s: "rfold (commit_slot_leader c gc) ?ls (out, ?st) = Inr (out @ xs, st')" "base_inv sha512 c cs (out @ xs) st'"
      "last_committed_round st' = block_round a" "prepared_chain st' = [b, d]" "next_height st' = next_height st" by auto
  have "commit_chain c gc (prepared_chain st) (out, st) = Inr (out @ xs, st')"
    using s(1) chain by (simp add: commit_block_def)
  moreover have "heights_ok st'" using heights unfolding heights_ok_def chain s(4,5)
    by (auto simp: less_Suc_eq numeral_2_eq_2 dest: spec[of _ 1] spec[of _ 2])
  moreover have "sorted_wrt (<) (last_committed_round st' # map block_round (prepared_chain st'))"
    using rounds unfolding chain s(3,4) by simp
  moreover have "\<forall>b \<in> set (prepared_chain st'). block_ok cs b \<and> block_round b \<le> lpr" using blocks unfolding chain s(4) by simp
  ultimately show ?thesis using s(2,4) by (intro exI[of _ "out @ xs"] exI[of _ st']) (simp add: mp3_inv_def)
qed

lemma mp3_step_ok:
  assumes ok: "stake_ok c" and G: "certified_dag sha512 c G" and V: "parent_closed sha512 G (set (cs @ [x]))"
    and inv: "mp3_inv sha512 c cs (out, lpr, st)" and x: "cert_key x \<notin> cert_key ` set (genesis c @ cs)"
  shows "\<exists>s'. mp3_step sha512 c gc k x (out, lpr, st) = Inr s' \<and> mp3_inv sha512 c (cs @ [x]) s'"
proof -
  let ?st = "st\<lparr>dag := dag_insert sha512 x (dag st)\<rparr>" and ?r = "cert_round x"
  have mem: "members c \<noteq> []" using ok by (auto simp: stake_ok_def stake_total_def)
  have base: "base_inv sha512 c (cs @ [x]) out ?st" using inv x by (intro base_insert) (simp_all add: mp3_inv_def)
  have old: "heights_ok ?st" "length (prepared_chain ?st) \<le> 2"
    "sorted_wrt (<) (last_committed_round ?st # map block_round (prepared_chain ?st))"
    "\<forall>b \<in> set (prepared_chain ?st). block_ok (cs @ [x]) b \<and> block_round b \<le> lpr"
    using inv by (auto simp: mp3_inv_def heights_ok_def block_ok_def Let_def)
  have stay: "mp3_inv sha512 c (cs @ [x]) (out, lpr, ?st)" using base old by (simp add: mp3_inv_def)
  have wf: "dag_wf sha512 (dag ?st)" using base by (simp add: base_inv_def commit_inv_def state_wf_def)
  from slot_leaders_ok[OF wf mem] obtain ls where ls: "slot_leaders c k (?r - 1) (dag ?st) = Inr ls"
    "distinct (map snd ls)" "\<forall>y \<in> snd ` set ls. in_dag sha512 (dag ?st) y \<and> cert_round y = ?r - 1" by blast
  let ?sup = "supported_leaders c ?r (dag ?st) ls"
  show ?thesis
  proof (cases "?r < 2 \<or> ?r - 1 \<le> last_committed_round ?st \<or> ?r - 1 \<le> lpr \<or> ?sup = []")
    case True
    then have "mp3_step sha512 c gc k x (out, lpr, st) = Inr (out, lpr, ?st)"
      using ls(1) by (auto simp: mp3_step_def Let_def)
    with stay show ?thesis by blast
  next
    case False
    from prepare_extends[OF old(1), of "?r - 1" ?sup] obtain b where b: "block_round b = ?r - 1" "slot_leaders_of (block_slot_qc b) = ?sup"
      and p: "prepare_block (?r - 1) ?sup ?st = ?st\<lparr>next_height := next_height ?st + 1, prepared_chain := prepared_chain ?st @ [b]\<rparr>"
      and h: "heights_ok (prepare_block (?r - 1) ?sup ?st)" by blast
    let ?st2 = "prepare_block (?r - 1) ?sup ?st"
    have "y \<in> set (cs @ [x])" if "y \<in> snd ` set ?sup" for y
    proof -
      have "in_dag sha512 (dag ?st) y" "cert_round y = ?r - 1" using that ls(3) by (auto simp: supported_leaders_def)
      with holds_fromD[OF base_holds_from[OF base], of y] False show ?thesis by auto
    qed
    then have "block_ok (cs @ [x]) b"
      using False b ls(2,3) distinct_map_filter[OF ls(2)] by (auto simp: block_ok_def Let_def supported_leaders_def)
    then have blocks: "\<forall>b \<in> set (prepared_chain ?st2). block_ok (cs @ [x]) b \<and> block_round b \<le> ?r - 1"
      using old(4) b(1) False unfolding p by auto
    have rounds: "sorted_wrt (<) (last_committed_round ?st2 # map block_round (prepared_chain ?st2))"
      using old(3,4) b(1) False unfolding p by (fastforce simp: sorted_wrt_append)
    have base2: "base_inv sha512 c (cs @ [x]) out ?st2" using base unfolding p by (subst base_inv_cong[where st = ?st]) simp_all
    have "length (prepared_chain ?st2) \<le> 3" using old(2) unfolding p by simp
    from commit_chain_ok[OF ok G V base2 h this rounds blocks] obtain out' st' where
      "commit_chain c gc (prepared_chain ?st2) (out, ?st2) = Inr (out', st')" "mp3_inv sha512 c (cs @ [x]) (out', ?r - 1, st')" by blast
    with False ls(1) show ?thesis by (auto simp: mp3_step_def Let_def)
  qed
qed

lemma mp3_run_ok:
  assumes "stake_ok c" and G: "certified_dag sha512 c G"
  shows "causal sha512 G cs \<Longrightarrow> \<exists>s. mp3_run sha512 c gc k cs = Inr s \<and> mp3_inv sha512 c cs s"
proof (induction cs rule: rev_induct)
  case Nil
  have d: "distinct (map fst (members c))" using assms(1) by (simp add: stake_ok_def)
  have "base_inv sha512 c [] [] (mp3_state_new sha512 (genesis c))"
    using base_new[OF d] by (subst base_inv_cong[where st = "state_new sha512 (genesis c)"])
      (simp_all add: mp3_state_new_def State.defs)
  then show ?case by (simp add: mp3_run_def mp3_inv_def mp3_state_new_def State.defs heights_ok_def)
next
  case (snoc x cs)
  note x = causal_snoc[OF snoc.prems]
  from snoc.IH[OF x(1)] obtain out lpr st where r: "mp3_run sha512 c gc k cs = Inr (out, lpr, st)" "mp3_inv sha512 c cs (out, lpr, st)" by auto
  have key: "cert_key x \<notin> cert_key ` set (genesis c @ cs)"
    using fresh_key[OF G _ x(2,4)] x(1) by (simp add: causal_def)
  from mp3_step_ok[OF assms causal_closed[OF snoc.prems] r(2) key] r(1) show ?case by (simp add: mp3_run_def rfold_snoc)
qed

end
