(* ===== verification/ConsensusSamples.thy ===== *)
theory ConsensusSamples
  imports TuskSafety Mp3Safety
begin

text \<open>
  Runs of the two consensus protocols on a committee of four, evaluated: the certificates of two
  certified sets in two orders of arrival each, and what the protocols output on them.
\<close>

section \<open>A sample committee\<close>

definition sample_authority :: NarwhalAuthority where
  "sample_authority =
     \<lparr>stake_of = 1, primary_of = \<lparr>primary_to_primary = '''', worker_to_primary = ''''\<rparr>, workers_of = []\<rparr>"

definition sample_committee :: NarwhalCommittee where
  "sample_committee = \<lparr>members = map (\<lambda>a. ([a], sample_authority)) [0, 1, 2, 3]\<rparr>"

text \<open>A hash for concrete runs: the author and the low byte of the round.\<close>

definition short_hash :: "u8 list \<Rightarrow> u8 list" where
  "short_hash bs = [last bs, bs ! (length bs - 9)]"

definition sample_cert :: "u8 \<Rightarrow> Round \<Rightarrow> u8 list \<Rightarrow> Certificate" where
  "sample_cert a r ps =
     \<lparr>header = \<lparr>author = [a], round = r, payload = [], parents = map (\<lambda>p. [p, of_nat (r - 1)]) ps, header_id = [],
                header_signature = signature_default\<rparr>, cert_votes = []\<rparr>"

definition author_rounds :: "Certificate list \<Rightarrow> (u8 \<times> Round) list" where
  "author_rounds xs = map (\<lambda>x. (hd (origin x), cert_round x)) xs"

lemma sample_stake: "stake_ok sample_committee"
proof -
  have d: "distinct (map fst (members sample_committee))" by (simp add: sample_committee_def)
  have "stake_total sample_committee = 4"
    unfolding stake_total_list[OF d] by (simp add: sample_committee_def sample_authority_def)
  with d show ?thesis by (simp add: stake_ok_def)
qed

text \<open>
  Nine rounds: \<open>first_certs\<close> let a node commit the leaders of rounds two and four before it has
  seen \<open>slow_certs\<close>, which all belong to the history of the leader of round six.
\<close>

definition first_certs :: "Certificate list" where
  "first_certs =
     map (\<lambda>a. sample_cert a 1 [0, 1, 2]) [0, 1, 2] @ map (\<lambda>a. sample_cert a 2 [0, 1, 2]) [0, 2, 3] @
     map (\<lambda>a. sample_cert a 3 [0, 2, 3]) [0, 1, 3] @ map (\<lambda>a. sample_cert a 4 [0, 1, 3]) [0, 1, 3] @
     map (\<lambda>a. sample_cert a 5 [0, 1, 3]) [0, 1, 3] @ map (\<lambda>a. sample_cert a 6 [0, 1, 3]) [0, 1, 3] @
     [sample_cert 0 7 [0, 1, 3]]"

definition slow_certs :: "Certificate list" where
  "slow_certs =
     [sample_cert 3 1 [0, 1, 2], sample_cert 1 2 [0, 1, 3], sample_cert 2 3 [0, 1, 2], sample_cert 2 4 [0, 1, 2],
      sample_cert 2 5 [0, 1, 2], sample_cert 2 6 [0, 1, 2]]"

definition last_certs :: "Certificate list" where
  "last_certs =
     [sample_cert 1 7 [0, 1, 2], sample_cert 3 7 [1, 2, 3], sample_cert 0 8 [0, 1, 3], sample_cert 1 8 [0, 1, 3],
      sample_cert 3 8 [0, 1, 3], sample_cert 0 9 [0, 1, 3]]"

definition slow_arrival :: "Certificate list" where
  "slow_arrival = first_certs @ slow_certs @ last_certs"

definition round_arrival :: "Certificate list" where
  "round_arrival = sort_key cert_round slow_arrival"

lemma causal_sorted:
  assumes "distinct cs" and "sorted (map cert_round cs)"
  shows "causal sha512 (set cs) cs"
proof -
  have "y \<in> set (take i cs)" if i: "i < length cs" and y: "y \<in> parents_in sha512 (set cs) (cs ! i)" for i y
  proof -
    from y obtain j where j: "j < length cs" "y = cs ! j" "cert_round (cs ! j) < cert_round (cs ! i)"
      by (auto simp: parents_in_def in_set_conv_nth)
    have "j < i"
    proof (rule ccontr)
      assume "\<not> j < i"
      then have "cert_round (cs ! i) \<le> cert_round (cs ! j)" using sorted_nth_mono[OF assms(2), of i j] i j(1) by simp
      with j(3) show False by simp
    qed
    then show ?thesis using i j(2) by (force simp: in_set_conv_nth)
  qed
  then show ?thesis using assms(1) by (auto simp: causal_def)
qed

lemma slow_arrival_certified: "certified_dag short_hash sample_committee (set slow_arrival)"
  unfolding certified_dag_def inj_on_def cert_key_eq by code_simp

lemma slow_arrival_causal: "causal short_hash (set slow_arrival) slow_arrival"
  by code_simp

lemma round_arrival_facts: "mset round_arrival = mset slow_arrival" "causal short_hash (set slow_arrival) round_arrival"
proof -
  show "mset round_arrival = mset slow_arrival" by (simp add: round_arrival_def)
  have "distinct slow_arrival" using slow_arrival_causal by (simp add: causal_def)
  then show "causal short_hash (set slow_arrival) round_arrival"
    using causal_sorted[of round_arrival short_hash] by (simp add: round_arrival_def)
qed

definition run_output :: "(Certificate list \<times> Certificate list \<times> State) rust \<Rightarrow> (u8 \<times> Round) list option" where
  "run_output res = (case res of Inl _ \<Rightarrow> None | Inr (_, out, _) \<Rightarrow> Some (author_rounds out))"

lemma slow_arrival_output:
  "run_output (tusk_run short_hash sample_committee 50 slow_arrival) =
     Some [(2, 1), (1, 1), (0, 1), (2, 2), (3, 2), (0, 2), (3, 3), (1, 3), (0, 3), (0, 4),
           (3, 1), (1, 2), (2, 3), (2, 4), (1, 4), (3, 4), (2, 5), (1, 5), (0, 5), (2, 6)]"
  by code_simp

lemma round_arrival_output:
  "run_output (tusk_run short_hash sample_committee 50 round_arrival) =
     Some [(2, 1), (1, 1), (0, 1), (2, 2), (3, 2), (0, 2), (3, 3), (1, 3), (0, 3), (0, 4),
           (2, 3), (2, 4), (1, 4), (3, 4), (2, 5), (1, 5), (0, 5), (2, 6)]"
  by code_simp

section \<open>Five rounds\<close>

text \<open>
  Five rounds. The leaders of the first round are the authors one and two; the certificates
  \<open>one_supporter\<close> of round two name the first of them only, \<open>two_supporters\<close> name both.
\<close>

definition first_round :: "Certificate list" where
  "first_round = map (\<lambda>a. sample_cert a 1 [0, 1, 2]) [0, 1, 2, 3]"

definition one_supporter :: "Certificate list" where
  "one_supporter = [sample_cert 0 2 [0, 1, 3], sample_cert 1 2 [0, 1, 3]]"

definition two_supporters :: "Certificate list" where
  "two_supporters = [sample_cert 2 2 [0, 1, 2, 3], sample_cert 3 2 [1, 2, 3]]"

definition later_rounds :: "Certificate list" where
  "later_rounds = concat (map (\<lambda>r. map (\<lambda>a. sample_cert a r [0, 1, 2, 3]) [0, 1, 2, 3]) [3, 4, 5])"

definition one_first :: "Certificate list" where
  "one_first = first_round @ one_supporter @ two_supporters @ later_rounds"

definition two_first :: "Certificate list" where
  "two_first = first_round @ two_supporters @ one_supporter @ later_rounds"

lemma two_first_same: "set two_first = set one_first" "mset two_first = mset one_first"
  by (auto simp: two_first_def one_first_def)

lemma one_first_certified: "certified_dag short_hash sample_committee (set one_first)"
  unfolding certified_dag_def inj_on_def cert_key_eq by code_simp

lemma arrivals_causal: "causal short_hash (set one_first) one_first" "causal short_hash (set one_first) two_first"
proof -
  have "distinct one_first" "sorted (map cert_round one_first)" by code_simp+
  then show "causal short_hash (set one_first) one_first" by (rule causal_sorted)
  have "distinct two_first" "sorted (map cert_round two_first)" by code_simp+
  from causal_sorted[OF this] show "causal short_hash (set one_first) two_first" by (simp add: two_first_same)
qed

definition mp3_output :: "(Certificate list \<times> Round \<times> Mp3State) rust \<Rightarrow> (u8 \<times> Round) list option" where
  "mp3_output res = (case res of Inl _ \<Rightarrow> None | Inr (out, _, _) \<Rightarrow> Some (author_rounds out))"

lemma one_first_output:
  "mp3_output (mp3_run short_hash sample_committee 50 2 one_first) =
     Some [(1, 1), (3, 1), (2, 1), (0, 1), (2, 2), (3, 2)]"
  by code_simp

lemma two_first_output:
  "mp3_output (mp3_run short_hash sample_committee 50 2 two_first) =
     Some [(1, 1), (2, 1), (3, 1), (0, 1), (2, 2), (3, 2)]"
  by code_simp

end
