(* ===== verification/ConsensusProperties.thy ===== *)
theory ConsensusProperties
  imports ConsensusSamples
begin

text \<open>
  Properties of the two consensus protocols of Narwhal, with witnesses on sample runs.
\<close>

section \<open>Tusk\<close>

text \<open>
  C31. Tusk is safe up to the choice of leaders: two nodes that have received parts of one certified
  set of certificates, each with parents first, never panic, and the leaders that one has committed
  are a prefix of the leaders that the other has committed.
\<close>

theorem tusk_leaders_agree:
  assumes "stake_ok c" and "certified_dag sha512 c G" and "causal sha512 G cs" and "causal sha512 G cs'"
  shows "\<exists>ldrs out st ldrs' out' st'. tusk_run sha512 c gc cs = Inr (ldrs, out, st)
    \<and> tusk_run sha512 c gc' cs' = Inr (ldrs', out', st') \<and> (prefix ldrs ldrs' \<or> prefix ldrs' ldrs)"
proof -
  obtain ldrs out st where a: "tusk_run sha512 c gc cs = Inr (ldrs, out, st)"
    "leader_chain sha512 c G (last_committed_round st) ldrs" using tusk_certified[OF assms(1,2,3)] by blast
  obtain ldrs' out' st' where b: "tusk_run sha512 c gc' cs' = Inr (ldrs', out', st')"
    "leader_chain sha512 c G (last_committed_round st') ldrs'" using tusk_certified[OF assms(1,2,4)] by blast
  have "prefix ldrs ldrs' \<or> prefix ldrs' ldrs"
    using leader_chains_prefix[OF assms(1,2) a(2) b(2)] leader_chains_prefix[OF assms(1,2) b(2) a(2)] by linarith
  with a(1) b(1) show ?thesis by blast
qed

theorem tusk_leaders_agree_witness:
  "\<exists>ldrs out st ldrs' out' st'. tusk_run short_hash sample_committee 50 slow_arrival = Inr (ldrs, out, st)
    \<and> tusk_run short_hash sample_committee 50 round_arrival = Inr (ldrs', out', st') \<and> (prefix ldrs ldrs' \<or> prefix ldrs' ldrs)"
  by (rule tusk_leaders_agree[OF sample_stake slow_arrival_certified slow_arrival_causal round_arrival_facts(2)])

text \<open>
  C32. Tusk commits no certificate twice: in whatever order certificates arrive, parents first or
  not, as long as none arrives twice and no author has two in a round, the certificates that a run
  outputs are different received ones. A certificate that arrives again after its commit may be
  committed again.
\<close>

theorem tusk_commits_once:
  assumes "distinct (map fst (members c))" and "distinct (map cert_key (genesis c @ cs))"
    and "tusk_run sha512 c gc cs = Inr (ldrs, out, st)"
  shows "distinct (map cert_key out) \<and> set out \<subseteq> set cs"
  using tusk_base[OF assms] by (simp add: base_inv_def commit_inv_def)

theorem tusk_commits_once_witness:
  "\<exists>out. (\<exists>ldrs st. tusk_run short_hash sample_committee 50 slow_arrival = Inr (ldrs, out, st)) \<and> distinct (map cert_key out)"
proof -
  obtain ldrs out st where r: "tusk_run short_hash sample_committee 50 slow_arrival = Inr (ldrs, out, st)"
    using tusk_certified[OF sample_stake slow_arrival_certified slow_arrival_causal] by blast
  have d: "distinct (map fst (members sample_committee))" using sample_stake by (simp add: stake_ok_def)
  have "distinct (map cert_key (genesis sample_committee @ slow_arrival))"
    by code_simp
  from tusk_commits_once[OF d this r] r show ?thesis by blast
qed

text \<open>
  The order that Tusk outputs depends on the order of arrival: two nodes that receive the very
  same certificates, both with parents first, output different sequences. The node that receives
  \<open>slow_certs\<close> late commits two of them below the last committed round of their authors; the other
  node has dropped the same two and never commits them.
\<close>

theorem tusk_arrival_order_matters:
  "stake_ok sample_committee \<and> certified_dag short_hash sample_committee (set slow_arrival)
   \<and> mset round_arrival = mset slow_arrival
   \<and> causal short_hash (set slow_arrival) slow_arrival \<and> causal short_hash (set slow_arrival) round_arrival
   \<and> run_output (tusk_run short_hash sample_committee 50 slow_arrival) =
       Some [(2, 1), (1, 1), (0, 1), (2, 2), (3, 2), (0, 2), (3, 3), (1, 3), (0, 3), (0, 4),
             (3, 1), (1, 2), (2, 3), (2, 4), (1, 4), (3, 4), (2, 5), (1, 5), (0, 5), (2, 6)]
   \<and> run_output (tusk_run short_hash sample_committee 50 round_arrival) =
       Some [(2, 1), (1, 1), (0, 1), (2, 2), (3, 2), (0, 2), (3, 3), (1, 3), (0, 3), (0, 4),
             (2, 3), (2, 4), (1, 4), (3, 4), (2, 5), (1, 5), (0, 5), (2, 6)]"
  by (intro conjI sample_stake slow_arrival_certified slow_arrival_causal round_arrival_facts slow_arrival_output
      round_arrival_output)

text \<open>
  C33. The commit of a leader outputs its history: \<open>order_dag\<close> returns, each once and by rising
  round, exactly the certificates that lead from the leader over parents in the map that their
  authors have not committed, cut off at the depth of garbage collection.
\<close>

theorem order_dag_is_history:
  assumes "dag_wf sha512 (dag st)" and "dag_inj sha512 (dag st)"
  shows "set (order_dag gc x st) = {y. (search_step sha512 (dag st) (last_committed st))\<^sup>*\<^sup>* x y
      \<and> last_committed_round st \<le> cert_round y + gc}
    \<and> distinct (order_dag gc x st) \<and> sorted (map cert_round (order_dag gc x st))"
proof (intro conjI)
  show "set (order_dag gc x st) = {y. (search_step sha512 (dag st) (last_committed st))\<^sup>*\<^sup>* x y
      \<and> last_committed_round st \<le> cert_round y + gc}"
    unfolding order_dag_set dfs_reaches[OF assms] by blast
  show "distinct (order_dag gc x st)"
    unfolding order_dag_def distinct_sort by (rule distinct_filter[OF dfs_leader(2)[OF assms(1)]])
qed (simp only: order_dag_def sorted_sort_key)

theorem order_dag_is_history_witness:
  "\<exists>st :: State. dag st = dag_insert short_hash (sample_cert 0 1 [0, 1, 2]) (dag (state_new short_hash (genesis sample_committee)))
     \<and> sorted (map cert_round (order_dag 50 (sample_cert 1 2 [0]) st))
     \<and> sample_cert 0 1 [0, 1, 2] \<in> set (order_dag 50 (sample_cert 1 2 [0]) st)"
proof -
  let ?d = "dag (state_new short_hash (genesis sample_committee))" and ?x = "sample_cert 0 1 [0, 1, 2]" and ?y = "sample_cert 1 2 [0]"
  let ?st = "\<lparr>last_committed_round = 0, last_committed = [], dag = dag_insert short_hash ?x ?d\<rparr>"
  have new: "commit_inv short_hash (genesis sample_committee) (state_new short_hash (genesis sample_committee))"
    using sample_stake by (intro state_new_inv) (simp add: stake_ok_def)
  then have wf: "dag_wf short_hash (dag ?st)" by (simp add: commit_inv_def state_wf_def dag_insert_wf)
  have d: "distinct (map fst (members sample_committee))" using sample_stake by (simp add: stake_ok_def)
  have all: "z \<in> set (?x # genesis sample_committee)" if "in_dag short_hash (dag ?st) z" for z
  proof (cases "cert_round z = cert_round ?x \<and> origin z = origin ?x")
    case False
    then have "in_dag short_hash ?d z" using that by (simp add: entry_dag_insert split: if_splits)
    from state_new_inv(3)[OF d this] show ?thesis by simp
  qed (use that in \<open>simp add: entry_dag_insert\<close>)
  have "inj_on (cert_digest short_hash) (set (?x # genesis sample_committee))"
    unfolding inj_on_def by code_simp
  then have inj: "dag_inj short_hash (dag ?st)" unfolding dag_inj_def by (meson all inj_onD)
  have facts: "cert_round ?x = 1" "cert_round ?y = 2" "cert_digest short_hash ?x \<in> set (parents (header ?y))" by code_simp+
  have "search_step short_hash (dag ?st) (last_committed ?st) ?y ?x"
    unfolding search_step_def using facts by (simp add: entry_dag_insert)
  then have "?x \<in> set (order_dag 50 ?y ?st)"
    unfolding conjunct1[OF order_dag_is_history[OF wf inj, of 50 ?y]] by auto
  then show ?thesis using order_dag_is_history[OF wf inj, of 50 ?y] by (intro exI[of _ ?st]) simp
qed

section \<open>MP3-BFT++\<close>

text \<open>
  C34. MP3-BFT++ on the certificates of a certified set, received parents first: it never panics,
  outputs different received certificates, and waits with at most two prepared blocks, of rising
  rounds above the last committed one and of consecutive heights, the last of them just below the
  next height. So the branch that breaks the chain is never taken.
\<close>

theorem mp3_commits_once:
  assumes "stake_ok c" and "certified_dag sha512 c G" and "causal sha512 G cs"
  shows "\<exists>out lpr st. mp3_run sha512 c gc k cs = Inr (out, lpr, st)
    \<and> distinct (map cert_key out) \<and> set out \<subseteq> set cs \<and> length (prepared_chain st) \<le> 2
    \<and> sorted_wrt (<) (last_committed_round st # map block_round (prepared_chain st))
    \<and> map block_height (prepared_chain st) = map (\<lambda>i. next_height st - of_nat i) (rev [1..<Suc (length (prepared_chain st))])"
proof -
  obtain out lpr st where run: "mp3_run sha512 c gc k cs = Inr (out, lpr, st)" and inv: "mp3_inv sha512 c cs (out, lpr, st)"
    using mp3_run_ok[OF assms] by (metis prod_cases3)
  let ?ch = "prepared_chain st"
  have "map block_height ?ch = map (\<lambda>i. next_height st - of_nat i) (rev [1..<Suc (length ?ch)])"
  proof (rule nth_equalityI)
    fix i assume i: "i < length (map block_height ?ch)"
    then have "block_height (?ch ! i) + of_nat (length ?ch - i) = next_height st" using inv by (simp add: mp3_inv_def heights_ok_def)
    then show "map block_height ?ch ! i = map (\<lambda>i. next_height st - of_nat i) (rev [1..<Suc (length ?ch)]) ! i"
      using i by (simp add: rev_nth del: upt_Suc) (simp add: eq_diff_eq Suc_diff_Suc)
  qed (simp del: upt_Suc)
  then show ?thesis using run inv by (auto simp: mp3_inv_def base_inv_def commit_inv_def simp del: upt_Suc)
qed

theorem mp3_commits_once_witness:
  "\<exists>out lpr st. mp3_run short_hash sample_committee 50 2 one_first = Inr (out, lpr, st) \<and> distinct (map cert_key out)"
  using mp3_commits_once[OF sample_stake one_first_certified arrivals_causal(1), of 50 2] by blast

text \<open>
  The order that MP3-BFT++ outputs depends on the order of arrival: two nodes that receive the
  very same certificates by round, but the certificates of round two in different order, output
  different sequences. The leaders of a round are fixed by the first certificate that gives one of
  them enough support, and a leader whose support comes later is left out of the block.
\<close>

theorem mp3_arrival_order_matters:
  "stake_ok sample_committee \<and> certified_dag short_hash sample_committee (set one_first)
   \<and> mset two_first = mset one_first
   \<and> causal short_hash (set one_first) one_first \<and> causal short_hash (set one_first) two_first
   \<and> mp3_output (mp3_run short_hash sample_committee 50 2 one_first) =
       Some [(1, 1), (3, 1), (2, 1), (0, 1), (2, 2), (3, 2)]
   \<and> mp3_output (mp3_run short_hash sample_committee 50 2 two_first) =
       Some [(1, 1), (2, 1), (3, 1), (0, 1), (2, 2), (3, 2)]"
  by (intro conjI sample_stake one_first_certified arrivals_causal two_first_same(2) one_first_output two_first_output)

end
