(* ===== verification/PrimaryCore.thy ===== *)
theory PrimaryCore
  imports NarwhalTypes "HOL-Library.AList"
begin

text \<open>
  The core of a Narwhal primary: the aggregators (\<open>narwhal/primary/src/aggregators.rs\<close>), the
  synchronizer (\<open>synchronizer.rs\<close>), the handlers and the loop of the core (\<open>core.rs\<close>), the
  payload receiver (\<open>payload_receiver.rs\<close>), which writes to the same store, and the garbage
  collector (\<open>garbage_collector.rs\<close>), which publishes the round of the consensus.

  The key-value store (\<open>rocksdb\<close>), the codec (\<open>bincode\<close>), the hash and the signatures are not part
  of the repository: they are the functions of \<open>PrimaryEnv\<close>. Messages to other tasks and to the
  network are the outputs of a handler, in the order in which they are sent. A handler returns the
  new state also when it returns an error, since the source has changed it by then. A failed \<open>expect\<close>
  is the fault \<open>ExpectFailed\<close>, and a call of \<open>panic!\<close> is \<open>UnreachableReached\<close>. The sets and maps that
  a header carries are lists, in the order of their keys.
\<close>

section \<open>Aggregators\<close>

record VotesAggregator =
  va_weight :: Stake
  va_votes :: "(PublicKey \<times> Ed25519Signature) list"
  va_used :: "PublicKey set"

definition votes_aggregator_new :: VotesAggregator where
  "votes_aggregator_new = \<lparr>va_weight = 0, va_votes = [], va_used = {}\<rparr>"

definition votes_append ::
  "NarwhalCommittee \<Rightarrow> Header \<Rightarrow> Vote \<Rightarrow> VotesAggregator \<Rightarrow> Certificate option DagResult \<times> VotesAggregator" where
  "votes_append c h v ag =
     (if vote_author v \<in> va_used ag then (Inl (AuthorityReuse (vote_author v)), ag)
      else
        let votes = va_votes ag @ [(vote_author v, vote_signature v)];
            weight = va_weight ag + stake c (vote_author v);
            used = insert (vote_author v) (va_used ag)
        in if weight \<ge> stake_quorum c
           then (Inr (Some \<lparr>header = h, cert_votes = votes\<rparr>), \<lparr>va_weight = 0, va_votes = votes, va_used = used\<rparr>)
           else (Inr None, \<lparr>va_weight = weight, va_votes = votes, va_used = used\<rparr>))"

record CertificatesAggregator =
  ca_weight :: Stake
  ca_certificates :: "Digest list"
  ca_used :: "PublicKey set"

definition certificates_aggregator_new :: CertificatesAggregator where
  "certificates_aggregator_new = \<lparr>ca_weight = 0, ca_certificates = [], ca_used = {}\<rparr>"

definition certificates_append ::
  "(u8 list \<Rightarrow> u8 list) \<Rightarrow> NarwhalCommittee \<Rightarrow> Certificate \<Rightarrow> CertificatesAggregator
   \<Rightarrow> Digest list option \<times> CertificatesAggregator" where
  "certificates_append sha512 c x ag =
     (if origin x \<in> ca_used ag then (None, ag)
      else
        let certificates = ca_certificates ag @ [cert_digest sha512 x];
            weight = ca_weight ag + stake c (origin x);
            used = insert (origin x) (ca_used ag)
        in if weight \<ge> stake_quorum c
           then (Some certificates, \<lparr>ca_weight = 0, ca_certificates = [], ca_used = used\<rparr>)
           else (None, \<lparr>ca_weight = weight, ca_certificates = certificates, ca_used = used\<rparr>))"

section \<open>Messages and environment\<close>

datatype PrimaryMessage =
    MHeader Header
  | MVote Vote
  | MCertificate Certificate
  | MCertificatesRequest "Digest list" PublicKey

datatype PrimaryWorkerMessage =
    Synchronize "Digest list" PublicKey
  | Cleanup Round

datatype WaiterMessage =
    SyncBatches "(Digest \<times> u32) list" Header
  | SyncParents "Digest list" Header

datatype CoreOutput =
    SendPrimary SocketAddr PrimaryMessage
  | SendWorker SocketAddr PrimaryWorkerMessage
  | ToProposer "Digest list" Round
  | ToConsensus Certificate
  | ToHeaderWaiter WaiterMessage
  | ToCertificateWaiter Certificate

text \<open>What a primary is started with, and the libraries it calls.\<close>

record 'db PrimaryEnv =
  env_name :: PublicKey
  env_committee :: NarwhalCommittee
  env_gc_depth :: Round
  sha512_of :: "u8 list \<Rightarrow> u8 list"
  sign_of :: "Digest \<Rightarrow> Ed25519Signature"
  sig_valid :: sig_check
  batch_valid :: batch_check
  kv_get :: "u8 list \<Rightarrow> 'db \<Rightarrow> string + u8 list option"
  kv_put :: "u8 list \<Rightarrow> u8 list \<Rightarrow> 'db \<Rightarrow> 'db"
  enc_header :: "Header \<Rightarrow> u8 list"
  enc_cert :: "Certificate \<Rightarrow> u8 list"
  dec_cert :: "u8 list \<Rightarrow> string + Certificate"

definition genesis_digests :: "'db PrimaryEnv \<Rightarrow> (Digest \<times> Certificate) list" where
  "genesis_digests e = map (\<lambda>x. (cert_digest (sha512_of e) x, x)) (genesis (env_committee e))"

definition store_read :: "'db PrimaryEnv \<Rightarrow> u8 list \<Rightarrow> 'db \<Rightarrow> u8 list option DagResult" where
  "store_read e k db = (case kv_get e k db of Inl m \<Rightarrow> Inl (StoreError m) | Inr v \<Rightarrow> Inr v)"

definition payload_key :: "Digest \<times> u32 \<Rightarrow> u8 list" where
  "payload_key = (\<lambda>(digest, worker_id). digest @ to_le_bytes32 worker_id)"

section \<open>Synchronizer\<close>

fun missing_batches :: "'db PrimaryEnv \<Rightarrow> 'db \<Rightarrow> (Digest \<times> u32) list \<Rightarrow> (Digest \<times> u32) list DagResult" where
  "missing_batches e db [] = Inr []"
| "missing_batches e db (b # bs) =
     dbind (store_read e (payload_key b) db) (\<lambda>v.
     dbind (missing_batches e db bs) (\<lambda>missing. Inr (if v = None then b # missing else missing)))"

definition missing_payload :: "'db PrimaryEnv \<Rightarrow> Header \<Rightarrow> 'db \<Rightarrow> CoreOutput list \<times> bool DagResult" where
  "missing_payload e h db =
     (if author h = env_name e then ([], Inr False)
      else
        case missing_batches e db (payload h) of
          Inl err \<Rightarrow> ([], Inl err)
        | Inr missing \<Rightarrow>
            if missing = [] then ([], Inr False) else ([ToHeaderWaiter (SyncBatches missing h)], Inr True))"

text \<open>The parents found, with the digests missing.\<close>

fun collect_parents ::
  "'db PrimaryEnv \<Rightarrow> 'db \<Rightarrow> Digest list \<Rightarrow> (Certificate list \<times> Digest list) DagResult" where
  "collect_parents e db [] = Inr ([], [])"
| "collect_parents e db (p # ps) =
     (case find (\<lambda>(x, _). x = p) (genesis_digests e) of
        Some (_, g) \<Rightarrow> dbind (collect_parents e db ps) (\<lambda>(found, missing). Inr (g # found, missing))
      | None \<Rightarrow>
          dbind (store_read e p db) (\<lambda>v.
            case v of
              None \<Rightarrow> dbind (collect_parents e db ps) (\<lambda>(found, missing). Inr (found, p # missing))
            | Some bytes \<Rightarrow>
                (case dec_cert e bytes of
                   Inl m \<Rightarrow> Inl (SerializationError m)
                 | Inr x \<Rightarrow> dbind (collect_parents e db ps) (\<lambda>(found, missing). Inr (x # found, missing)))))"

definition get_parents :: "'db PrimaryEnv \<Rightarrow> Header \<Rightarrow> 'db \<Rightarrow> CoreOutput list \<times> Certificate list DagResult" where
  "get_parents e h db =
     (case collect_parents e db (parents h) of
        Inl err \<Rightarrow> ([], Inl err)
      | Inr (found, missing) \<Rightarrow>
          if missing = [] then ([], Inr found) else ([ToHeaderWaiter (SyncParents missing h)], Inr []))"

fun ancestors_stored :: "'db PrimaryEnv \<Rightarrow> 'db \<Rightarrow> Digest list \<Rightarrow> bool DagResult" where
  "ancestors_stored e db [] = Inr True"
| "ancestors_stored e db (p # ps) =
     (if p \<in> fst ` set (genesis_digests e) then ancestors_stored e db ps
      else dbind (store_read e p db) (\<lambda>v. if v = None then Inr False else ancestors_stored e db ps))"

definition deliver_certificate :: "'db PrimaryEnv \<Rightarrow> Certificate \<Rightarrow> 'db \<Rightarrow> CoreOutput list \<times> bool DagResult" where
  "deliver_certificate e x db =
     (case ancestors_stored e db (parents (header x)) of
        Inl err \<Rightarrow> ([], Inl err)
      | Inr b \<Rightarrow> (if b then [] else [ToCertificateWaiter x], Inr b))"

section \<open>State of the core\<close>

record 'db CoreState =
  core_db :: 'db
  gc_round :: Round
  last_voted :: "(Round \<times> PublicKey set) list"
  processing :: "(Round \<times> Digest set) list"
  current_header :: Header
  votes_aggregator :: VotesAggregator
  certificates_aggregators :: "(Round \<times> CertificatesAggregator) list"
  cancel_handlers :: "(Round \<times> (SocketAddr \<times> PrimaryMessage) list) list"

definition core_new :: "'db \<Rightarrow> 'db CoreState" where
  "core_new db =
     \<lparr>core_db = db, gc_round = 0, last_voted = [], processing = [], current_header = header_default,
      votes_aggregator = votes_aggregator_new, certificates_aggregators = [], cancel_handlers = []\<rparr>"

text \<open>Maps from rounds to sets: the entry of a round, and an insertion into it.\<close>

definition round_set :: "Round \<Rightarrow> (Round \<times> 'a set) list \<Rightarrow> 'a set" where
  "round_set r m = (case map_of m r of None \<Rightarrow> {} | Some xs \<Rightarrow> xs)"

definition round_insert :: "Round \<Rightarrow> 'a \<Rightarrow> (Round \<times> 'a set) list \<Rightarrow> (Round \<times> 'a set) list" where
  "round_insert r x m = AList.update r (insert x (round_set r m)) m"

definition add_handlers ::
  "Round \<Rightarrow> (SocketAddr \<times> PrimaryMessage) list \<Rightarrow> 'db CoreState \<Rightarrow> 'db CoreState" where
  "add_handlers r hs s =
     s\<lparr>cancel_handlers := AList.update r
        ((case map_of (cancel_handlers s) r of None \<Rightarrow> [] | Some old \<Rightarrow> old) @ hs) (cancel_handlers s)\<rparr>"

definition others_broadcast :: "'db PrimaryEnv \<Rightarrow> PrimaryMessage \<Rightarrow> (SocketAddr \<times> PrimaryMessage) list" where
  "others_broadcast e m =
     map (\<lambda>(_, a). (primary_to_primary a, m)) (others_primaries (env_committee e) (env_name e))"

definition sends :: "(SocketAddr \<times> PrimaryMessage) list \<Rightarrow> CoreOutput list" where
  "sends = map (\<lambda>(a, m). SendPrimary a m)"

type_synonym 'db core_result = "('db CoreState \<times> CoreOutput list \<times> unit DagResult) rust"

section \<open>Handlers\<close>

text \<open>The parents must be of the round before, and of a quorum.\<close>

fun parents_stake :: "NarwhalCommittee \<Rightarrow> Header \<Rightarrow> Certificate list \<Rightarrow> Stake \<Rightarrow> Stake DagResult" where
  "parents_stake c h [] s = Inr s"
| "parents_stake c h (x # xs) s =
     dbind (ensure (cert_round x + 1 = round h) (MalformedHeader (header_id h))) (\<lambda>_.
       parents_stake c h xs (s + stake c (origin x)))"

definition check_parents :: "NarwhalCommittee \<Rightarrow> Header \<Rightarrow> Certificate list \<Rightarrow> unit DagResult" where
  "check_parents c h ps =
     dbind (parents_stake c h ps 0) (\<lambda>s. ensure (s \<ge> stake_quorum c) (HeaderRequiresQuorum (header_id h)))"

text \<open>The checks before a header is stored: may its processing go on?\<close>

definition header_ready :: "'db PrimaryEnv \<Rightarrow> Header \<Rightarrow> 'db \<Rightarrow> CoreOutput list \<times> bool DagResult" where
  "header_ready e h db =
     (case get_parents e h db of
        (out, Inl err) \<Rightarrow> (out, Inl err)
      | (out, Inr []) \<Rightarrow> (out, Inr False)
      | (out, Inr ps) \<Rightarrow>
          (case check_parents (env_committee e) h ps of
             Inl err \<Rightarrow> (out, Inl err)
           | Inr _ \<Rightarrow>
               (case missing_payload e h db of
                  (out2, Inl err) \<Rightarrow> (out @ out2, Inl err)
                | (out2, Inr missing) \<Rightarrow> (out @ out2, Inr (\<not> missing)))))"

text \<open>What is done with a certificate once its header has been processed.\<close>

definition finish_certificate :: "'db PrimaryEnv \<Rightarrow> Certificate \<Rightarrow> 'db CoreState \<Rightarrow> 'db core_result" where
  "finish_certificate e x s =
     (case deliver_certificate e x (core_db s) of
        (out, Inl err) \<Rightarrow> Inr (s, out, Inl err)
      | (out, Inr False) \<Rightarrow> Inr (s, out, Inr ())
      | (out, Inr True) \<Rightarrow>
          let s1 = s\<lparr>core_db := kv_put e (cert_digest (sha512_of e) x) (enc_cert e x) (core_db s)\<rparr>;
              ag = (case map_of (certificates_aggregators s1) (cert_round x) of
                      None \<Rightarrow> certificates_aggregator_new | Some ag \<Rightarrow> ag);
              (quorum, ag1) = certificates_append (sha512_of e) (env_committee e) x ag;
              s2 = s1\<lparr>certificates_aggregators := AList.update (cert_round x) ag1 (certificates_aggregators s1)\<rparr>
          in Inr (s2, out @ (case quorum of None \<Rightarrow> [] | Some ps \<Rightarrow> [ToProposer ps (cert_round x)]) @ [ToConsensus x], Inr ()))"

fun prepend :: "CoreOutput list \<Rightarrow> 'db core_result \<Rightarrow> 'db core_result" where
  "prepend out (Inl f) = Inl f"
| "prepend out (Inr (s, out', r)) = Inr (s, out @ out', r)"

text \<open>\<open>expect\<close> on the result of a handler.\<close>

fun expect_ok :: "'db core_result \<Rightarrow> 'db core_result" where
  "expect_ok (Inl f) = Inl f"
| "expect_ok (Inr (s, out, Inl err)) = Inl ExpectFailed"
| "expect_ok (Inr (s, out, Inr u)) = Inr (s, out, Inr u)"

definition in_processing :: "Header \<Rightarrow> 'db CoreState \<Rightarrow> bool" where
  "in_processing h s \<longleftrightarrow> header_id h \<in> round_set (round h) (processing s)"

definition start_processing :: "Header \<Rightarrow> 'db CoreState \<Rightarrow> 'db CoreState" where
  "start_processing h s = s\<lparr>processing := round_insert (round h) (header_id h) (processing s)\<rparr>"

definition store_header :: "'db PrimaryEnv \<Rightarrow> Header \<Rightarrow> 'db CoreState \<Rightarrow> 'db CoreState" where
  "store_header e h s = s\<lparr>core_db := kv_put e (header_id h) (enc_header e h) (core_db s)\<rparr>"

definition record_vote :: "Header \<Rightarrow> 'db CoreState \<Rightarrow> 'db CoreState" where
  "record_vote h s = s\<lparr>last_voted := round_insert (round h) (author h) (last_voted s)\<rparr>"

function (sequential) process_header :: "'db PrimaryEnv \<Rightarrow> Header \<Rightarrow> 'db CoreState \<Rightarrow> 'db core_result"
  and process_vote :: "'db PrimaryEnv \<Rightarrow> Vote \<Rightarrow> 'db CoreState \<Rightarrow> 'db core_result"
  and process_certificate :: "'db PrimaryEnv \<Rightarrow> Certificate \<Rightarrow> 'db CoreState \<Rightarrow> 'db core_result"
where
  "process_header e h s =
     (let s1 = start_processing h s in
      case header_ready e h (core_db s1) of
        (out, Inl err) \<Rightarrow> Inr (s1, out, Inl err)
      | (out, Inr False) \<Rightarrow> Inr (s1, out, Inr ())
      | (out, Inr True) \<Rightarrow>
          let s2 = store_header e h s1 in
          if author h \<in> round_set (round h) (last_voted s2) then Inr (s2, out, Inr ())
          else
            let s3 = record_vote h s2;
                vote = vote_new (sha512_of e) (sign_of e) h (env_name e)
            in if vote_origin vote = env_name e then prepend out (expect_ok (process_vote e vote s3))
               else
                 case primary (env_committee e) (author h) of
                   Inl _ \<Rightarrow> Inl ExpectFailed
                 | Inr a \<Rightarrow>
                     let hs = [(primary_to_primary a, MVote vote)]
                     in Inr (add_handlers (round h) hs s3, out @ sends hs, Inr ()))"
| "process_vote e v s =
     (case votes_append (env_committee e) (current_header s) v (votes_aggregator s) of
        (Inl err, ag) \<Rightarrow> Inr (s\<lparr>votes_aggregator := ag\<rparr>, [], Inl err)
      | (Inr None, ag) \<Rightarrow> Inr (s\<lparr>votes_aggregator := ag\<rparr>, [], Inr ())
      | (Inr (Some x), ag) \<Rightarrow>
          let hs = others_broadcast e (MCertificate x);
              s1 = add_handlers (cert_round x) hs (s\<lparr>votes_aggregator := ag\<rparr>)
          in prepend (sends hs) (expect_ok (process_certificate e x s1)))"
| "process_certificate e x s =
     (case (if in_processing (header x) s then Inr (s, [], Inr ()) else process_header e (header x) s) of
        Inl f \<Rightarrow> Inl f
      | Inr (s1, out, Inl err) \<Rightarrow> Inr (s1, out, Inl err)
      | Inr (s1, out, Inr _) \<Rightarrow> prepend out (finish_certificate e x s1))"
  by pat_completeness auto

text \<open>
  The handlers call each other: a header yields our vote, the vote may complete a certificate, and
  the certificate processes its header again unless that has been started before. The certificate
  is always of the current header, so the circle is passed at most once.
\<close>

definition current_open :: "'db CoreState \<Rightarrow> nat" where
  "current_open s = (if in_processing (current_header s) s then 0 else 1)"

fun core_depth ::
  "('db PrimaryEnv \<times> Header \<times> 'db CoreState) + ('db PrimaryEnv \<times> Vote \<times> 'db CoreState) +
   ('db PrimaryEnv \<times> Certificate \<times> 'db CoreState) \<Rightarrow> nat" where
  "core_depth (Inl (e, h, s)) = 3 * current_open (start_processing h s) + 2"
| "core_depth (Inr (Inl (e, v, s))) = 3 * current_open s + 1"
| "core_depth (Inr (Inr (e, x, s))) = 3 * current_open s + (if header x = current_header s then 0 else 3)"

lemma round_set_insert [simp]:
  "round_set r (round_insert r' x m) = (if r = r' then insert x (round_set r' m) else round_set r m)"
  by (simp add: round_set_def round_insert_def update_conv')

lemma start_processing_simps [simp]:
  "core_db (start_processing h s) = core_db s"
  "gc_round (start_processing h s) = gc_round s"
  "last_voted (start_processing h s) = last_voted s"
  "current_header (start_processing h s) = current_header s"
  "votes_aggregator (start_processing h s) = votes_aggregator s"
  by (simp_all add: start_processing_def)

lemma store_header_simps [simp]:
  "core_db (store_header e h s) = kv_put e (header_id h) (enc_header e h) (core_db s)"
  "gc_round (store_header e h s) = gc_round s"
  "last_voted (store_header e h s) = last_voted s"
  "current_header (store_header e h s) = current_header s"
  "votes_aggregator (store_header e h s) = votes_aggregator s"
  "processing (store_header e h s) = processing s"
  by (simp_all add: store_header_def)

lemma record_vote_simps [simp]:
  "core_db (record_vote h s) = core_db s"
  "gc_round (record_vote h s) = gc_round s"
  "last_voted (record_vote h s) = round_insert (round h) (author h) (last_voted s)"
  "current_header (record_vote h s) = current_header s"
  "votes_aggregator (record_vote h s) = votes_aggregator s"
  "processing (record_vote h s) = processing s"
  by (simp_all add: record_vote_def)

lemma add_handlers_simps [simp]:
  "core_db (add_handlers r hs s) = core_db s"
  "gc_round (add_handlers r hs s) = gc_round s"
  "last_voted (add_handlers r hs s) = last_voted s"
  "current_header (add_handlers r hs s) = current_header s"
  "votes_aggregator (add_handlers r hs s) = votes_aggregator s"
  "processing (add_handlers r hs s) = processing s"
  by (simp_all add: add_handlers_def)

lemma current_open_cong:
  "\<lbrakk>current_header s = current_header s'; processing s = processing s'\<rbrakk> \<Longrightarrow> current_open s = current_open s'"
  by (simp add: current_open_def in_processing_def)

lemma current_open_start: "current_open (start_processing h s) \<le> current_open s"
  by (simp add: current_open_def in_processing_def start_processing_def)

lemma current_open_own: "\<not> in_processing (current_header s) s \<Longrightarrow> current_open s = 1"
  "current_open (start_processing (current_header s) s) = 0"
  by (simp_all add: current_open_def in_processing_def start_processing_def)

lemma votes_append_header:
  "votes_append c h v ag = (Inr (Some x), ag') \<Longrightarrow> header x = h"
  by (auto simp: votes_append_def Let_def split: if_splits)

lemma depth_vote:
  "core_depth (Inr (Inl (e, v, record_vote h (store_header e h (start_processing h s)))))
     < core_depth (Inl (e, h, s))"
  using current_open_cong [of "record_vote h (store_header e h (start_processing h s))" "start_processing h s"]
  by simp

lemma depth_certificate:
  assumes "votes_append c (current_header s) v ag0 = (Inr (Some x), ag)"
  shows "core_depth (Inr (Inr (e, x, add_handlers r hs (s\<lparr>votes_aggregator := ag\<rparr>))))
     < core_depth (Inr (Inl (e, v, s)))"
  using current_open_cong [of "add_handlers r hs (s\<lparr>votes_aggregator := ag\<rparr>)" s] votes_append_header [OF assms]
  by simp

lemma depth_header:
  assumes "\<not> in_processing (header x) s"
  shows "core_depth (Inl (e, header x, s)) < core_depth (Inr (Inr (e, x, s)))"
proof (cases "header x = current_header s")
  case True
  then have "current_open s = 1" "current_open (start_processing (header x) s) = 0"
    using assms current_open_own [of s] by simp_all
  then show ?thesis by simp
next
  case False
  then show ?thesis using current_open_start [of "header x" s] by simp
qed

termination process_header
  apply (relation "measure core_depth")
     apply simp
    apply (simp only: in_measure depth_vote)
   apply (metis in_measure depth_certificate)
  apply (simp only: in_measure)
  apply (erule depth_header)
  done

declare process_header.simps [simp del] process_vote.simps [simp del] process_certificate.simps [simp del]

definition process_own_header :: "'db PrimaryEnv \<Rightarrow> Header \<Rightarrow> 'db CoreState \<Rightarrow> 'db core_result" where
  "process_own_header e h s =
     (let hs = others_broadcast e (MHeader h);
          s1 = add_handlers (round h) hs (s\<lparr>current_header := h, votes_aggregator := votes_aggregator_new\<rparr>)
      in prepend (sends hs) (process_header e h s1))"

section \<open>Checks on what other primaries send\<close>

definition sanitize_header :: "'db PrimaryEnv \<Rightarrow> 'db CoreState \<Rightarrow> Header \<Rightarrow> unit DagResult" where
  "sanitize_header e s h =
     dbind (ensure (gc_round s \<le> round h) (TooOld (header_id h) (round h))) (\<lambda>_.
       header_verify (sha512_of e) (sig_valid e) (env_committee e) h)"

definition sanitize_vote :: "'db PrimaryEnv \<Rightarrow> 'db CoreState \<Rightarrow> Vote \<Rightarrow> unit DagResult" where
  "sanitize_vote e s v =
     dbind (ensure (round (current_header s) \<le> vote_round v) (TooOld (vote_digest (sha512_of e) v) (vote_round v))) (\<lambda>_.
     dbind (ensure (vote_id v = header_id (current_header s) \<and> vote_origin v = author (current_header s) \<and>
              vote_round v = round (current_header s)) (UnexpectedVote (vote_id v))) (\<lambda>_.
       vote_verify (sha512_of e) (sig_valid e) (env_committee e) v))"

definition sanitize_certificate :: "'db PrimaryEnv \<Rightarrow> 'db CoreState \<Rightarrow> Certificate \<Rightarrow> unit DagResult" where
  "sanitize_certificate e s x =
     dbind (ensure (gc_round s \<le> cert_round x) (TooOld (cert_digest (sha512_of e) x) (cert_round x))) (\<lambda>_.
       cert_verify (sha512_of e) (sig_valid e) (batch_valid e) (env_committee e) x)"

section \<open>The loop\<close>

datatype CoreInput =
    FromPrimaries PrimaryMessage
  | FromHeaderWaiter Header
  | FromCertificateWaiter Certificate
  | FromProposer Header

definition if_sane :: "unit DagResult \<Rightarrow> 'db CoreState \<Rightarrow> 'db core_result \<Rightarrow> 'db core_result" where
  "if_sane check s r = (case check of Inl err \<Rightarrow> Inr (s, [], Inl err) | Inr _ \<Rightarrow> r)"

fun core_handle :: "'db PrimaryEnv \<Rightarrow> CoreInput \<Rightarrow> 'db CoreState \<Rightarrow> 'db core_result" where
  "core_handle e (FromPrimaries (MHeader h)) s = if_sane (sanitize_header e s h) s (process_header e h s)"
| "core_handle e (FromPrimaries (MVote v)) s = if_sane (sanitize_vote e s v) s (process_vote e v s)"
| "core_handle e (FromPrimaries (MCertificate x)) s =
     if_sane (sanitize_certificate e s x) s (process_certificate e x s)"
| "core_handle e (FromPrimaries (MCertificatesRequest ds k)) s = Inl UnreachableReached"
| "core_handle e (FromHeaderWaiter h) s = process_header e h s"
| "core_handle e (FromCertificateWaiter x) s = process_certificate e x s"
| "core_handle e (FromProposer h) s = process_own_header e h s"

definition retain_rounds :: "Round \<Rightarrow> (Round \<times> 'a) list \<Rightarrow> (Round \<times> 'a) list" where
  "retain_rounds r m = filter (\<lambda>(k, _). r \<le> k) m"

definition core_cleanup :: "'db PrimaryEnv \<Rightarrow> Round \<Rightarrow> 'db CoreState \<Rightarrow> 'db CoreState" where
  "core_cleanup e r s =
     (if r > env_gc_depth e then
        let g = r - env_gc_depth e
        in s\<lparr>last_voted := retain_rounds g (last_voted s), processing := retain_rounds g (processing s),
             certificates_aggregators := retain_rounds g (certificates_aggregators s),
             cancel_handlers := retain_rounds g (cancel_handlers s), gc_round := g\<rparr>
      else s)"

text \<open>One round of the loop: a message, and the round that the consensus has reached by then.\<close>

definition core_step ::
  "'db PrimaryEnv \<Rightarrow> CoreInput \<times> Round \<Rightarrow> 'db CoreState \<Rightarrow> ('db CoreState \<times> CoreOutput list) rust" where
  "core_step e = (\<lambda>(i, r) s.
     case core_handle e i s of
       Inl f \<Rightarrow> Inl f
     | Inr (s1, out, Inl (StoreError m)) \<Rightarrow> Inl UnreachableReached
     | Inr (s1, out, _) \<Rightarrow> Inr (core_cleanup e r s1, out))"

section \<open>The tasks beside the core\<close>

text \<open>The payload receiver writes that a batch is available at one of our workers.\<close>

definition payload_receiver_step :: "'db PrimaryEnv \<Rightarrow> Digest \<times> u32 \<Rightarrow> 'db \<Rightarrow> 'db" where
  "payload_receiver_step e b db = kv_put e (payload_key b) [] db"

text \<open>
  The garbage collector receives the certificates that the consensus has ordered and publishes the
  round reached, which the core reads after every message.
\<close>

record 'db Primary =
  core :: "'db CoreState"
  consensus_round :: Round
  gc_last_committed :: Round
  gc_addresses :: "SocketAddr list"

definition primary_new :: "'db PrimaryEnv \<Rightarrow> 'db \<Rightarrow> 'db Primary rust" where
  "primary_new e db =
     (case our_workers (env_committee e) (env_name e) of
        Inl _ \<Rightarrow> Inl ExpectFailed
      | Inr ws \<Rightarrow>
          Inr \<lparr>core = core_new db, consensus_round = 0, gc_last_committed = 0,
               gc_addresses = map primary_to_worker ws\<rparr>)"

definition garbage_collector_step :: "Certificate \<Rightarrow> 'db Primary \<Rightarrow> 'db Primary \<times> CoreOutput list" where
  "garbage_collector_step x p =
     (let r = cert_round x in
      if r > gc_last_committed p
      then (p\<lparr>gc_last_committed := r, consensus_round := r\<rparr>, map (\<lambda>a. SendWorker a (Cleanup r)) (gc_addresses p))
      else (p, []))"

text \<open>The tasks of a primary that share its store and the consensus round, interleaved.\<close>

datatype PrimaryEvent =
    CoreEvent CoreInput
  | PayloadEvent Digest u32
  | CommittedEvent Certificate

fun primary_step :: "'db PrimaryEnv \<Rightarrow> PrimaryEvent \<Rightarrow> 'db Primary \<Rightarrow> ('db Primary \<times> CoreOutput list) rust" where
  "primary_step e (CoreEvent i) p =
     rbind (core_step e (i, consensus_round p) (core p)) (\<lambda>(s, out). Inr (p\<lparr>core := s\<rparr>, out))"
| "primary_step e (PayloadEvent d w) p =
     Inr (p\<lparr>core := (core p)\<lparr>core_db := payload_receiver_step e (d, w) (core_db (core p))\<rparr>\<rparr>, [])"
| "primary_step e (CommittedEvent x) p = Inr (garbage_collector_step x p)"

fun primary_run ::
  "'db PrimaryEnv \<Rightarrow> PrimaryEvent list \<Rightarrow> 'db Primary \<Rightarrow> ('db Primary \<times> CoreOutput list) rust" where
  "primary_run e [] p = Inr (p, [])"
| "primary_run e (ev # evs) p =
     rbind (primary_step e ev p) (\<lambda>(p1, out).
     rbind (primary_run e evs p1) (\<lambda>(p2, out2). Inr (p2, out @ out2)))"

end
