(* ===== verification/PrimaryInv.thy ===== *)
theory PrimaryInv
  imports PrimaryCore
begin

text \<open>
  Invariants of the core of a primary. The three handlers call each other, so that an invariant is
  a relation between the state before, the outputs and the state after; the locale
  \<open>handler_relation\<close> says which primitive changes it must allow and shows that every handler is
  in the relation. It is used twice: for the votes that a primary sends, and for the certificates
  that it hands to the consensus.
\<close>

section \<open>Relations kept by the handlers\<close>

locale handler_relation =
  fixes e :: "'db PrimaryEnv"
    and R :: "'db CoreState \<Rightarrow> CoreOutput list \<Rightarrow> 'db CoreState \<Rightarrow> bool"
    and known :: "Header \<Rightarrow> bool"
  assumes rel_refl: "R s [] s"
    and rel_trans: "\<lbrakk>R s out s1; R s1 out' s2\<rbrakk> \<Longrightarrow> R s (out @ out') s2"
    and rel_current: "R s out s' \<Longrightarrow> current_header s' = current_header s"
    and rel_start: "R s [] (start_processing h s)"
    and rel_aggregator: "R s [] (s\<lparr>votes_aggregator := ag\<rparr>)"
    and rel_broadcast: "R s (sends (others_broadcast e (MCertificate x))) (add_handlers r hs s)"
    and rel_ready: "header_ready e h db = (out, res) \<Longrightarrow> R s out s"
    and rel_store: "\<lbrakk>known h; header_ready e h (core_db s) = (out, Inr True)\<rbrakk> \<Longrightarrow> R s [] (store_header e h s)"
    and rel_own_vote: "R s [] (record_vote h s)"
    and rel_vote: "author h \<notin> round_set (round h) (last_voted s) \<Longrightarrow>
      R s (sends [(a, MVote (vote_new (sha512_of e) (sign_of e) h (env_name e)))])
        (add_handlers r hs (record_vote h s))"
    and rel_finish: "\<lbrakk>known (header x); finish_certificate e x s = Inr (s', out, outcome)\<rbrakk> \<Longrightarrow> R s out s'"
begin

lemma rel_prepend:
  assumes "prepend out r = Inr (s', out', res)" "R s out s1"
    and "\<And>out2. r = Inr (s', out2, res) \<Longrightarrow> R s1 out2 s'"
  shows "R s out' s'"
  using assms rel_trans by (cases r) auto

lemma expect_ok_Inr: "expect_ok r = Inr (s', out, res) \<Longrightarrow> r = Inr (s', out, res)"
  by (cases r rule: expect_ok.cases) auto

lemma handlers_related:
  "\<lbrakk>process_header e' h s = Inr (s', out, res); e' = e; known h; known (current_header s)\<rbrakk> \<Longrightarrow> R s out s'"
  "\<lbrakk>process_vote e' v s = Inr (s', out, res); e' = e; known (current_header s)\<rbrakk> \<Longrightarrow> R s out s'"
  "\<lbrakk>process_certificate e' x s = Inr (s', out, res); e' = e; known (header x); known (current_header s)\<rbrakk>
     \<Longrightarrow> R s out s'"
proof (induction e' h s and e' v s and e' x s arbitrary: s' out res and s' out res and s' out res
    rule: process_header_process_vote_process_certificate.induct)
  case (1 e' h s)
  define s1 where "s1 = start_processing h s"
  define s2 where "s2 = store_header e' h s1"
  define s3 where "s3 = record_vote h s2"
  define vote where "vote = vote_new (sha512_of e') (sign_of e') h (env_name e')"
  obtain o1 ready where ready: "header_ready e' h (core_db s1) = (o1, ready)" by fastforce
  have R1: "R s o1 s1"
    using rel_trans [OF rel_start rel_ready] ready "1.prems"(2) unfolding s1_def by simp
  consider (err) err where "ready = Inl err" | (wait) "ready = Inr False" | (go) "ready = Inr True"
    by (cases ready) auto
  then show ?case
  proof cases
    case err
    then show ?thesis using "1.prems"(1) ready R1 by (simp add: s1_def process_header.simps)
  next
    case wait
    then show ?thesis using "1.prems"(1) ready R1 by (simp add: s1_def process_header.simps)
  next
    case go
    have R2: "R s o1 s2"
      using rel_trans [OF R1 rel_store [of h s1]] go ready "1.prems"(2,3) by (simp add: s2_def)
    have R3: "R s o1 s3" using rel_trans [OF R2 rel_own_vote [of s2 h]] by (simp add: s3_def)
    have known3: "known (current_header s3)" using rel_current [OF R3] "1.prems"(4) by simp
    show ?thesis
    proof (cases "author h \<in> round_set (round h) (last_voted s2)")
      case True
      then show ?thesis using "1.prems"(1) ready go R2 by (simp add: s1_def s2_def process_header.simps)
    next
      case False
      show ?thesis
      proof (cases "vote_origin vote = env_name e'")
        case True
        have res: "prepend o1 (expect_ok (process_vote e' vote s3)) = Inr (s', out, res)"
          using "1.prems"(1) ready go False True by (simp add: s1_def s2_def s3_def vote_def process_header.simps)
        have "R s3 out2 s'" if "process_vote e' vote s3 = Inr (s', out2, res)" for out2
          using "1.IH" [OF s1_def ready [symmetric] go _ s2_def] ready go False True that "1.prems"(2) known3
          by (auto simp: s1_def s2_def s3_def vote_def)
        then show ?thesis using rel_prepend [OF res R3] expect_ok_Inr by blast
      next
        case other: False
        obtain a where "primary (env_committee e') (author h) = Inr a"
          and eq: "s' = add_handlers (round h) [(primary_to_primary a, MVote vote)] s3"
            "out = o1 @ sends [(primary_to_primary a, MVote vote)]"
          using "1.prems"(1) ready go False other
          by (simp add: s1_def s2_def s3_def vote_def Let_def process_header.simps split: sum.splits)
        show ?thesis
          using rel_trans [OF R2 rel_vote [OF False]] unfolding eq s3_def vote_def "1.prems"(2) by blast
      qed
    qed
  qed
next
  case (2 e' v s)
  obtain r ag where app: "votes_append (env_committee e') (current_header s) v (votes_aggregator s) = (r, ag)"
    by fastforce
  consider (err) err where "r = Inl err" | (none) "r = Inr None" | (cert) x where "r = Inr (Some x)"
    by (cases r) auto
  then show ?case
  proof cases
    case err
    then show ?thesis using "2.prems"(1) app rel_aggregator by (auto simp: process_vote.simps)
  next
    case none
    then show ?thesis using "2.prems"(1) app rel_aggregator by (auto simp: process_vote.simps)
  next
    case (cert x)
    define hs where "hs = others_broadcast e' (MCertificate x)"
    define s1 where "s1 = add_handlers (cert_round x) hs (s\<lparr>votes_aggregator := ag\<rparr>)"
    have res: "prepend (sends hs) (expect_ok (process_certificate e' x s1)) = Inr (s', out, res)"
      using "2.prems"(1) app cert by (simp add: s1_def hs_def process_vote.simps Let_def)
    have R1: "R s (sends hs) s1"
      using rel_trans [OF rel_aggregator rel_broadcast] unfolding s1_def hs_def "2.prems"(2) by simp
    have "known (header x)" "known (current_header s1)"
      using votes_append_header app cert "2.prems"(3) rel_current [OF R1] by auto
    then have "R s1 out2 s'" if "process_certificate e' x s1 = Inr (s', out2, res)" for out2
      using "2.IH" [OF app [symmetric] cert refl hs_def s1_def that "2.prems"(2)] by blast
    then show ?thesis using rel_prepend [OF res R1] expect_ok_Inr by blast
  qed
next
  case (3 e' x s)
  define r where "r = (if in_processing (header x) s then Inr (s, [], Inr ()) else process_header e' (header x) s)"
  have res: "(case r of Inl f \<Rightarrow> Inl f | Inr (s1, out, Inl err) \<Rightarrow> Inr (s1, out, Inl err)
      | Inr (s1, out, Inr _) \<Rightarrow> prepend out (finish_certificate e' x s1)) = Inr (s', out, res)"
    using "3.prems"(1) by (simp add: r_def process_certificate.simps)
  obtain s1 o1 r1 where r: "r = Inr (s1, o1, r1)" using res by (cases r) auto
  have R1: "R s o1 s1"
  proof (cases "in_processing (header x) s")
    case True
    then show ?thesis using r rel_refl by (simp add: r_def)
  next
    case False
    then show ?thesis using "3.IH" r "3.prems" by (simp add: r_def)
  qed
  show ?case
  proof (cases r1)
    case (Inl err)
    then show ?thesis using res r R1 by simp
  next
    case (Inr u)
    then have "prepend o1 (finish_certificate e' x s1) = Inr (s', out, res)" using res r by simp
    then show ?thesis using rel_prepend [OF _ R1] rel_finish "3.prems"(2,3) by blast
  qed
qed

end

section \<open>A round of the loop\<close>

text \<open>The headers that a message carries.\<close>

fun input_headers :: "CoreInput \<Rightarrow> Header list" where
  "input_headers (FromPrimaries (MHeader h)) = [h]"
| "input_headers (FromPrimaries (MCertificate x)) = [header x]"
| "input_headers (FromPrimaries _) = []"
| "input_headers (FromHeaderWaiter h) = [h]"
| "input_headers (FromCertificateWaiter x) = [header x]"
| "input_headers (FromProposer h) = [h]"

definition adopt_header :: "'db PrimaryEnv \<Rightarrow> Header \<Rightarrow> 'db CoreState \<Rightarrow> 'db CoreState" where
  "adopt_header e h s = add_handlers (round h) (others_broadcast e (MHeader h))
     (s\<lparr>current_header := h, votes_aggregator := votes_aggregator_new\<rparr>)"

lemma adopt_header_simps [simp]:
  "core_db (adopt_header e h s) = core_db s"
  "gc_round (adopt_header e h s) = gc_round s"
  "last_voted (adopt_header e h s) = last_voted s"
  "current_header (adopt_header e h s) = h"
  by (simp_all add: adopt_header_def)

lemma if_sane_cases:
  assumes "if_sane check s r = Inr (s', out, res)"
  obtains "s' = s" "out = []" | "r = Inr (s', out, res)"
  using assms by (cases check) (simp_all add: if_sane_def)

lemma own_header_cases:
  assumes "process_own_header e h s = Inr (s', out, res)"
  obtains out2 where "process_header e h (adopt_header e h s) = Inr (s', out2, res)"
    "out = sends (others_broadcast e (MHeader h)) @ out2"
  using assms by (cases "process_header e h (adopt_header e h s)")
    (auto simp: process_own_header_def adopt_header_def Let_def)

lemma core_handle_cases:
  assumes "core_handle e i s = Inr (s', out, res)"
  obtains (refused) "s' = s" "out = []"
  | (headers) h where "input_headers i = [h]" "process_header e h s = Inr (s', out, res)"
  | (votes) v where "process_vote e v s = Inr (s', out, res)"
  | (certificate) x where "input_headers i = [header x]" "process_certificate e x s = Inr (s', out, res)"
  | (own) h out2 where "i = FromProposer h" "process_header e h (adopt_header e h s) = Inr (s', out2, res)"
      "out = sends (others_broadcast e (MHeader h)) @ out2"
proof (cases i)
  case (FromPrimaries m)
  show ?thesis
  proof (cases m)
    case (MHeader h)
    then have "if_sane (sanitize_header e s h) s (process_header e h s) = Inr (s', out, res)"
      using assms FromPrimaries by simp
    then show ?thesis by (rule if_sane_cases) (use refused headers FromPrimaries MHeader in simp_all)
  next
    case (MVote v)
    then have "if_sane (sanitize_vote e s v) s (process_vote e v s) = Inr (s', out, res)"
      using assms FromPrimaries by simp
    then show ?thesis by (rule if_sane_cases) (use refused votes in simp_all)
  next
    case (MCertificate x)
    then have "if_sane (sanitize_certificate e s x) s (process_certificate e x s) = Inr (s', out, res)"
      using assms FromPrimaries by simp
    then show ?thesis by (rule if_sane_cases) (use refused certificate FromPrimaries MCertificate in simp_all)
  next
    case (MCertificatesRequest ds k)
    then show ?thesis using assms FromPrimaries by simp
  qed
next
  case (FromHeaderWaiter h)
  then show ?thesis using assms headers by simp
next
  case (FromCertificateWaiter x)
  then show ?thesis using assms certificate by simp
next
  case (FromProposer h)
  then have "process_own_header e h s = Inr (s', out, res)" using assms by simp
  then show ?thesis by (rule own_header_cases) (rule own [OF FromProposer])
qed

lemma core_step_Inr:
  assumes "core_step e (i, r) s = Inr (s', out)"
  obtains s1 res where "core_handle e i s = Inr (s1, out, res)" "s' = core_cleanup e r s1"
  using assms by (auto simp: core_step_def split: sum.splits prod.splits DagError.splits)

section \<open>Votes\<close>

definition votes_sent :: "CoreOutput list \<Rightarrow> Vote list" where
  "votes_sent out = concat (map (\<lambda>x. case x of SendPrimary a (MVote v) \<Rightarrow> [v] | _ \<Rightarrow> []) out)"

definition vote_slot :: "Vote \<Rightarrow> Round \<times> PublicKey" where
  "vote_slot v = (vote_round v, vote_origin v)"

definition voted :: "'db CoreState \<Rightarrow> (Round \<times> PublicKey) set" where
  "voted s = {(r, k). k \<in> round_set r (last_voted s)}"

definition vote_signed :: "'db PrimaryEnv \<Rightarrow> Vote \<Rightarrow> bool" where
  "vote_signed e v \<longleftrightarrow> vote_author v = env_name e \<and>
     vote_signature v = sign_of e (vote_digest (sha512_of e) (v\<lparr>vote_signature := signature_default\<rparr>))"

definition votes_fresh :: "'db PrimaryEnv \<Rightarrow> 'db CoreState \<Rightarrow> CoreOutput list \<Rightarrow> 'db CoreState \<Rightarrow> bool" where
  "votes_fresh e s out s' \<longleftrightarrow>
     gc_round s' = gc_round s \<and> voted s \<subseteq> voted s' \<and>
     vote_slot ` set (votes_sent out) \<subseteq> voted s' - voted s \<and> distinct (map vote_slot (votes_sent out)) \<and>
     list_all (vote_signed e) (votes_sent out)"

definition vote_rel :: "'db PrimaryEnv \<Rightarrow> 'db CoreState \<Rightarrow> CoreOutput list \<Rightarrow> 'db CoreState \<Rightarrow> bool" where
  "vote_rel e s out s' \<longleftrightarrow> current_header s' = current_header s \<and> votes_fresh e s out s'"

lemma votes_sent_simps [simp]:
  "votes_sent [] = []"
  "votes_sent (SendPrimary a (MVote v) # out) = v # votes_sent out"
  "votes_sent (SendPrimary a (MHeader h) # out) = votes_sent out"
  "votes_sent (SendPrimary a (MCertificate x) # out) = votes_sent out"
  "votes_sent (SendWorker a w # out) = votes_sent out"
  "votes_sent (ToProposer ps r # out) = votes_sent out"
  "votes_sent (ToConsensus x # out) = votes_sent out"
  "votes_sent (ToHeaderWaiter m # out) = votes_sent out"
  "votes_sent (ToCertificateWaiter x # out) = votes_sent out"
  "votes_sent (out @ out') = votes_sent out @ votes_sent out'"
  by (simp_all add: votes_sent_def)

lemma vote_relI:
  assumes "current_header s' = current_header s" "gc_round s' = gc_round s" "last_voted s' = last_voted s"
    and "votes_sent out = []"
  shows "vote_rel e s out s'"
  using assms by (simp add: vote_rel_def votes_fresh_def voted_def)

lemma vote_rel_trans:
  assumes "vote_rel e s out s1" "vote_rel e s1 out' s2"
  shows "vote_rel e s (out @ out') s2"
proof -
  have "vote_slot ` set (votes_sent out) \<inter> vote_slot ` set (votes_sent out') = {}"
    using assms unfolding vote_rel_def votes_fresh_def by blast
  moreover have "vote_slot ` set (votes_sent out) \<union> vote_slot ` set (votes_sent out') \<subseteq> voted s2 - voted s"
    using assms unfolding vote_rel_def votes_fresh_def by blast
  ultimately show ?thesis
    using assms unfolding vote_rel_def votes_fresh_def by (auto simp: image_Un)
qed

lemma broadcast_silent:
  "votes_sent (sends (others_broadcast e (MCertificate x))) = []"
  "votes_sent (sends (others_broadcast e (MHeader h))) = []"
  by (auto simp: votes_sent_def sends_def others_broadcast_def)

lemma header_ready_out:
  "header_ready e h db = (out, res) \<Longrightarrow> set out \<subseteq> range ToHeaderWaiter"
  by (auto simp: header_ready_def get_parents_def missing_payload_def
      split: prod.splits sum.splits list.splits if_splits)

lemma silent_out: "set out \<subseteq> range ToHeaderWaiter \<Longrightarrow> votes_sent out = []"
  by (induction out) auto

lemma deliver_out:
  "deliver_certificate e x db = (out, Inr True) \<Longrightarrow> out = []"
  "deliver_certificate e x db = (out, res) \<Longrightarrow> out = [] \<or> out = [ToCertificateWaiter x]"
  by (auto simp: deliver_certificate_def split: sum.splits if_splits)

text \<open>The ways in which a certificate is finished.\<close>

lemma finish_cases:
  assumes "finish_certificate e x s = Inr (s', out, res)"
  obtains (waiting) "s' = s" "out = [] \<or> out = [ToCertificateWaiter x]"
  | (delivered) ags notice where "deliver_certificate e x (core_db s) = ([], Inr True)"
      "s' = s\<lparr>core_db := kv_put e (cert_digest (sha512_of e) x) (enc_cert e x) (core_db s),
              certificates_aggregators := ags\<rparr>"
      "out = notice @ [ToConsensus x]" "notice = [] \<or> (\<exists>ps. notice = [ToProposer ps (cert_round x)])"
proof -
  obtain o1 r1 where d: "deliver_certificate e x (core_db s) = (o1, r1)" by (rule prod.exhaust)
  show ?thesis
  proof (cases "r1 = Inr True")
    case True
    then have o1: "o1 = []" using d deliver_out(1) [of e x "core_db s" o1] by simp
    obtain q ag where q: "certificates_append (sha512_of e) (env_committee e) x
        (case map_of (certificates_aggregators s) (cert_round x) of
           None \<Rightarrow> certificates_aggregator_new | Some ag \<Rightarrow> ag) = (q, ag)" by (rule prod.exhaust)
    define notice where "notice = (case q of None \<Rightarrow> [] | Some ps \<Rightarrow> [ToProposer ps (cert_round x)])"
    have *: "s' = s\<lparr>core_db := kv_put e (cert_digest (sha512_of e) x) (enc_cert e x) (core_db s),
        certificates_aggregators := AList.update (cert_round x) ag (certificates_aggregators s)\<rparr>"
      "out = notice @ [ToConsensus x]"
      using assms True d o1 q by (simp_all add: finish_certificate_def notice_def)
    have "deliver_certificate e x (core_db s) = ([], Inr True)" using True d o1 by simp
    moreover have "notice = [] \<or> (\<exists>ps. notice = [ToProposer ps (cert_round x)])"
      by (simp add: notice_def split: option.splits)
    ultimately show ?thesis using delivered * by metis
  next
    case False
    then have "s' = s \<and> out = o1"
      using assms d by (cases r1) (auto simp: finish_certificate_def split: bool.splits)
    then show ?thesis using deliver_out(2) [OF d] waiting by simp
  qed
qed

lemma vote_new_simps [simp]:
  "vote_round (vote_new sha sg h name) = round h"
  "vote_origin (vote_new sha sg h name) = author h"
  "vote_author (vote_new sha sg h name) = name"
  "vote_id (vote_new sha sg h name) = header_id h"
  by (simp_all add: vote_new_def Let_def)

lemma vote_new_signed: "vote_signed e (vote_new (sha512_of e) (sign_of e) h (env_name e))"
  by (simp add: vote_signed_def vote_new_def Let_def)

lemma voted_record: "voted (record_vote h s) = insert (round h, author h) (voted s)"
  by (auto simp: voted_def split: if_splits)

lemma vote_rel_vote:
  assumes "author h \<notin> round_set (round h) (last_voted s)"
  shows "vote_rel e s (sends [(a, MVote (vote_new (sha512_of e) (sign_of e) h (env_name e)))])
    (add_handlers r hs (record_vote h s))"
proof -
  have "voted (add_handlers r hs (record_vote h s)) = insert (round h, author h) (voted s)"
    using voted_record [of h s] by (simp add: voted_def)
  then show ?thesis
    using assms vote_new_signed [of e h] by (auto simp: vote_rel_def votes_fresh_def sends_def vote_slot_def voted_def)
qed

lemma vote_rel_finish:
  assumes "finish_certificate e x s = Inr (s', out, res)"
  shows "vote_rel e s out s'"
  using assms by (rule finish_cases) (auto intro!: vote_relI)

lemma vote_rel_record: "vote_rel e s [] (record_vote h s)"
proof -
  have "voted s \<subseteq> voted (record_vote h s)" by (auto simp: voted_record)
  then show ?thesis by (simp add: vote_rel_def votes_fresh_def)
qed

interpretation votes: handler_relation e "vote_rel e" "\<lambda>_. True" for e :: "'db PrimaryEnv"
proof (unfold_locales, goal_cases)
  case (2 s out s1 out' s2)
  then show ?case by (rule vote_rel_trans)
next
  case (7 h db out res s)
  then show ?case by (simp add: vote_relI silent_out [OF header_ready_out])
next
  case (3 s out s')
  then show ?case by (simp add: vote_rel_def)
next
  case (9 s h)
  then show ?case by (rule vote_rel_record)
next
  case (10 h s a r hs)
  then show ?case by (rule vote_rel_vote)
next
  case (11 x s s' out res)
  then show ?case by (auto intro: vote_rel_finish)
qed (simp_all add: vote_relI broadcast_silent)


section \<open>Votes in the runs of a primary\<close>

lemma core_handle_votes:
  assumes "core_handle e i s = Inr (s', out, res)"
  shows "votes_fresh e s out s'"
  using assms
proof (cases rule: core_handle_cases)
  case refused
  then show ?thesis using vote_relI [of s s "[]" e] by (simp add: vote_rel_def)
next
  case (headers h)
  then show ?thesis using votes.handlers_related(1) [OF headers(2) refl] by (simp add: vote_rel_def)
next
  case (votes v)
  then show ?thesis using votes.handlers_related(2) [OF votes refl] by (simp add: vote_rel_def)
next
  case (certificate x)
  then show ?thesis using votes.handlers_related(3) [OF certificate(2) refl] by (simp add: vote_rel_def)
next
  case (own h out2)
  have "votes_fresh e (adopt_header e h s) out2 s'"
    using votes.handlers_related(1) [OF own(2) refl] by (simp add: vote_rel_def)
  then show ?thesis using own(3) by (simp add: votes_fresh_def voted_def broadcast_silent)
qed

definition vote_inv :: "'db PrimaryEnv \<Rightarrow> 'db Primary \<Rightarrow> Vote list \<Rightarrow> bool" where
  "vote_inv e p vs \<longleftrightarrow>
     (let g = gc_round (core p); live = filter (\<lambda>v. g \<le> vote_round v) vs
      in distinct (map vote_slot live) \<and> vote_slot ` set live \<subseteq> voted (core p) \<and> list_all (vote_signed e) vs \<and>
         g \<le> consensus_round p - env_gc_depth e \<and> consensus_round p = gc_last_committed p)"

lemma round_set_retain: "round_set k (retain_rounds g m) = (if g \<le> k then round_set k m else {})"
proof -
  have "map_of (filter (\<lambda>(k, _). g \<le> k) m) k = (if g \<le> k then map_of m k else None)"
    by (induction m) auto
  then show ?thesis by (simp add: round_set_def retain_rounds_def)
qed

lemma cleanup_voted:
  "voted (core_cleanup e r s) =
     (if r > env_gc_depth e then {(k, a) \<in> voted s. r - env_gc_depth e \<le> k} else voted s)"
  by (auto simp: voted_def core_cleanup_def round_set_retain Let_def split: if_splits)

lemma cleanup_gc_round:
  "gc_round (core_cleanup e r s) = (if r > env_gc_depth e then r - env_gc_depth e else gc_round s)"
  by (simp add: core_cleanup_def Let_def)

lemma filter_slots_mono:
  assumes "distinct (map f (filter P xs))" "\<And>x. Q x \<Longrightarrow> P x"
  shows "distinct (map f (filter Q xs))"
  using assms by (induction xs) (auto split: if_splits)

lemma vote_inv_core:
  assumes inv: "vote_inv e p vs" and step: "core_step e (i, consensus_round p) (core p) = Inr (s', out)"
  shows "vote_inv e (p\<lparr>core := s'\<rparr>) (vs @ votes_sent out)"
proof -
  obtain s1 res where h: "core_handle e i (core p) = Inr (s1, out, res)"
    and s': "s' = core_cleanup e (consensus_round p) s1" by (rule core_step_Inr [OF step])
  define g where "g = gc_round (core p)"
  define live where "live = filter (\<lambda>v. g \<le> vote_round v) vs"
  define new where "new = votes_sent out"
  note f = core_handle_votes [OF h, unfolded votes_fresh_def, folded new_def]
  have i: "distinct (map vote_slot live)" "vote_slot ` set live \<subseteq> voted (core p)"
      "list_all (vote_signed e) vs" "g \<le> consensus_round p - env_gc_depth e"
      "consensus_round p = gc_last_committed p"
    using inv unfolding vote_inv_def g_def live_def Let_def by blast+
  define g' where "g' = gc_round s'"
  have g': "g \<le> g'" "g' \<le> consensus_round p - env_gc_depth e" "g' = g \<or> env_gc_depth e < consensus_round p"
    using f i(4) by (auto simp: g'_def s' cleanup_gc_round g_def)
  have "vote_slot ` set live \<inter> vote_slot ` set new = {}" using i(2) f by blast
  then have "distinct (map vote_slot (filter (\<lambda>v. g \<le> vote_round v) (vs @ new)))"
    using i(1) f unfolding live_def by (auto simp: distinct_map intro: inj_on_subset)
  then have d: "distinct (map vote_slot (filter (\<lambda>v. g' \<le> vote_round v) (vs @ new)))"
    by (rule filter_slots_mono) (use g'(1) in simp)
  have "vote_slot ` set (filter (\<lambda>v. g \<le> vote_round v) (vs @ new)) \<subseteq> voted s1"
    using i(2) f unfolding live_def by auto
  then have "vote_slot ` set (filter (\<lambda>v. g' \<le> vote_round v) (vs @ new)) \<subseteq> voted s'"
    using g'(1) by (auto simp: s' cleanup_voted g'_def cleanup_gc_round vote_slot_def split: if_splits)
  then show ?thesis
    using d i(3,5) g'(2) f by (simp add: vote_inv_def g'_def new_def Let_def)
qed

lemma vote_inv_step:
  assumes "vote_inv e p vs" "primary_step e ev p = Inr (p', out)"
  shows "vote_inv e p' (vs @ votes_sent out)"
proof (cases ev)
  case (CoreEvent i)
  then obtain s' where "core_step e (i, consensus_round p) (core p) = Inr (s', out)" "p' = p\<lparr>core := s'\<rparr>"
    using assms(2) by (cases "core_step e (i, consensus_round p) (core p)") auto
  then show ?thesis using vote_inv_core [OF assms(1)] by simp
next
  case (PayloadEvent d w)
  then have p': "p' = p\<lparr>core := (core p)\<lparr>core_db := payload_receiver_step e (d, w) (core_db (core p))\<rparr>\<rparr>" "out = []"
    using assms(2) by simp_all
  have "voted (s\<lparr>core_db := db\<rparr>) = voted s" for s :: "'a CoreState" and db by (simp add: voted_def)
  then show ?thesis using assms(1) by (simp add: vote_inv_def p')
next
  case (CommittedEvent x)
  have "votes_sent (map (\<lambda>a. SendWorker a (Cleanup r)) as) = []" for r as
    by (induction as) auto
  moreover have eq: "garbage_collector_step x p = (p', out)" using assms(2) CommittedEvent by simp
  ultimately have same: "core p' = core p" "votes_sent out = []"
    by (auto simp: garbage_collector_step_def Let_def split: if_splits)
  have c: "consensus_round p = gc_last_committed p" "gc_round (core p) \<le> consensus_round p - env_gc_depth e"
    using assms(1) unfolding vote_inv_def Let_def by blast+
  then have "consensus_round p' = gc_last_committed p'" "consensus_round p \<le> consensus_round p'"
    using eq by (auto simp: garbage_collector_step_def Let_def split: if_splits)
  moreover have "gc_round (core p) \<le> consensus_round p' - env_gc_depth e" using c(2) calculation(2) by linarith
  ultimately show ?thesis
    using assms(1) unfolding vote_inv_def Let_def same append_Nil2 by blast
qed

lemma vote_inv_run:
  "\<lbrakk>primary_run e evs p = Inr (p', out); vote_inv e p vs\<rbrakk> \<Longrightarrow> vote_inv e p' (vs @ votes_sent out)"
proof (induction evs arbitrary: p vs out)
  case Nil
  then show ?case by simp
next
  case (Cons ev evs)
  obtain p1 o1 where s: "primary_step e ev p = Inr (p1, o1)"
    using Cons.prems(1) by (cases "primary_step e ev p") auto
  obtain o2 where r: "primary_run e evs p1 = Inr (p', o2)" "out = o1 @ o2"
    using Cons.prems(1) s by (cases "primary_run e evs p1") auto
  show ?case using Cons.IH [OF r(1) vote_inv_step [OF Cons.prems(2) s]] r(2) by simp
qed

lemma vote_inv_new: "primary_new e db = Inr p \<Longrightarrow> vote_inv e p []"
  by (auto simp: primary_new_def vote_inv_def core_new_def Let_def split: sum.splits)

end
