(* ===== verification/PrimaryFeed.thy ===== *)
theory PrimaryFeed
  imports PrimaryInv
begin

text \<open>
  What a primary hands to the consensus: a certificate is handed over only after its parents, since
  the core stores a certificate exactly when it hands it over, and the synchronizer finds the
  parents in the store. The other keys of the store, the identifiers of headers and the keys of
  batches, could only be confused with digests of certificates by a collision.
\<close>

section \<open>The store\<close>

definition store_law :: "'db PrimaryEnv \<Rightarrow> bool" where
  "store_law e \<longleftrightarrow>
     (\<forall>k v k' db. kv_get e k' (kv_put e k v db) = (if k' = k then Inr (Some v) else kv_get e k' db))"

definition stored :: "'db PrimaryEnv \<Rightarrow> 'db \<Rightarrow> u8 list set" where
  "stored e db = {k. \<exists>v. kv_get e k db = Inr (Some v)}"

lemma stored_put: "store_law e \<Longrightarrow> stored e (kv_put e k v db) = insert k (stored e db)"
  by (auto simp: stored_def store_law_def)

definition genesis_keys :: "'db PrimaryEnv \<Rightarrow> Digest set" where
  "genesis_keys e = fst ` set (genesis_digests e)"

section \<open>Certificates handed to the consensus\<close>

definition to_consensus :: "CoreOutput list \<Rightarrow> Certificate list" where
  "to_consensus out = concat (map (\<lambda>x. case x of ToConsensus x \<Rightarrow> [x] | _ \<Rightarrow> []) out)"

lemma to_consensus_simps [simp]:
  "to_consensus [] = []"
  "to_consensus (SendPrimary a m # out) = to_consensus out"
  "to_consensus (SendWorker a w # out) = to_consensus out"
  "to_consensus (ToProposer ps r # out) = to_consensus out"
  "to_consensus (ToConsensus x # out) = x # to_consensus out"
  "to_consensus (ToHeaderWaiter m' # out) = to_consensus out"
  "to_consensus (ToCertificateWaiter x # out) = to_consensus out"
  "to_consensus (out @ out') = to_consensus out @ to_consensus out'"
  by (simp_all add: to_consensus_def)

text \<open>Every certificate comes after its parents, apart from those in \<open>K\<close>.\<close>

primrec fed :: "(u8 list \<Rightarrow> u8 list) \<Rightarrow> Digest set \<Rightarrow> Certificate list \<Rightarrow> bool" where
  "fed sha512 K [] = True"
| "fed sha512 K (x # xs) = (set (parents (header x)) \<subseteq> K \<and> fed sha512 (insert (cert_digest sha512 x) K) xs)"

lemma fed_append: "fed sha512 K (xs @ ys) \<longleftrightarrow> fed sha512 K xs \<and> fed sha512 (K \<union> cert_digest sha512 ` set xs) ys"
  by (induction xs arbitrary: K) simp_all

lemma fed_mono: "fed sha512 K xs \<Longrightarrow> K \<subseteq> K' \<Longrightarrow> fed sha512 K' xs"
proof (induction xs arbitrary: K K')
  case (Cons x xs)
  then show ?case using Cons.IH [of "insert (cert_digest sha512 x) K" "insert (cert_digest sha512 x) K'"] by auto
qed simp

lemma fed_nth:
  "fed sha512 K xs \<Longrightarrow> i < length xs \<Longrightarrow>
   set (parents (header (xs ! i))) \<subseteq> K \<union> cert_digest sha512 ` set (take i xs)"
proof (induction xs arbitrary: K i)
  case (Cons x xs)
  then show ?case
    using Cons.IH [of "insert (cert_digest sha512 x) K" "i - 1"] by (cases i) auto
qed simp

definition store_rel ::
  "'db PrimaryEnv \<Rightarrow> Digest set \<Rightarrow> 'db \<Rightarrow> CoreOutput list \<Rightarrow> 'db \<Rightarrow> bool" where
  "store_rel e ids db out db' \<longleftrightarrow>
     stored e db' \<subseteq> stored e db \<union> ids \<union> cert_digest (sha512_of e) ` set (to_consensus out) \<and>
     fed (sha512_of e) (stored e db \<union> ids \<union> genesis_keys e) (to_consensus out)"

definition feed_rel ::
  "'db PrimaryEnv \<Rightarrow> Digest set \<Rightarrow> 'db CoreState \<Rightarrow> CoreOutput list \<Rightarrow> 'db CoreState \<Rightarrow> bool" where
  "feed_rel e ids s out s' \<longleftrightarrow>
     current_header s' = current_header s \<and> (store_law e \<longrightarrow> store_rel e ids (core_db s) out (core_db s'))"

lemma store_rel_trans:
  assumes "store_rel e ids db out db1" "store_rel e ids db1 out' db2"
  shows "store_rel e ids db (out @ out') db2"
proof -
  let ?D = "\<lambda>os. cert_digest (sha512_of e) ` set (to_consensus os)"
  have "stored e db1 \<union> ids \<union> genesis_keys e \<subseteq> (stored e db \<union> ids \<union> genesis_keys e) \<union> ?D out"
    using assms(1) unfolding store_rel_def by blast
  then have "fed (sha512_of e) ((stored e db \<union> ids \<union> genesis_keys e) \<union> ?D out) (to_consensus out')"
    using assms(2) fed_mono unfolding store_rel_def by blast
  then show ?thesis using assms unfolding store_rel_def by (auto simp: fed_append)
qed

lemma store_rel_refl: "to_consensus out = [] \<Longrightarrow> store_rel e ids db out db"
  by (auto simp: store_rel_def)

lemma feed_relI:
  assumes "current_header s' = current_header s" "core_db s' = core_db s" "to_consensus out = []"
  shows "feed_rel e ids s out s'"
  using assms by (simp add: feed_rel_def store_rel_refl)

lemma sends_consensus [simp]: "to_consensus (sends hs) = []"
  by (induction hs) (auto simp: sends_def)

lemma waiter_consensus: "set out \<subseteq> range ToHeaderWaiter \<Longrightarrow> to_consensus out = []"
  by (induction out) auto

definition header_known :: "Digest set \<Rightarrow> Header \<Rightarrow> bool" where
  "header_known ids h \<longleftrightarrow> header_id h \<in> ids \<or> parents h = []"

lemma header_ready_parents: "header_ready e h db = (out, Inr True) \<Longrightarrow> parents h \<noteq> []"
  by (cases "parents h = []") (simp_all add: header_ready_def get_parents_def)

lemma feed_rel_store:
  assumes "header_known ids h" "header_ready e h (core_db s) = (out, Inr True)"
  shows "feed_rel e ids s [] (store_header e h s)"
proof -
  have "header_id h \<in> ids" using assms(1) header_ready_parents [OF assms(2)] by (simp add: header_known_def)
  then show ?thesis by (auto simp: feed_rel_def store_rel_def stored_put)
qed

lemma ancestors_stored_keys:
  "ancestors_stored e db ps = Inr True \<Longrightarrow> set ps \<subseteq> genesis_keys e \<union> stored e db"
proof (induction ps)
  case (Cons p ps)
  show ?case
  proof (cases "p \<in> genesis_keys e")
    case True
    then show ?thesis using Cons by (simp add: genesis_keys_def)
  next
    case False
    then obtain v where "kv_get e p db = Inr (Some v)" "ancestors_stored e db ps = Inr True"
      using Cons.prems by (auto simp: genesis_keys_def store_read_def split: sum.splits if_splits)
    then show ?thesis using Cons.IH by (auto simp: stored_def)
  qed
qed simp

lemma feed_rel_finish:
  assumes "finish_certificate e x s = Inr (s', out, res)"
  shows "feed_rel e ids s out s'"
  using assms
proof (cases rule: finish_cases)
  case waiting
  then show ?thesis by (auto intro: feed_relI)
next
  case (delivered ags notice)
  have n: "to_consensus notice = []" using delivered(4) by auto
  have "ancestors_stored e (core_db s) (parents (header x)) = Inr True"
    using delivered(1) by (auto simp: deliver_certificate_def split: sum.splits)
  then have "set (parents (header x)) \<subseteq> genesis_keys e \<union> stored e (core_db s)" by (rule ancestors_stored_keys)
  then show ?thesis
    using delivered(2,3) n by (auto simp: feed_rel_def store_rel_def stored_put)
qed

interpretation feed: handler_relation e "feed_rel e ids" "header_known ids" for e :: "'db PrimaryEnv" and ids
proof (unfold_locales, goal_cases)
  case (2 s out s1 out' s2)
  then show ?case by (auto simp: feed_rel_def intro: store_rel_trans)
next
  case (3 s out s')
  then show ?case by (simp add: feed_rel_def)
next
  case (7 h db out res s)
  then show ?case by (simp add: feed_relI waiter_consensus [OF header_ready_out])
next
  case (8 h s out)
  then show ?case by (rule feed_rel_store)
next
  case (11 x s s' out res)
  then show ?case by (auto intro: feed_rel_finish)
qed (simp_all add: feed_relI)

section \<open>Runs of a primary\<close>

text \<open>The keys that other writes use: identifiers of headers and keys of batches.\<close>

fun other_keys :: "PrimaryEvent \<Rightarrow> u8 list set" where
  "other_keys (CoreEvent i) = header_id ` set (input_headers i)"
| "other_keys (PayloadEvent d w) = {payload_key (d, w)}"
| "other_keys (CommittedEvent x) = {}"

definition feed_inv ::
  "'db PrimaryEnv \<Rightarrow> Digest set \<Rightarrow> 'db Primary \<Rightarrow> CoreOutput list \<Rightarrow> 'db Primary \<Rightarrow> bool" where
  "feed_inv e ids p out p' \<longleftrightarrow>
     header_known ids (current_header (core p')) \<and> store_rel e ids (core_db (core p)) out (core_db (core p'))"

lemma core_handle_feed:
  assumes law: "store_law e" and known: "header_known ids (current_header s)" "header_id ` set (input_headers i) \<subseteq> ids"
    and run: "core_handle e i s = Inr (s', out, res)"
  shows "header_known ids (current_header s')" "store_rel e ids (core_db s) out (core_db s')"
proof -
  have *: "header_known ids (current_header s') \<and> store_rel e ids (core_db s) out (core_db s')"
    using run
  proof (cases rule: core_handle_cases)
    case refused
    then show ?thesis using known(1) store_rel_refl [of "[]"] by simp
  next
    case (headers h)
    have "header_known ids h" using known(2) headers(1) by (simp add: header_known_def)
    from feed.handlers_related(1) [OF headers(2) refl this known(1)] show ?thesis
      using law known(1) by (simp add: feed_rel_def)
  next
    case (votes v)
    from feed.handlers_related(2) [OF votes refl known(1)] show ?thesis
      using law known(1) by (simp add: feed_rel_def)
  next
    case (certificate x)
    have "header_known ids (header x)" using known(2) certificate(1) by (simp add: header_known_def)
    from feed.handlers_related(3) [OF certificate(2) refl this known(1)] show ?thesis
      using law known(1) by (simp add: feed_rel_def)
  next
    case (own h out2)
    have h: "header_known ids h" using known(2) own(1) by (simp add: header_known_def)
    have "feed_rel e ids (adopt_header e h s) out2 s'"
      using feed.handlers_related(1) [OF own(2) refl h] h by simp
    then have "current_header s' = h" "store_rel e ids (core_db s) out2 (core_db s')"
      using law by (simp_all add: feed_rel_def)
    then show ?thesis using h own(3) by (simp add: store_rel_def)
  qed
  then show "header_known ids (current_header s')" "store_rel e ids (core_db s) out (core_db s')" by simp_all
qed

lemma cleanup_simps [simp]:
  "core_db (core_cleanup e r s) = core_db s" "current_header (core_cleanup e r s) = current_header s"
  by (simp_all add: core_cleanup_def Let_def)

lemma primary_step_feed:
  assumes law: "store_law e" and known: "header_known ids (current_header (core p))" "other_keys ev \<subseteq> ids"
    and step: "primary_step e ev p = Inr (p', out)"
  shows "feed_inv e ids p out p'"
proof (cases ev)
  case (CoreEvent i)
  then obtain s' where s': "core_step e (i, consensus_round p) (core p) = Inr (s', out)" "p' = p\<lparr>core := s'\<rparr>"
    using step by (cases "core_step e (i, consensus_round p) (core p)") auto
  obtain s1 res where "core_handle e i (core p) = Inr (s1, out, res)" "s' = core_cleanup e (consensus_round p) s1"
    by (rule core_step_Inr [OF s'(1)])
  then show ?thesis
    using core_handle_feed [OF law known(1), of i] known(2) s'(2) CoreEvent by (simp add: feed_inv_def)
next
  case (PayloadEvent d w)
  then show ?thesis
    using step known stored_put [OF law] by (auto simp: feed_inv_def store_rel_def payload_receiver_step_def)
next
  case (CommittedEvent x)
  have "to_consensus (map (\<lambda>a. SendWorker a (Cleanup r)) as) = []" for r as
    by (induction as) auto
  then show ?thesis
    using step CommittedEvent known(1)
    by (auto simp: feed_inv_def garbage_collector_step_def Let_def intro!: store_rel_refl split: if_splits)
qed

lemma primary_run_feed:
  assumes "store_law e"
  shows "\<lbrakk>primary_run e evs p = Inr (p', out); header_known ids (current_header (core p));
    \<Union> (other_keys ` set evs) \<subseteq> ids\<rbrakk> \<Longrightarrow> feed_inv e ids p out p'"
proof (induction evs arbitrary: p out)
  case Nil
  then show ?case by (simp add: feed_inv_def store_rel_refl)
next
  case (Cons ev evs)
  obtain p1 o1 where s: "primary_step e ev p = Inr (p1, o1)"
    using Cons.prems(1) by (cases "primary_step e ev p") auto
  obtain o2 where r: "primary_run e evs p1 = Inr (p', o2)" "out = o1 @ o2"
    using Cons.prems(1) s by (cases "primary_run e evs p1") auto
  have i1: "feed_inv e ids p o1 p1" using primary_step_feed [OF assms Cons.prems(2) _ s] Cons.prems(3) by simp
  then have "feed_inv e ids p1 o2 p'" using Cons.IH [OF r(1)] Cons.prems(3) by (simp add: feed_inv_def)
  moreover have "store_rel e ids (core_db (core p)) out (core_db (core p'))"
    unfolding r(2) using i1 calculation unfolding feed_inv_def by (intro store_rel_trans [of e ids "core_db (core p)" o1 "core_db (core p1)" o2 "core_db (core p')"]) simp_all
  ultimately show ?case by (simp add: feed_inv_def)
qed

lemma primary_new_feed:
  assumes "primary_new e db = Inr p"
  shows "header_known ids (current_header (core p))" "core_db (core p) = db"
  using assms by (auto simp: primary_new_def core_new_def header_known_def header_default_def split: sum.splits)

lemma primary_feeds_digests:
  assumes "store_law e" "stored e db = {}" "primary_new e db = Inr p0" "primary_run e evs p0 = Inr (p, out)"
    and "i < length (to_consensus out)"
  shows "set (parents (header (to_consensus out ! i))) \<subseteq>
    genesis_keys e \<union> \<Union> (other_keys ` set evs) \<union> cert_digest (sha512_of e) ` set (take i (to_consensus out))"
proof -
  have "feed_inv e (\<Union> (other_keys ` set evs)) p0 out p"
    using primary_run_feed [OF assms(1,4)] primary_new_feed [OF assms(3)] by blast
  then have "fed (sha512_of e) (\<Union> (other_keys ` set evs) \<union> genesis_keys e) (to_consensus out)"
    using assms(2) primary_new_feed(2) [OF assms(3)] by (simp add: feed_inv_def store_rel_def)
  from fed_nth [OF this assms(5)] show ?thesis by blast
qed

end
