(* ===== verification/Proposer.thy ===== *)
theory Proposer
  imports NarwhalTypes "HOL-Library.List_Lexorder"
begin

text \<open>
  The proposer of a primary (\<open>narwhal/primary/src/proposer.rs\<close>). A round of its loop first makes a
  header if it has parents and enough digests or an expired timer, then takes one message. Whether
  the timer has expired is part of the input of a round. The digests and the parents of a header are
  collected into a \<open>BTreeMap\<close> and a \<open>BTreeSet\<close>: sorted, with the last entry of a key.
\<close>

definition btree_set :: "'a :: linorder list \<Rightarrow> 'a list" where
  "btree_set xs = sort (remdups xs)"

definition btree_map :: "('a :: linorder \<times> 'b) list \<Rightarrow> ('a \<times> 'b) list" where
  "btree_map xs = map (\<lambda>k. (k, the (map_of (rev xs) k))) (btree_set (map fst xs))"

record Proposer =
  proposer_round :: Round
  last_parents :: "Digest list"
  digests :: "(Digest \<times> u32) list"
  payload_size :: usize

record ProposerEnv =
  prop_name :: PublicKey
  prop_sha512 :: "u8 list \<Rightarrow> u8 list"
  prop_sign :: "Digest \<Rightarrow> Ed25519Signature"
  prop_header_size :: usize

definition proposer_new :: "ProposerEnv \<Rightarrow> NarwhalCommittee \<Rightarrow> Proposer" where
  "proposer_new e c =
     \<lparr>proposer_round = 1, last_parents = map (cert_digest (prop_sha512 e)) (genesis c), digests = [], payload_size = 0\<rparr>"

definition make_header :: "ProposerEnv \<Rightarrow> Proposer \<Rightarrow> Header \<times> Proposer" where
  "make_header e p =
     (header_new (prop_sha512 e) (prop_sign e) (prop_name e) (proposer_round p) (btree_map (digests p))
        (btree_set (last_parents p)),
      p\<lparr>digests := [], last_parents := []\<rparr>)"

datatype ProposerInput =
    FromCore "Digest list" Round
  | FromWorkers Digest u32
  | TimerFired

fun proposer_receive :: "ProposerInput \<Rightarrow> Proposer \<Rightarrow> Proposer" where
  "proposer_receive (FromCore ps r) p =
     (if r < proposer_round p then p else p\<lparr>proposer_round := r + 1, last_parents := ps\<rparr>)"
| "proposer_receive (FromWorkers d w) p =
     p\<lparr>payload_size := payload_size p + digest_size d, digests := digests p @ [(d, w)]\<rparr>"
| "proposer_receive TimerFired p = p"

definition proposer_step :: "ProposerEnv \<Rightarrow> bool \<times> ProposerInput \<Rightarrow> Proposer \<Rightarrow> Header list \<times> Proposer" where
  "proposer_step e = (\<lambda>(timer_expired, i) p.
     let enough_parents = last_parents p \<noteq> [];
         enough_digests = payload_size p \<ge> prop_header_size e;
         (hs, p1) =
           (if (timer_expired \<or> enough_digests) \<and> enough_parents
            then let (h, p1) = make_header e p in ([h], p1\<lparr>payload_size := 0\<rparr>)
            else ([], p))
     in (hs, proposer_receive i p1))"

fun proposer_run :: "ProposerEnv \<Rightarrow> (bool \<times> ProposerInput) list \<Rightarrow> Proposer \<Rightarrow> Header list \<times> Proposer" where
  "proposer_run e [] p = ([], p)"
| "proposer_run e (i # is) p =
     (let (hs, p1) = proposer_step e i p; (hs2, p2) = proposer_run e is p1 in (hs @ hs2, p2))"

section \<open>Collections\<close>

lemma btree_set_sorted: "sorted_wrt (<) (btree_set xs)" "set (btree_set xs) = set xs"
  by (simp_all add: btree_set_def strict_sorted_iff)

lemma btree_map_keys: "map fst (btree_map xs) = btree_set (map fst xs)"
  by (simp add: btree_map_def comp_def)

lemma btree_map_subset: "set (btree_map xs) \<subseteq> set xs"
proof
  fix b assume "b \<in> set (btree_map xs)"
  then obtain k where k: "b = (k, the (map_of (rev xs) k))" "k \<in> fst ` set xs"
    using btree_set_sorted(2) [of "map fst xs"] by (auto simp: btree_map_def)
  then obtain v where "map_of (rev xs) k = Some v"
    by (metis set_rev domIff dom_map_of_conv_image_fst not_None_eq)
  then show "b \<in> set xs" using k(1) map_of_SomeD by fastforce
qed

section \<open>Well-formed headers, one per round\<close>

text \<open>A header as \<open>Header::new\<close> makes it, with its collections in order.\<close>

definition header_wf :: "ProposerEnv \<Rightarrow> Header \<Rightarrow> bool" where
  "header_wf e h \<longleftrightarrow>
     author h = prop_name e \<and> header_id h = header_digest (prop_sha512 e) h \<and>
     header_signature h = prop_sign e (header_id h) \<and> parents h \<noteq> [] \<and>
     sorted_wrt (<) (parents h) \<and> sorted_wrt (<) (map fst (payload h))"

lemma make_header_wf:
  assumes "make_header e p = (h, p')" "last_parents p \<noteq> []"
  shows "header_wf e h" "round h = proposer_round p" "set (parents h) = set (last_parents p)"
    "fst ` set (payload h) = fst ` set (digests p)" "set (payload h) \<subseteq> set (digests p)"
    "p' = p\<lparr>digests := [], last_parents := []\<rparr>"
proof -
  have h: "h = header_new (prop_sha512 e) (prop_sign e) (prop_name e) (proposer_round p) (btree_map (digests p))
      (btree_set (last_parents p))"
    using assms(1) by (simp add: make_header_def)
  have ps: "payload h = btree_map (digests p)" "parents h = btree_set (last_parents p)"
    by (simp_all add: h header_new_def Let_def)
  have "btree_set (last_parents p) \<noteq> []" using assms(2) btree_set_sorted(2) [of "last_parents p"] by auto
  then show "header_wf e h"
    using btree_set_sorted(1) [of "last_parents p"] btree_set_sorted(1) [of "map fst (digests p)"]
    unfolding header_wf_def ps btree_map_keys by (simp add: h header_new_def Let_def header_digest_def)
  show "round h = proposer_round p" by (simp add: h header_new_def Let_def)
  show "set (parents h) = set (last_parents p)" by (simp add: ps btree_set_sorted)
  have "set (map fst (payload h)) = fst ` set (digests p)" by (simp only: ps btree_map_keys btree_set_sorted set_map)
  then show "fst ` set (payload h) = fst ` set (digests p)" by simp
  show "set (payload h) \<subseteq> set (digests p)" unfolding ps(1) by (rule btree_map_subset)
  show "p' = p\<lparr>digests := [], last_parents := []\<rparr>" using assms(1) by (simp add: make_header_def)
qed

definition received :: "(bool \<times> ProposerInput) list \<Rightarrow> (Digest \<times> u32) list" where
  "received is = concat (map (\<lambda>(_, i). case i of FromWorkers d w \<Rightarrow> [(d, w)] | _ \<Rightarrow> []) is)"

text \<open>The digests received are those in the headers and those still held.\<close>

definition accounts :: "(Digest \<times> u32) set \<Rightarrow> Header list \<Rightarrow> (Digest \<times> u32) list \<Rightarrow> bool" where
  "accounts ds hs held \<longleftrightarrow>
     (\<Union>h \<in> set hs. set (payload h)) \<union> set held \<subseteq> ds \<and>
     (\<Union>h \<in> set hs. fst ` set (payload h)) \<union> fst ` set held = fst ` ds"

lemma accounts_snoc:
  assumes "accounts ds hs held"
  shows "accounts (ds \<union> {b}) hs (held @ [b])"
proof -
  define P where "P = (\<Union>h \<in> set hs. set (payload h))"
  define F where "F = (\<Union>h \<in> set hs. fst ` set (payload h))"
  have "P \<union> set held \<subseteq> ds" "F \<union> fst ` set held = fst ` ds"
    using assms unfolding accounts_def P_def F_def by (rule conjunct1, rule conjunct2)
  then have "P \<union> set (held @ [b]) \<subseteq> ds \<union> {b}" "F \<union> fst ` set (held @ [b]) = fst ` (ds \<union> {b})"
    by (simp_all only: set_append image_Un list.set image_insert image_empty) blast+
  then show ?thesis unfolding accounts_def P_def F_def by (rule conjI)
qed

lemma accounts_make:
  assumes "accounts ds hs held" "set (payload h) \<subseteq> set held" "fst ` set (payload h) = fst ` set held"
  shows "accounts ds (hs @ [h]) []"
proof -
  define P where "P = (\<Union>h \<in> set hs. set (payload h))"
  define F where "F = (\<Union>h \<in> set hs. fst ` set (payload h))"
  have new: "(\<Union>h \<in> set (hs @ [h]). set (payload h)) = P \<union> set (payload h)"
    "(\<Union>h \<in> set (hs @ [h]). fst ` set (payload h)) = F \<union> fst ` set (payload h)"
    by (simp_all only: P_def F_def set_append UN_Un list.set UN_insert UN_empty Un_empty_right)
  have "P \<union> set held \<subseteq> ds" "F \<union> fst ` set held = fst ` ds"
    using assms(1) unfolding accounts_def P_def F_def by (rule conjunct1, rule conjunct2)
  then have "P \<union> set (payload h) \<subseteq> ds" "F \<union> fst ` set (payload h) = fst ` ds"
    using assms(2) unfolding assms(3) by blast+
  then show ?thesis unfolding accounts_def new by simp
qed

definition proposer_inv ::
  "ProposerEnv \<Rightarrow> (Digest \<times> u32) set \<Rightarrow> Header list \<Rightarrow> Proposer \<Rightarrow> bool" where
  "proposer_inv e ds hs p \<longleftrightarrow>
     list_all (header_wf e) hs \<and> sorted_wrt (<) (map round hs) \<and>
     (\<forall>h \<in> set hs. round h \<le> proposer_round p \<and> (last_parents p \<noteq> [] \<longrightarrow> round h < proposer_round p)) \<and>
     accounts ds hs (digests p)"

lemma proposer_receive_inv:
  assumes "proposer_inv e ds hs p"
  shows "proposer_inv e (ds \<union> set (received [(b, i)])) hs (proposer_receive i p)"
proof (cases i)
  case (FromCore ps r)
  then show ?thesis using assms by (auto simp: proposer_inv_def received_def)
next
  case (FromWorkers d w)
  then have "set (received [(b, i)]) = {(d, w)}" by (simp add: received_def)
  then show ?thesis using assms FromWorkers accounts_snoc [of ds hs "digests p" "(d, w)"] by (simp add: proposer_inv_def)
next
  case TimerFired
  then show ?thesis using assms by (simp add: received_def)
qed

lemma proposer_make_inv:
  assumes "proposer_inv e ds hs p" "last_parents p \<noteq> []" "make_header e p = (h, p')"
  shows "proposer_inv e ds (hs @ [h]) (p'\<lparr>payload_size := n\<rparr>)"
proof -
  note m = make_header_wf [OF assms(3,2)]
  have "list_all (header_wf e) (hs @ [h])" using assms(1) m(1) by (simp add: proposer_inv_def)
  moreover have "sorted_wrt (<) (map round (hs @ [h]))"
    using assms(1,2) m(2) by (simp add: proposer_inv_def sorted_wrt_append)
  moreover have "accounts ds (hs @ [h]) []"
    using assms(1) accounts_make [OF _ m(5,4)] unfolding proposer_inv_def by blast
  ultimately show ?thesis
    using assms(1) m(2,6) by (simp add: proposer_inv_def)
qed

lemma proposer_step_inv:
  assumes "proposer_inv e ds hs p" "proposer_step e (b, i) p = (hs', p')"
  shows "proposer_inv e (ds \<union> set (received [(b, i)])) (hs @ hs') p'"
proof (cases "(b \<or> payload_size p \<ge> prop_header_size e) \<and> last_parents p \<noteq> []")
  case True
  obtain h p1 where m: "make_header e p = (h, p1)" by fastforce
  have "hs' = [h]" "p' = proposer_receive i (p1\<lparr>payload_size := 0\<rparr>)"
    using assms(2) True m by (auto simp: proposer_step_def Let_def)
  then show ?thesis using proposer_receive_inv [OF proposer_make_inv [OF assms(1) _ m, of 0]] True by simp
next
  case False
  then have "hs' = []" "p' = proposer_receive i p"
    using assms(2) by (auto simp: proposer_step_def Let_def split: if_splits)
  then show ?thesis using proposer_receive_inv [OF assms(1)] by simp
qed

lemma received_Cons: "received (i # is) = received [i] @ received is"
  by (simp add: received_def)

lemma proposer_run_inv:
  "\<lbrakk>proposer_inv e ds hs p; proposer_run e is p = (hs', p')\<rbrakk>
   \<Longrightarrow> proposer_inv e (ds \<union> set (received is)) (hs @ hs') p'"
proof (induction "is" arbitrary: ds hs p hs')
  case Nil
  then show ?case by (simp add: received_def)
next
  case (Cons i "is")
  obtain b j where i: "i = (b, j)" by fastforce
  obtain h1 p1 where a: "proposer_step e i p = (h1, p1)" by fastforce
  obtain h2 where r: "proposer_run e is p1 = (h2, p')" "hs' = h1 @ h2"
    using Cons.prems(2) a by (cases "proposer_run e is p1") auto
  have "proposer_inv e (ds \<union> set (received [i])) (hs @ h1) p1"
    using proposer_step_inv [OF Cons.prems(1)] a i by simp
  from Cons.IH [OF this r(1)] r(2) show ?case
    unfolding received_Cons [of i "is"] by (simp add: image_Un Un_assoc)
qed

lemma proposer_new_inv: "proposer_inv e {} [] (proposer_new e c)"
  by (simp add: proposer_inv_def proposer_new_def accounts_def)

text \<open>A well-formed header of a member passes the check of the other primaries.\<close>

lemma header_wf_verify:
  assumes "header_wf e h" "0 < stake c (prop_name e)"
    and "\<And>d. sig_ok d (prop_name e) (prop_sign e d)"
    and "\<And>d w. (d, w) \<in> set (payload h) \<Longrightarrow> \<not> isl (worker c (prop_name e) w)"
  shows "header_verify (prop_sha512 e) sig_ok c h = Inr ()"
  using assms by (auto simp: header_wf_def header_verify_def ensure_def list_all_iff)

end
