(* ===== verification/Store.thy ===== *)
theory Store
  imports NarwhalTypes "HOL-Library.Multiset" "HOL-Library.AList"
begin

text \<open>
  The store task of Narwhal (\<open>narwhal/store/src/lib.rs\<close>): a loop over commands that answers reads and
  keeps the readers that wait for a key until it is written. The database itself is \<open>rocksdb\<close>, its
  \<open>get\<close> and \<open>put\<close> are parameters; a reply channel is an identifier of type \<open>'s\<close>.
\<close>

datatype 's StoreCommand =
    StoreWrite "u8 list" "u8 list"
  | StoreRead "u8 list" 's
  | NotifyRead "u8 list" 's

datatype 's StoreReply =
    ReadReply 's "string + u8 list option"
  | NotifyReply 's "string + u8 list"

record ('db, 's) StoreTask =
  store_db :: 'db
  obligations :: "(u8 list \<times> 's list) list"

type_synonym 'db db_get = "u8 list \<Rightarrow> 'db \<Rightarrow> string + u8 list option"
type_synonym 'db db_put = "u8 list \<Rightarrow> u8 list \<Rightarrow> 'db \<Rightarrow> 'db"

definition waiting_readers :: "u8 list \<Rightarrow> ('db, 's) StoreTask \<Rightarrow> 's list" where
  "waiting_readers k st = (case map_of (obligations st) k of None \<Rightarrow> [] | Some ss \<Rightarrow> ss)"

fun store_step ::
  "'db db_get \<Rightarrow> 'db db_put \<Rightarrow> 's StoreCommand \<Rightarrow> ('db, 's) StoreTask \<Rightarrow> ('db, 's) StoreTask \<times> 's StoreReply list" where
  "store_step get put (StoreWrite k v) st =
     (st\<lparr>store_db := put k v (store_db st), obligations := AList.delete k (obligations st)\<rparr>,
      map (\<lambda>s. NotifyReply s (Inr v)) (waiting_readers k st))"
| "store_step get put (StoreRead k s) st = (st, [ReadReply s (get k (store_db st))])"
| "store_step get put (NotifyRead k s) st =
     (case get k (store_db st) of
        Inr None \<Rightarrow> (st\<lparr>obligations := AList.update k (waiting_readers k st @ [s]) (obligations st)\<rparr>, [])
      | Inr (Some v) \<Rightarrow> (st, [NotifyReply s (Inr v)])
      | Inl m \<Rightarrow> (st, [NotifyReply s (Inl m)]))"

definition store_new :: "'db \<Rightarrow> ('db, 's) StoreTask" where
  "store_new db = \<lparr>store_db = db, obligations = []\<rparr>"

fun store_run ::
  "'db db_get \<Rightarrow> 'db db_put \<Rightarrow> 's StoreCommand list \<Rightarrow> ('db, 's) StoreTask \<Rightarrow> ('db, 's) StoreTask \<times> 's StoreReply list" where
  "store_run get put [] st = (st, [])"
| "store_run get put (c # cs) st =
     (let (st1, out) = store_step get put c st; (st2, out2) = store_run get put cs st1 in (st2, out @ out2))"

section \<open>Every waiting reader is answered once\<close>

definition notified :: "'s StoreReply list \<Rightarrow> 's list" where
  "notified out = concat (map (\<lambda>x. case x of NotifyReply s _ \<Rightarrow> [s] | _ \<Rightarrow> []) out)"

definition asked :: "'s StoreCommand list \<Rightarrow> 's list" where
  "asked cs = concat (map (\<lambda>c. case c of NotifyRead k s \<Rightarrow> [s] | _ \<Rightarrow> []) cs)"

definition pending_readers :: "('db, 's) StoreTask \<Rightarrow> 's multiset" where
  "pending_readers st = (\<Sum>(k, ss) \<in># mset (obligations st). mset ss)"

text \<open>What \<open>rocksdb\<close> documents of a read after a write.\<close>

definition db_law :: "'db db_get \<Rightarrow> 'db db_put \<Rightarrow> bool" where
  "db_law get put \<longleftrightarrow> (\<forall>k v k' db. get k' (put k v db) = (if k' = k then Inr (Some v) else get k' db))"

definition store_inv :: "'db db_get \<Rightarrow> ('db, 's) StoreTask \<Rightarrow> bool" where
  "store_inv get st \<longleftrightarrow> distinct (map fst (obligations st)) \<and>
     (\<forall>k \<in> fst ` set (obligations st). get k (store_db st) = Inr None)"

lemma obligations_delete:
  fixes m :: "('k \<times> 's list) list"
  assumes "distinct (map fst m)"
  shows "(\<Sum>(k, ss) \<in># mset m. mset ss) =
    (\<Sum>(k, ss) \<in># mset (AList.delete k m). mset ss) + mset (case map_of m k of None \<Rightarrow> [] | Some ss \<Rightarrow> ss)"
  using assms
proof (induction m)
  case (Cons b m)
  obtain a ss where b: "b = (a, ss)" by (cases b)
  have d: "a \<notin> fst ` set m" "distinct (map fst m)" using Cons.prems b by simp_all
  note IH = Cons.IH [OF d(2)]
  show ?case
  proof (cases "a = k")
    case True
    have "AList.delete k (b # m) = m" using d(1) True b by (simp add: delete_idem)
    then show ?thesis using True by (simp add: b ac_simps)
  next
    case False
    then have "AList.delete k (b # m) = b # AList.delete k m" "map_of (b # m) k = map_of m k" using b by simp_all
    then show ?thesis using IH by (simp add: b ac_simps)
  qed
qed simp

lemma obligations_update:
  fixes m :: "('k \<times> 's list) list"
  assumes "distinct (map fst m)"
  shows "(\<Sum>(k, ss) \<in># mset (AList.update k ((case map_of m k of None \<Rightarrow> [] | Some ss \<Rightarrow> ss) @ [s]) m). mset ss) =
    add_mset s (\<Sum>(k, ss) \<in># mset m. mset ss)"
  using assms by (induction m) auto

lemma notified_simps [simp]:
  "notified [] = []"
  "notified (out @ out') = notified out @ notified out'"
  "notified (map (\<lambda>s. NotifyReply s r) ss) = ss"
  "notified [NotifyReply s r] = [s]"
  "notified [ReadReply s q] = []"
  by (simp_all add: notified_def comp_def)

lemma asked_Cons: "asked (c # cs) = asked [c] @ asked cs"
  by (simp add: asked_def)

lemma store_step_inv:
  assumes "db_law get put" "store_inv get st" "store_step get put c st = (st', out)"
  shows "store_inv get st'" "pending_readers st' + mset (notified out) = pending_readers st + mset (asked [c])"
proof -
  have d: "distinct (map fst (obligations st))" using assms(2) by (simp add: store_inv_def)
  have "store_inv get st' \<and> pending_readers st' + mset (notified out) = pending_readers st + mset (asked [c])"
  proof (cases c)
    case (StoreWrite k v)
    then have st': "st' = st\<lparr>store_db := put k v (store_db st), obligations := AList.delete k (obligations st)\<rparr>"
      "out = map (\<lambda>s. NotifyReply s (Inr v)) (waiting_readers k st)" using assms(3) by simp_all
    have "get k' (put k v (store_db st)) = Inr None" if "k' \<in> fst ` set (AList.delete k (obligations st))" for k'
    proof -
      have "k' \<noteq> k" using that delete_notin_dom [of k "obligations st"] by metis
      moreover have "k' \<in> fst ` set (obligations st)" using that dom_delete_subset [of k "obligations st"] by blast
      moreover have "get k' (store_db st) = Inr None" using assms(2) calculation(2) unfolding store_inv_def by blast
      ultimately show ?thesis using assms(1) by (simp add: db_law_def)
    qed
    then have "store_inv get st'" using d by (simp add: st' store_inv_def distinct_delete)
    moreover have "pending_readers st = pending_readers st' + mset (waiting_readers k st)"
      using obligations_delete [OF d, of k] by (simp add: pending_readers_def st' waiting_readers_def)
    ultimately show ?thesis using StoreWrite st'(2) by (simp add: asked_def)
  next
    case (StoreRead k s)
    then show ?thesis using assms by (auto simp: asked_def)
  next
    case (NotifyRead k s)
    show ?thesis
    proof (cases "get k (store_db st) = Inr None")
      case True
      then have st': "st' = st\<lparr>obligations := AList.update k (waiting_readers k st @ [s]) (obligations st)\<rparr>" "out = []"
        using assms(3) NotifyRead by simp_all
      have "store_inv get st'"
        using assms(2) True by (auto simp: st' store_inv_def distinct_update dom_update)
      moreover have "pending_readers st' = add_mset s (pending_readers st)"
        using obligations_update [OF d, of k s] by (simp add: pending_readers_def st' waiting_readers_def)
      ultimately show ?thesis using NotifyRead st'(2) by (simp add: asked_def)
    next
      case False
      then show ?thesis
        using assms NotifyRead by (auto simp: asked_def split: sum.splits option.splits)
    qed
  qed
  then show "store_inv get st'" "pending_readers st' + mset (notified out) = pending_readers st + mset (asked [c])"
    by simp_all
qed

lemma store_run_inv:
  assumes "db_law get put"
  shows "\<lbrakk>store_inv get st; store_run get put cs st = (st', out)\<rbrakk> \<Longrightarrow>
    store_inv get st' \<and> pending_readers st' + mset (notified out) = pending_readers st + mset (asked cs)"
proof (induction cs arbitrary: st out)
  case Nil
  then show ?case by (simp add: asked_def)
next
  case (Cons c cs)
  obtain st1 o1 where a: "store_step get put c st = (st1, o1)" by fastforce
  obtain o2 where b: "store_run get put cs st1 = (st', o2)" "out = o1 @ o2"
    using Cons.prems(2) a by (cases "store_run get put cs st1") auto
  note 1 = store_step_inv [OF assms Cons.prems(1) a]
  from Cons.IH [OF 1(1) b(1)] 1(2) b(2) show ?case
    by (simp add: asked_Cons [of c cs] ac_simps) (metis add.assoc add.commute)
qed

lemma store_new_inv: "store_inv get (store_new db)" "pending_readers (store_new db) = {#}"
  by (simp_all add: store_inv_def store_new_def pending_readers_def)

lemma waiting_stored:
  "store_inv get st \<Longrightarrow> get k (store_db st) = Inr (Some v) \<Longrightarrow> waiting_readers k st = []"
  by (auto simp: store_inv_def waiting_readers_def dest!: map_of_SomeD split: option.splits)

end
