(* ===== verification/Aggregation.thy ===== *)
theory Aggregation
  imports PrimaryCore
begin

text \<open>
  The votes aggregator: over any sequence of votes of members on one header it assembles a
  certificate exactly when the voters reach a quorum of the stake, never a second one, and a
  certificate that other primaries accept.
\<close>

section \<open>Aggregating a sequence of votes\<close>

primrec assemble ::
  "NarwhalCommittee \<Rightarrow> Header \<Rightarrow> Vote list \<Rightarrow> VotesAggregator \<Rightarrow> Certificate list \<times> VotesAggregator" where
  "assemble c h [] ag = ([], ag)"
| "assemble c h (v # vs) ag =
     (let (r, ag1) = votes_append c h v ag; (xs, ag2) = assemble c h vs ag1
      in ((case r of Inr (Some x) \<Rightarrow> [x] | _ \<Rightarrow> []) @ xs, ag2))"

lemma assemble_snoc:
  "assemble c h (vs @ [v]) ag =
     (let (xs, ag1) = assemble c h vs ag; (r, ag2) = votes_append c h v ag1
      in (xs @ (case r of Inr (Some x) \<Rightarrow> [x] | _ \<Rightarrow> []), ag2))"
  by (induction vs arbitrary: ag) (simp_all add: split_def Let_def)

definition votes_stake :: "NarwhalCommittee \<Rightarrow> PublicKey set \<Rightarrow> nat" where
  "votes_stake c A = (\<Sum>n \<in> A. unat (stake c n))"

definition signatures :: "Vote list \<Rightarrow> (PublicKey \<times> Ed25519Signature) set" where
  "signatures vs = (\<lambda>v. (vote_author v, vote_signature v)) ` set vs"

definition assembled :: "NarwhalCommittee \<Rightarrow> Header \<Rightarrow> Vote list \<Rightarrow> Certificate \<Rightarrow> bool" where
  "assembled c h vs x \<longleftrightarrow>
     header x = h \<and> distinct (map fst (cert_votes x)) \<and> set (cert_votes x) \<subseteq> signatures vs \<and>
     unat (stake_quorum c) \<le> votes_stake c (fst ` set (cert_votes x))"

definition assemble_inv ::
  "NarwhalCommittee \<Rightarrow> Header \<Rightarrow> Vote list \<Rightarrow> Certificate list \<Rightarrow> VotesAggregator \<Rightarrow> bool" where
  "assemble_inv c h vs xs ag \<longleftrightarrow>
     va_used ag = vote_author ` set vs \<and> fst ` set (va_votes ag) = va_used ag \<and>
     distinct (map fst (va_votes ag)) \<and> set (va_votes ag) \<subseteq> signatures vs \<and>
     (if votes_stake c (va_used ag) < unat (stake_quorum c)
      then xs = [] \<and> unat (va_weight ag) = votes_stake c (va_used ag)
      else (\<exists>x. xs = [x] \<and> assembled c h vs x) \<and>
        unat (va_weight ag) + unat (stake_quorum c) \<le> votes_stake c (va_used ag))"

lemma assembled_mono: "assembled c h vs x \<Longrightarrow> assembled c h (vs @ [v]) x"
  by (auto simp: assembled_def signatures_def)

lemma votes_stake_insert:
  "finite A \<Longrightarrow> n \<notin> A \<Longrightarrow> votes_stake c (insert n A) = votes_stake c A + unat (stake c n)"
  by (simp add: votes_stake_def)

lemma votes_stake_bounds:
  assumes "stake_ok c" "A \<subseteq> fst ` set (members c)"
  shows "votes_stake c A < 2 ^ 32" "votes_stake c A < 2 * unat (stake_quorum c)"
proof -
  have "votes_stake c A \<le> stake_total c" using stake_le_total [OF assms] by (simp add: votes_stake_def)
  moreover have "t < 2 * (2 * t div 3 + 1)" for t :: nat by presburger
  ultimately show "votes_stake c A < 2 ^ 32" "votes_stake c A < 2 * unat (stake_quorum c)"
    using assms(1) stake_thresholds(2) [OF assms(1)] by (simp_all add: stake_ok_def order_le_less_trans)
qed

lemma assemble_inv_append:
  assumes ok: "stake_ok c" and mem: "vote_author ` set (vs @ [v]) \<subseteq> fst ` set (members c)"
    and inv: "assemble_inv c h vs xs ag" and app: "votes_append c h v ag = (r, ag')"
  shows "assemble_inv c h (vs @ [v]) (xs @ (case r of Inr (Some x) \<Rightarrow> [x] | _ \<Rightarrow> [])) ag'"
proof (cases "vote_author v \<in> va_used ag")
  case True
  then have "r = Inl (AuthorityReuse (vote_author v))" "ag' = ag" using app by (simp_all add: votes_append_def)
  moreover have "signatures vs \<subseteq> signatures (vs @ [v])" by (auto simp: signatures_def)
  ultimately show ?thesis
    using inv True assembled_mono unfolding assemble_inv_def by (auto simp: insert_absorb)
next
  case False
  let ?u = "insert (vote_author v) (va_used ag)" and ?q = "unat (stake_quorum c)"
  let ?vs = "va_votes ag @ [(vote_author v, vote_signature v)]" and ?w = "va_weight ag + stake c (vote_author v)"
  have used: "va_used ag = vote_author ` set vs" "fst ` set (va_votes ag) = va_used ag"
    "distinct (map fst (va_votes ag))" "set (va_votes ag) \<subseteq> signatures vs"
    using inv by (simp_all add: assemble_inv_def)
  have S: "votes_stake c ?u = votes_stake c (va_used ag) + unat (stake c (vote_author v))"
    using False used(1) by (simp add: votes_stake_insert)
  have sub: "?u \<subseteq> fst ` set (members c)" using mem used(1) by auto
  note bounds = votes_stake_bounds [OF ok sub]
  have "unat (va_weight ag) \<le> votes_stake c (va_used ag)"
    using inv by (auto simp: assemble_inv_def split: if_splits)
  then have w: "unat ?w = unat (va_weight ag) + unat (stake c (vote_author v))"
    using bounds(1) S by (intro unat_add_small) simp
  have new: "va_used ag' = ?u" "va_votes ag' = ?vs" using app False by (auto simp: votes_append_def Let_def split: if_splits)
  have sigs: "set ?vs \<subseteq> signatures (vs @ [v])" "distinct (map fst ?vs)" "fst ` set ?vs = ?u"
    using used False by (auto simp: signatures_def)
  show ?thesis
  proof (cases "votes_stake c (va_used ag) < ?q")
    case before: True
    then have xs: "xs = []" "unat ?w = votes_stake c ?u" using inv S w by (simp_all add: assemble_inv_def)
    show ?thesis
    proof (cases "stake_quorum c \<le> ?w")
      case True
      then have q: "?q \<le> votes_stake c ?u" using xs(2) by (simp add: word_le_nat_alt)
      have r: "r = Inr (Some \<lparr>header = h, cert_votes = ?vs\<rparr>)" "va_weight ag' = 0"
        using app False True by (auto simp: votes_append_def Let_def)
      have "assembled c h (vs @ [v]) \<lparr>header = h, cert_votes = ?vs\<rparr>"
        using sigs q unfolding assembled_def by simp
      then show ?thesis using sigs q new r used(1) xs(1) by (simp add: assemble_inv_def)
    next
      case notq: False
      then have q: "votes_stake c ?u < ?q" using xs(2) by (simp add: word_le_nat_alt)
      have r: "r = Inr None" "va_weight ag' = ?w"
        using app False notq by (auto simp: votes_append_def Let_def)
      then show ?thesis using sigs q new used(1) xs by (simp add: assemble_inv_def)
    qed
  next
    case after: False
    then obtain x where x: "xs = [x]" "assembled c h vs x" "unat (va_weight ag) + ?q \<le> votes_stake c (va_used ag)"
      using inv by (auto simp: assemble_inv_def)
    then have "\<not> stake_quorum c \<le> ?w" using w S bounds(2) by (simp add: word_le_nat_alt)
    then have r: "r = Inr None" "va_weight ag' = ?w"
      using app False by (auto simp: votes_append_def Let_def)
    have "?q \<le> votes_stake c ?u" "unat ?w + ?q \<le> votes_stake c ?u" using after S w x(3) by simp_all
    then show ?thesis
      using sigs new r used(1) x(1) assembled_mono [OF x(2)] by (simp add: assemble_inv_def)
  qed
qed

lemma assemble_inv_all:
  assumes "stake_ok c"
  shows "\<lbrakk>vote_author ` set vs \<subseteq> fst ` set (members c); assemble c h vs votes_aggregator_new = (xs, ag)\<rbrakk>
    \<Longrightarrow> assemble_inv c h vs xs ag"
proof (induction vs arbitrary: xs ag rule: rev_induct)
  case Nil
  then show ?case
    using stake_thresholds(2) [OF assms] by (auto simp: assemble_inv_def votes_aggregator_new_def votes_stake_def)
next
  case (snoc v vs)
  obtain xs1 ag1 where a: "assemble c h vs votes_aggregator_new = (xs1, ag1)" by fastforce
  obtain r ag2 where b: "votes_append c h v ag1 = (r, ag2)" by fastforce
  have "assemble_inv c h vs xs1 ag1" using snoc.IH [OF _ a] snoc.prems(1) by simp
  from assemble_inv_append [OF assms snoc.prems(1) this b] show ?case
    using snoc.prems(2) a b by (simp add: assemble_snoc)
qed

section \<open>Assembled certificates are accepted\<close>

lemma cert_weight_exists:
  "\<lbrakk>distinct (map fst vs); fst ` set vs \<inter> used = {}; \<forall>n \<in> fst ` set vs. 0 < stake c n\<rbrakk>
   \<Longrightarrow> \<exists>w'. cert_weight c vs used w = Inr w'"
  by (induction c vs used w rule: cert_weight.induct) (auto simp: ensure_def)

lemma vote_verified:
  assumes "vote_verify sha512 sig_ok c v = Inr ()"
  shows "0 < stake c (vote_author v)" "sig_ok (vote_digest sha512 v) (vote_author v) (vote_signature v)"
  using assms by (auto simp: vote_verify_def ensure_def split: if_splits)

lemma assembled_verify:
  assumes ok: "stake_ok c" and x: "assembled c h vs x"
    and votes: "\<And>v. v \<in> set vs \<Longrightarrow> vote_verify sha512 sig_ok c v = Inr () \<and> vote_id v = header_id h \<and>
      vote_origin v = author h \<and> vote_round v = round h"
    and h: "header_verify sha512 sig_ok c h = Inr ()"
    and batch: "\<And>d ps. (\<And>k s. (k, s) \<in> set ps \<Longrightarrow> sig_ok d k s) \<Longrightarrow> batch_ok d ps"
  shows "cert_verify sha512 sig_ok batch_ok c x = Inr ()"
proof -
  have xs: "header x = h" "distinct (map fst (cert_votes x))" "set (cert_votes x) \<subseteq> signatures vs"
    "unat (stake_quorum c) \<le> votes_stake c (fst ` set (cert_votes x))"
    using x by (simp_all add: assembled_def)
  have signed: "0 < stake c k \<and> sig_ok (cert_digest sha512 x) k s" if ks: "(k, s) \<in> set (cert_votes x)" for k s
  proof -
    obtain v where v: "v \<in> set vs" "k = vote_author v" "s = vote_signature v"
      using xs(3) ks unfolding signatures_def by blast
    have "vote_digest sha512 v = cert_digest sha512 x"
      using votes [OF v(1)] xs(1) by (simp add: vote_digest_def cert_digest_def cert_round_def origin_def)
    then show ?thesis using vote_verified [of sha512 sig_ok c v] votes [OF v(1)] v by simp
  qed
  obtain w where w: "cert_weight c (cert_votes x) {} 0 = Inr w"
    using cert_weight_exists [of "cert_votes x" "{}" c 0] xs(2) signed by fastforce
  have "unat w = votes_stake c (fst ` set (cert_votes x))"
    using cert_weight_Inr [OF w _ _ ok] by (simp add: votes_stake_def)
  then have "stake_quorum c \<le> w" using xs(4) by (simp add: word_le_nat_alt)
  moreover have "batch_ok (cert_digest sha512 x) (cert_votes x)" using batch signed by blast
  ultimately show ?thesis using h w xs(1) by (simp add: cert_verify_def ensure_def)
qed

end
