(* ===== verification/WorkerNode.thy ===== *)
theory WorkerNode
  imports Aggregation
begin

text \<open>
  A Narwhal worker (\<open>narwhal/worker/src\<close>): the batch maker, the quorum waiter and the processor form a
  pipeline from the transactions of the clients to digests at the primary; the receiver handler,
  the helper and the synchronizer exchange batches with other workers.

  \<open>bincode\<close>, the hash and the store are parameters. The acknowledgements of a broadcast arrive in an
  order that the network chooses: it is part of the input of a step, like the clock and the choice of
  \<open>lucky_broadcast\<close>.
\<close>

section \<open>State and messages\<close>

type_synonym Batch = "u8 list list"

datatype WorkerMessage =
    WBatch Batch
  | WBatchRequest "Digest list" PublicKey

datatype WorkerPrimaryMessage =
    OurBatch Digest u32
  | OthersBatch Digest u32

text \<open>A handler is the pending send of the batch to an address of another authority.\<close>

record QuorumWaiterMessage =
  qw_batch :: "u8 list"
  qw_handlers :: "(PublicKey \<times> SocketAddr) list"

record 'db WorkerEnv =
  w_name :: PublicKey
  w_id :: u32
  w_committee :: NarwhalCommittee
  w_batch_size :: usize
  w_gc_depth :: Round
  w_sync_retry_delay :: nat
  w_sync_retry_nodes :: usize
  w_sha512 :: "u8 list \<Rightarrow> u8 list"
  w_enc :: "WorkerMessage \<Rightarrow> u8 list"
  w_dec :: "u8 list \<Rightarrow> string + WorkerMessage"
  w_get :: "u8 list \<Rightarrow> 'db \<Rightarrow> string + u8 list option"
  w_put :: "u8 list \<Rightarrow> u8 list \<Rightarrow> 'db \<Rightarrow> 'db"

record 'db WorkerState =
  current_batch :: Batch
  current_batch_size :: usize
  worker_db :: 'db

definition worker_new :: "'db \<Rightarrow> 'db WorkerState" where
  "worker_new db = \<lparr>current_batch = [], current_batch_size = 0, worker_db = db\<rparr>"

section \<open>Batch maker\<close>

datatype BatchInput = ClientTransaction "u8 list" | BatchTimer

text \<open>The other workers with our identifier, to which a batch is broadcast.\<close>

definition workers_addresses :: "'db WorkerEnv \<Rightarrow> (PublicKey \<times> SocketAddr) list" where
  "workers_addresses e =
     map (\<lambda>(n, a). (n, worker_to_worker a)) (others_workers (w_committee e) (w_name e) (w_id e))"

definition seal :: "'db WorkerEnv \<Rightarrow> 'db WorkerState \<Rightarrow> QuorumWaiterMessage \<times> 'db WorkerState" where
  "seal e s =
     (\<lparr>qw_batch = w_enc e (WBatch (current_batch s)), qw_handlers = workers_addresses e\<rparr>,
      s\<lparr>current_batch_size := 0, current_batch := []\<rparr>)"

fun batch_maker_step :: "'db WorkerEnv \<Rightarrow> BatchInput \<Rightarrow> 'db WorkerState \<Rightarrow> QuorumWaiterMessage list \<times> 'db WorkerState" where
  "batch_maker_step e (ClientTransaction t) s =
     (let s1 = s\<lparr>current_batch_size := current_batch_size s + length t, current_batch := current_batch s @ [t]\<rparr>
      in if current_batch_size s1 \<ge> w_batch_size e then let (m, s2) = seal e s1 in ([m], s2) else ([], s1))"
| "batch_maker_step e BatchTimer s =
     (if current_batch s \<noteq> [] then let (m, s1) = seal e s in ([m], s1) else ([], s))"

section \<open>Quorum waiter\<close>

text \<open>The handlers that complete, in order; the batch is delivered as soon as they make a quorum.\<close>

fun wait_for_quorum :: "NarwhalCommittee \<Rightarrow> Stake \<Rightarrow> PublicKey list \<Rightarrow> bool" where
  "wait_for_quorum c total_stake [] = False"
| "wait_for_quorum c total_stake (n # ns) =
     (let total1 = total_stake + stake c n in if total1 \<ge> stake_quorum c then True else wait_for_quorum c total1 ns)"

definition quorum_waiter_step :: "'db WorkerEnv \<Rightarrow> QuorumWaiterMessage \<times> PublicKey list \<Rightarrow> u8 list list" where
  "quorum_waiter_step e = (\<lambda>(m, acks).
     if wait_for_quorum (w_committee e) (stake (w_committee e) (w_name e)) acks then [qw_batch m] else [])"

section \<open>Processor\<close>

definition batch_digest :: "'db WorkerEnv \<Rightarrow> u8 list \<Rightarrow> Digest" where
  "batch_digest e b = take 32 (w_sha512 e b)"

definition processor_step :: "'db WorkerEnv \<Rightarrow> bool \<Rightarrow> u8 list \<Rightarrow> 'db WorkerState \<Rightarrow> WorkerPrimaryMessage \<times> 'db WorkerState" where
  "processor_step e own_digest b s =
     (let d = batch_digest e b
      in (if own_digest then OurBatch d (w_id e) else OthersBatch d (w_id e),
          s\<lparr>worker_db := w_put e d b (worker_db s)\<rparr>))"

fun processor_all ::
  "'db WorkerEnv \<Rightarrow> bool \<Rightarrow> u8 list list \<Rightarrow> 'db WorkerState \<Rightarrow> WorkerPrimaryMessage list \<times> 'db WorkerState" where
  "processor_all e own_digest [] s = ([], s)"
| "processor_all e own_digest (b # bs) s =
     (let (m, s1) = processor_step e own_digest b s; (ms, s2) = processor_all e own_digest bs s1 in (m # ms, s2))"

section \<open>Messages of other workers\<close>

datatype Dispatch = ToProcessor "u8 list" | ToHelper "Digest list" PublicKey | Dropped

definition worker_dispatch :: "'db WorkerEnv \<Rightarrow> u8 list \<Rightarrow> Dispatch" where
  "worker_dispatch e bytes =
     (case w_dec e bytes of
        Inr (WBatch _) \<Rightarrow> ToProcessor bytes
      | Inr (WBatchRequest missing requestor) \<Rightarrow> ToHelper missing requestor
      | Inl _ \<Rightarrow> Dropped)"

definition helper_step :: "'db WorkerEnv \<Rightarrow> Digest list \<Rightarrow> PublicKey \<Rightarrow> 'db \<Rightarrow> (SocketAddr \<times> u8 list) list" where
  "helper_step e ds requestor db =
     (case worker (w_committee e) requestor (w_id e) of
        Inl _ \<Rightarrow> []
      | Inr a \<Rightarrow>
          concat (map (\<lambda>d. case w_get e d db of Inr (Some data) \<Rightarrow> [(worker_to_worker a, data)] | _ \<Rightarrow> []) ds))"

text \<open>What a worker does with bytes of another worker.\<close>

definition worker_receive ::
  "'db WorkerEnv \<Rightarrow> u8 list \<Rightarrow> 'db WorkerState \<Rightarrow> WorkerPrimaryMessage list \<times> (SocketAddr \<times> u8 list) list \<times> 'db WorkerState" where
  "worker_receive e bytes s =
     (case worker_dispatch e bytes of
        ToProcessor b \<Rightarrow> (let (m, s1) = processor_step e False b s in ([m], [], s1))
      | ToHelper ds requestor \<Rightarrow> ([], helper_step e ds requestor (worker_db s), s)
      | Dropped \<Rightarrow> ([], [], s))"

section \<open>The pipeline\<close>

datatype WorkerEvent = ClientEvent BatchInput "PublicKey list" | PeerEvent "u8 list"

text \<open>A step returns the sealed batches with their acknowledgements and the messages to the primary.\<close>

fun worker_node_step ::
  "'db WorkerEnv \<Rightarrow> WorkerEvent \<Rightarrow> 'db WorkerState
   \<Rightarrow> (QuorumWaiterMessage \<times> PublicKey list) list \<times> WorkerPrimaryMessage list \<times> 'db WorkerState" where
  "worker_node_step e (ClientEvent i acks) s =
     (let (ms, s1) = batch_maker_step e i s;
          sealed = map (\<lambda>m. (m, acks)) ms;
          (out, s2) = processor_all e True (concat (map (quorum_waiter_step e) sealed)) s1
      in (sealed, out, s2))"
| "worker_node_step e (PeerEvent bytes) s = (let (out, _, s1) = worker_receive e bytes s in ([], out, s1))"

fun worker_run ::
  "'db WorkerEnv \<Rightarrow> WorkerEvent list \<Rightarrow> 'db WorkerState
   \<Rightarrow> (QuorumWaiterMessage \<times> PublicKey list) list \<times> WorkerPrimaryMessage list \<times> 'db WorkerState" where
  "worker_run e [] s = ([], [], s)"
| "worker_run e (ev # evs) s =
     (let (b1, o1, s1) = worker_node_step e ev s; (b2, o2, s2) = worker_run e evs s1 in (b1 @ b2, o1 @ o2, s2))"

section \<open>Synchronizer\<close>

record SyncState =
  sync_round :: Round
  sync_pending :: "(Digest \<times> Round \<times> nat) list"

definition sync_new :: SyncState where
  "sync_new = \<lparr>sync_round = 0, sync_pending = []\<rparr>"

datatype SyncInput =
    SyncBatchesOf "Digest list" PublicKey
  | SyncCleanup Round
  | SyncResult "string + Digest option"
  | SyncTimer "SocketAddr list \<Rightarrow> usize \<Rightarrow> SocketAddr list"

text \<open>The digests to request; each is added to the pending ones unless it is pending already.\<close>

fun sync_missing ::
  "'db WorkerEnv \<Rightarrow> 'db \<Rightarrow> nat \<Rightarrow> Digest list \<Rightarrow> SyncState \<Rightarrow> Digest list \<times> SyncState" where
  "sync_missing e db now [] s = ([], s)"
| "sync_missing e db now (d # ds) s =
     (if d \<in> fst ` set (sync_pending s) then sync_missing e db now ds s
      else
        let s1 = s\<lparr>sync_pending := sync_pending s @ [(d, sync_round s, now)]\<rparr> in
        case w_get e d db of
          Inr None \<Rightarrow> let (missing, s2) = sync_missing e db now ds s1 in (d # missing, s2)
        | Inr (Some _) \<Rightarrow> sync_missing e db now ds s1
        | Inl _ \<Rightarrow> sync_missing e db now ds s)"

fun synchronizer_step ::
  "'db WorkerEnv \<Rightarrow> 'db \<Rightarrow> nat \<Rightarrow> SyncInput \<Rightarrow> SyncState \<Rightarrow> (SocketAddr \<times> WorkerMessage) list \<times> SyncState" where
  "synchronizer_step e db now (SyncBatchesOf ds target) s =
     (let (missing, s1) = sync_missing e db now ds s in
      case worker (w_committee e) target (w_id e) of
        Inl _ \<Rightarrow> ([], s1)
      | Inr a \<Rightarrow> ([(worker_to_worker a, WBatchRequest missing (w_name e))], s1))"
| "synchronizer_step e db now (SyncCleanup r) s =
     (let s1 = s\<lparr>sync_round := r\<rparr> in
      if r < w_gc_depth e then ([], s1)
      else ([], s1\<lparr>sync_pending := filter (\<lambda>(_, r', _). r' > r - w_gc_depth e) (sync_pending s1)\<rparr>))"
| "synchronizer_step e db now (SyncResult (Inr (Some d))) s =
     ([], s\<lparr>sync_pending := filter (\<lambda>(d', _). d' \<noteq> d) (sync_pending s)\<rparr>)"
| "synchronizer_step e db now (SyncResult _) s = ([], s)"
| "synchronizer_step e db now (SyncTimer lucky) s =
     (let retry = map fst (filter (\<lambda>(_, _, t). t + w_sync_retry_delay e < now) (sync_pending s)) in
      if retry = [] then ([], s)
      else (map (\<lambda>a. (a, WBatchRequest retry (w_name e))) (lucky (map snd (workers_addresses e)) (w_sync_retry_nodes e)), s))"

section \<open>Lemmas on the pipeline\<close>

definition batch_of :: "'db WorkerEnv \<Rightarrow> QuorumWaiterMessage \<Rightarrow> Batch" where
  "batch_of e m = (case w_dec e (qw_batch m) of Inr (WBatch b) \<Rightarrow> b | _ \<Rightarrow> [])"

definition client_transactions :: "WorkerEvent list \<Rightarrow> Batch" where
  "client_transactions evs =
     concat (map (\<lambda>ev. case ev of ClientEvent (ClientTransaction t) _ \<Rightarrow> [t] | _ \<Rightarrow> []) evs)"

definition batch_bytes :: "Batch \<Rightarrow> nat" where
  "batch_bytes b = (\<Sum>t \<leftarrow> b. length t)"

text \<open>A sealed batch is not empty, and was below the size before its last transaction.\<close>

definition batch_ok_size :: "'db WorkerEnv \<Rightarrow> Batch \<Rightarrow> bool" where
  "batch_ok_size e b \<longleftrightarrow> b \<noteq> [] \<and> (butlast b = [] \<or> batch_bytes (butlast b) < w_batch_size e)"

definition reports :: "'db WorkerEnv \<Rightarrow> (QuorumWaiterMessage \<times> PublicKey list) list \<Rightarrow> Digest list" where
  "reports e sealed = map (batch_digest e) (concat (map (quorum_waiter_step e) sealed))"

definition our_reports :: "WorkerPrimaryMessage list \<Rightarrow> Digest list" where
  "our_reports out = concat (map (\<lambda>m. case m of OurBatch d _ \<Rightarrow> [d] | _ \<Rightarrow> []) out)"

definition message_digest :: "WorkerPrimaryMessage \<Rightarrow> Digest" where
  "message_digest m = (case m of OurBatch d _ \<Rightarrow> d | OthersBatch d _ \<Rightarrow> d)"

definition worker_law :: "'db WorkerEnv \<Rightarrow> bool" where
  "worker_law e \<longleftrightarrow> (\<forall>b. w_dec e (w_enc e (WBatch b)) = Inr (WBatch b)) \<and>
     (\<forall>k v k' db. w_get e k' (w_put e k v db) = (if k' = k then Inr (Some v) else w_get e k' db))"

definition batch_stored :: "'db WorkerEnv \<Rightarrow> 'db \<Rightarrow> Digest \<Rightarrow> bool" where
  "batch_stored e db d \<longleftrightarrow> (\<exists>b. w_get e d db = Inr (Some b) \<and> batch_digest e b = d)"

text \<open>The part of the invariant that the batch maker is about.\<close>

definition maker_inv :: "'db WorkerEnv \<Rightarrow> 'db WorkerState \<Rightarrow> bool" where
  "maker_inv e s \<longleftrightarrow> current_batch_size s = batch_bytes (current_batch s) \<and>
     (current_batch s = [] \<or> current_batch_size s < w_batch_size e)"

text \<open>What holds after the batches \<open>sealed\<close>, the messages \<open>out\<close> and the transactions \<open>txs\<close>.\<close>

definition worker_inv ::
  "'db WorkerEnv \<Rightarrow> Batch \<Rightarrow> (QuorumWaiterMessage \<times> PublicKey list) list \<Rightarrow> WorkerPrimaryMessage list \<Rightarrow> 'db WorkerState \<Rightarrow> bool" where
  "worker_inv e txs sealed out s \<longleftrightarrow>
     concat (map (\<lambda>(m, _). batch_of e m) sealed) @ current_batch s = txs \<and>
     list_all (\<lambda>(m, _). batch_ok_size e (batch_of e m)) sealed \<and>
     maker_inv e s \<and> our_reports out = reports e sealed \<and> list_all (\<lambda>m. batch_stored e (worker_db s) (message_digest m)) out"

lemma maker_inv_cong:
  "\<lbrakk>maker_inv e s; current_batch s' = current_batch s; current_batch_size s' = current_batch_size s\<rbrakk> \<Longrightarrow> maker_inv e s'"
  unfolding maker_inv_def by metis

lemma batch_of_seal: "worker_law e \<Longrightarrow> batch_of e (fst (seal e s)) = current_batch s"
  by (simp add: batch_of_def seal_def worker_law_def)

lemma batch_bytes_append: "batch_bytes (b @ [t]) = batch_bytes b + length t"
  by (simp add: batch_bytes_def)

lemma batch_maker_inv:
  assumes law: "worker_law e" and inv: "maker_inv e s" and step: "batch_maker_step e i s = (ms, s')"
  shows "maker_inv e s'" "list_all (\<lambda>m. batch_ok_size e (batch_of e m)) ms" "worker_db s' = worker_db s"
    "concat (map (batch_of e) ms) @ current_batch s' =
       current_batch s @ (case i of ClientTransaction t \<Rightarrow> [t] | BatchTimer \<Rightarrow> [])"
proof -
  have size: "batch_ok_size e (current_batch s)" if "current_batch s \<noteq> []"
  proof -
    have "batch_bytes (butlast (current_batch s)) \<le> batch_bytes (current_batch s)"
      using that by (metis append_butlast_last_id batch_bytes_append le_add1)
    then show ?thesis using inv that by (auto simp: batch_ok_size_def maker_inv_def)
  qed
  have b: "w_dec e (w_enc e (WBatch x)) = Inr (WBatch x)" for x using law by (simp add: worker_law_def)
  have "maker_inv e s' \<and> list_all (\<lambda>m. batch_ok_size e (batch_of e m)) ms \<and> worker_db s' = worker_db s \<and>
     concat (map (batch_of e) ms) @ current_batch s' =
       current_batch s @ (case i of ClientTransaction t \<Rightarrow> [t] | BatchTimer \<Rightarrow> [])"
  proof (cases i)
    case (ClientTransaction t)
    have "batch_ok_size e (current_batch s @ [t])"
      using inv by (auto simp: batch_ok_size_def maker_inv_def)
    then show ?thesis
      using step ClientTransaction inv b
      by (auto simp: seal_def batch_of_def maker_inv_def batch_bytes_def Let_def split: if_splits)
  next
    case BatchTimer
    then show ?thesis
      using step inv b size
      by (auto simp: seal_def batch_of_def maker_inv_def batch_bytes_def Let_def split: if_splits)
  qed
  then show "maker_inv e s'" "list_all (\<lambda>m. batch_ok_size e (batch_of e m)) ms" "worker_db s' = worker_db s"
    "concat (map (batch_of e) ms) @ current_batch s' =
       current_batch s @ (case i of ClientTransaction t \<Rightarrow> [t] | BatchTimer \<Rightarrow> [])" by simp_all
qed

lemma batch_stored_put:
  assumes "worker_law e"
  shows "batch_stored e (w_put e (batch_digest e b) b db) (batch_digest e b)"
    and "batch_stored e db d \<Longrightarrow> batch_stored e (w_put e (batch_digest e b) b db) d"
  using assms by (auto simp: batch_stored_def worker_law_def)

lemma processor_step_simps:
  "processor_step e own b s = (m, s') \<Longrightarrow>
     s' = s\<lparr>worker_db := w_put e (batch_digest e b) b (worker_db s)\<rparr> \<and>
     m = (if own then OurBatch (batch_digest e b) (w_id e) else OthersBatch (batch_digest e b) (w_id e))"
  by (auto simp: processor_step_def Let_def)

lemma processor_all_stored:
  assumes law: "worker_law e"
  shows "processor_all e True bs s = (ms, s') \<Longrightarrow>
    ms = map (\<lambda>b. OurBatch (batch_digest e b) (w_id e)) bs \<and>
    current_batch s' = current_batch s \<and> current_batch_size s' = current_batch_size s \<and>
    (\<forall>d. batch_stored e (worker_db s) d \<longrightarrow> batch_stored e (worker_db s') d) \<and>
    (\<forall>b \<in> set bs. batch_stored e (worker_db s') (batch_digest e b))"
proof (induction bs arbitrary: s ms)
  case Nil
  then show ?case by simp
next
  case (Cons b bs)
  obtain m s1 where a: "processor_step e True b s = (m, s1)" by fastforce
  obtain ms1 where r: "processor_all e True bs s1 = (ms1, s')" "ms = m # ms1"
    using Cons.prems a by (cases "processor_all e True bs s1") auto
  have s1: "s1 = s\<lparr>worker_db := w_put e (batch_digest e b) b (worker_db s)\<rparr>"
    "m = OurBatch (batch_digest e b) (w_id e)" using processor_step_simps [OF a] by simp_all
  from Cons.IH [OF r(1)] show ?case using batch_stored_put [OF law] by (simp add: s1 r(2))
qed

lemma our_reports_simps [simp]:
  "our_reports (out @ out') = our_reports out @ our_reports out'"
  "our_reports (map (\<lambda>b. OurBatch (f b) i) bs) = map f bs"
  "our_reports [OthersBatch d i] = []"
  "our_reports [] = []"
  by (simp_all add: our_reports_def comp_def)

lemma reports_append: "reports e (a @ b) = reports e a @ reports e b"
  by (simp add: reports_def)

lemma client_transactions_append: "client_transactions (a @ b) = client_transactions a @ client_transactions b"
  by (simp add: client_transactions_def)

lemma worker_client_inv:
  assumes law: "worker_law e" and inv: "worker_inv e txs sealed out s"
    and step: "worker_node_step e (ClientEvent i acks) s = (b, o1, s')"
  shows "worker_inv e (txs @ client_transactions [ClientEvent i acks]) (sealed @ b) (out @ o1) s'"
proof -
  obtain ms s1 where m: "batch_maker_step e i s = (ms, s1)" by fastforce
  define bs where "bs = concat (map (quorum_waiter_step e) (map (\<lambda>m. (m, acks)) ms))"
  obtain o2 s2 where p: "processor_all e True bs s1 = (o2, s2)" by fastforce
  have eq: "b = map (\<lambda>m. (m, acks)) ms" "o1 = o2" "s' = s2" using step m p by (auto simp: bs_def Let_def)
  have "maker_inv e s" using inv by (simp add: worker_inv_def)
  note mk = batch_maker_inv [OF law this m] and pr = processor_all_stored [OF law p]
  have i: "concat (map (\<lambda>(m, _). batch_of e m) sealed) @ current_batch s = txs"
    "list_all (\<lambda>(m, _). batch_ok_size e (batch_of e m)) sealed" "our_reports out = reports e sealed"
    "list_all (\<lambda>m. batch_stored e (worker_db s) (message_digest m)) out"
    using inv by (simp_all add: worker_inv_def)
  have "client_transactions [ClientEvent i acks] = (case i of ClientTransaction t \<Rightarrow> [t] | BatchTimer \<Rightarrow> [])"
    by (simp add: client_transactions_def split: BatchInput.splits)
  then have "concat (map (\<lambda>(m, _). batch_of e m) (sealed @ b)) @ current_batch s' =
      txs @ client_transactions [ClientEvent i acks]"
    using i(1) mk(4) pr eq by (simp add: comp_def)
  moreover have "list_all (\<lambda>(m, _). batch_ok_size e (batch_of e m)) (sealed @ b)"
    using i(2) mk(2) eq(1) by (simp add: list.pred_map comp_def)
  moreover have "our_reports (out @ o1) = reports e (sealed @ b)"
    using i(3) pr eq by (simp add: reports_append reports_def bs_def)
  moreover have "list_all (\<lambda>m. batch_stored e (worker_db s') (message_digest m)) (out @ o1)"
    using i(4) pr eq mk(3) by (auto simp: list_all_iff message_digest_def)
  moreover have "maker_inv e s'" using mk(1) pr eq maker_inv_cong by blast
  ultimately show ?thesis by (simp add: worker_inv_def)
qed

lemma worker_peer_inv:
  assumes law: "worker_law e" and inv: "worker_inv e txs sealed out s"
    and step: "worker_node_step e (PeerEvent bytes) s = (b, o1, s')"
  shows "worker_inv e (txs @ client_transactions [PeerEvent bytes]) (sealed @ b) (out @ o1) s'"
proof (cases "\<exists>x. worker_dispatch e bytes = ToProcessor x")
  case True
  then obtain x where "worker_dispatch e bytes = ToProcessor x" by blast
  then have eq: "b = []" "o1 = [OthersBatch (batch_digest e x) (w_id e)]"
    "s' = s\<lparr>worker_db := w_put e (batch_digest e x) x (worker_db s)\<rparr>"
    using step by (auto simp: worker_receive_def processor_step_def Let_def)
  have "list_all (\<lambda>m. batch_stored e (worker_db s) (message_digest m)) out"
    using inv by (simp add: worker_inv_def)
  then have "list_all (\<lambda>m. batch_stored e (worker_db s') (message_digest m)) (out @ o1)"
    using batch_stored_put [OF law, where b = x and db = "worker_db s"] by (simp add: eq list_all_iff message_digest_def)
  moreover have "maker_inv e s'" using inv eq(3) maker_inv_cong [of e s s'] by (simp add: worker_inv_def)
  ultimately show ?thesis using inv unfolding worker_inv_def eq by (simp add: client_transactions_def)
next
  case False
  then have "b = []" "o1 = []" "s' = s"
    using step by (auto simp: worker_receive_def Let_def split: Dispatch.splits)
  then show ?thesis using inv by (simp add: client_transactions_def)
qed

lemma worker_run_inv:
  assumes "worker_law e"
  shows "\<lbrakk>worker_inv e txs sealed out s; worker_run e evs s = (b, o1, s')\<rbrakk>
    \<Longrightarrow> worker_inv e (txs @ client_transactions evs) (sealed @ b) (out @ o1) s'"
proof (induction evs arbitrary: txs sealed out s b o1)
  case Nil
  then show ?case by (simp add: client_transactions_def)
next
  case (Cons ev evs)
  obtain b1 o2 s1 where a: "worker_node_step e ev s = (b1, o2, s1)" by (metis prod_cases3)
  obtain b2 o3 where r: "worker_run e evs s1 = (b2, o3, s')" "b = b1 @ b2" "o1 = o2 @ o3"
    using Cons.prems(2) a by (cases "worker_run e evs s1") auto
  have "worker_inv e (txs @ client_transactions [ev]) (sealed @ b1) (out @ o2) s1"
    using worker_client_inv [OF assms Cons.prems(1)] worker_peer_inv [OF assms Cons.prems(1)] a
    by (cases ev) simp_all
  from Cons.IH [OF this r(1)] show ?case
    using client_transactions_append [of "[ev]" evs] by (simp add: r)
qed

lemma worker_new_inv: "worker_inv e [] [] [] (worker_new db)"
  by (simp add: worker_inv_def maker_inv_def worker_new_def batch_bytes_def reports_def)

section \<open>Lemmas on the quorum waiter\<close>

lemma wait_for_quorum_iff:
  assumes "stake_ok c"
  shows "\<lbrakk>set acks \<union> A \<subseteq> fst ` set (members c); distinct acks; set acks \<inter> A = {}; unat w = votes_stake c A\<rbrakk> \<Longrightarrow>
    wait_for_quorum c w acks \<longleftrightarrow> acks \<noteq> [] \<and> unat (stake_quorum c) \<le> votes_stake c (A \<union> set acks)"
proof (induction acks arbitrary: A w)
  case (Cons n acks)
  let ?A = "insert n A"
  have fin: "finite A" using Cons.prems(1) finite_subset by blast
  have S: "votes_stake c ?A = votes_stake c A + unat (stake c n)"
    using Cons.prems(3) fin by (simp add: votes_stake_insert)
  have "votes_stake c ?A < 2 ^ 32" using votes_stake_bounds(1) [OF assms, of ?A] Cons.prems(1) by simp
  then have w: "unat (w + stake c n) = votes_stake c ?A"
    using S Cons.prems(4) unat_add_small [of w "stake c n"] by simp
  have mono: "votes_stake c ?A \<le> votes_stake c (A \<union> set (n # acks))"
    using fin unfolding votes_stake_def by (intro sum_mono2) auto
  show ?case
  proof (cases "unat (stake_quorum c) \<le> votes_stake c ?A")
    case True
    then show ?thesis using w mono by (simp add: word_le_nat_alt)
  next
    case False
    have "wait_for_quorum c (w + stake c n) acks \<longleftrightarrow>
        acks \<noteq> [] \<and> unat (stake_quorum c) \<le> votes_stake c (?A \<union> set acks)"
      using Cons.IH [of ?A "w + stake c n"] Cons.prems w by auto
    then show ?thesis using False w by (auto simp: word_le_nat_alt Let_def)
  qed
qed simp

section \<open>Lemmas on the synchronizer\<close>

text \<open>A digest is requested only when it is not pending, and it is pending then.\<close>

lemma sync_missing_inv:
  "\<lbrakk>distinct (map fst (sync_pending s)); sync_missing e db now ds s = (missing, s')\<rbrakk> \<Longrightarrow>
    distinct (map fst (sync_pending s')) \<and> distinct missing \<and>
    set missing \<inter> fst ` set (sync_pending s) = {} \<and> set missing \<subseteq> fst ` set (sync_pending s') \<and>
    fst ` set (sync_pending s) \<subseteq> fst ` set (sync_pending s')"
proof (induction ds arbitrary: s missing s')
  case (Cons d ds)
  define s1 where "s1 = s\<lparr>sync_pending := sync_pending s @ [(d, sync_round s, now)]\<rparr>"
  show ?case
  proof (cases "d \<in> fst ` set (sync_pending s)")
    case True
    then show ?thesis using Cons.IH [OF Cons.prems(1)] Cons.prems(2) by simp
  next
    case False
    have s1: "distinct (map fst (sync_pending s1))" "fst ` set (sync_pending s1) = insert d (fst ` set (sync_pending s))"
      using False Cons.prems(1) by (simp_all add: s1_def)
    obtain ms s2 where r: "sync_missing e db now ds s1 = (ms, s2)" by fastforce
    note IH = Cons.IH [OF s1(1) r]
    consider (none) "w_get e d db = Inr None" | (some) v where "w_get e d db = Inr (Some v)"
      | (err) m where "w_get e d db = Inl m" by (metis not_None_eq old.sum.exhaust)
    then show ?thesis
    proof cases
      case none
      then have "missing = d # ms" "s' = s2"
        using Cons.prems(2) False r by (simp_all add: s1_def Let_def)
      then show ?thesis using IH s1(2) False by auto
    next
      case some
      then have "missing = ms" "s' = s2" using Cons.prems(2) False r by (simp_all add: s1_def Let_def)
      then show ?thesis using IH s1(2) by auto
    next
      case err
      then have "sync_missing e db now ds s = (missing, s')" using Cons.prems(2) False by (simp add: Let_def)
      then show ?thesis using Cons.IH [OF Cons.prems(1)] by blast
    qed
  qed
qed auto

lemma synchronizer_distinct:
  assumes "distinct (map fst (sync_pending s))" "synchronizer_step e db now i s = (out, s')"
  shows "distinct (map fst (sync_pending s'))"
proof -
  have filt: "distinct (map fst (filter P (sync_pending s)))" for P
    using assms(1) by (rule distinct_map_filter)
  show ?thesis
  proof (cases "(e, db, now, i, s)" rule: synchronizer_step.cases)
    case (1 e db now ds target s)
    obtain ms s1 where "sync_missing e db now ds s = (ms, s1)" by fastforce
    then show ?thesis
      using 1 assms sync_missing_inv [of s e db now ds ms s1] by (auto split: sum.splits)
  qed (use assms filt in \<open>auto simp: Let_def split: if_splits\<close>)
qed

end
