(* ===== verification/Waiters.thy ===== *)
theory Waiters
  imports PrimaryCore
begin

text \<open>
  The tasks of a primary that synchronize with others: the header waiter (\<open>header_waiter.rs\<close>), the
  certificate waiter (\<open>certificate_waiter.rs\<close>), the helper (\<open>helper.rs\<close>) and the network handlers
  (\<open>primary.rs\<close>). A future of a pool is a record of the keys it waits for; that it completes, the clock
  and the choice of \<open>lucky_broadcast\<close> are inputs.
\<close>

section \<open>Network handlers and helper\<close>

datatype PrimaryDispatch = ToCore PrimaryMessage | ToCertHelper "Digest list" PublicKey

fun primary_dispatch :: "string + PrimaryMessage \<Rightarrow> PrimaryDispatch DagResult" where
  "primary_dispatch (Inl m) = Inl (SerializationError m)"
| "primary_dispatch (Inr (MCertificatesRequest missing requestor)) = Inr (ToCertHelper missing requestor)"
| "primary_dispatch (Inr request) = Inr (ToCore request)"

fun primary_helper_replies :: "'db PrimaryEnv \<Rightarrow> SocketAddr \<Rightarrow> 'db \<Rightarrow> Digest list \<Rightarrow> CoreOutput list rust" where
  "primary_helper_replies e a db [] = Inr []"
| "primary_helper_replies e a db (d # ds) =
     (case kv_get e d db of
        Inr (Some data) \<Rightarrow>
          (case dec_cert e data of
             Inl _ \<Rightarrow> Inl ExpectFailed
           | Inr x \<Rightarrow> rbind (primary_helper_replies e a db ds) (\<lambda>out. Inr (SendPrimary a (MCertificate x) # out)))
      | _ \<Rightarrow> primary_helper_replies e a db ds)"

definition primary_helper_step :: "'db PrimaryEnv \<Rightarrow> Digest list \<Rightarrow> PublicKey \<Rightarrow> 'db \<Rightarrow> CoreOutput list rust" where
  "primary_helper_step e ds requestor db =
     (case primary (env_committee e) requestor of
        Inl _ \<Rightarrow> Inr []
      | Inr a \<Rightarrow> primary_helper_replies e (primary_to_primary a) db ds)"

section \<open>Certificate waiter\<close>

definition all_stored :: "'db PrimaryEnv \<Rightarrow> 'db \<Rightarrow> u8 list list \<Rightarrow> bool" where
  "all_stored e db ks \<longleftrightarrow> list_all (\<lambda>k. case kv_get e k db of Inr (Some _) \<Rightarrow> True | _ \<Rightarrow> False) ks"

datatype CertWaiterInput = CwCertificate Certificate | CwReady nat | CwFailed nat

definition remove_nth :: "nat \<Rightarrow> 'a list \<Rightarrow> 'a list" where
  "remove_nth i xs = take i xs @ drop (Suc i) xs"

fun certificate_waiter_step ::
  "'db PrimaryEnv \<Rightarrow> 'db \<Rightarrow> CertWaiterInput \<Rightarrow> (u8 list list \<times> Certificate) list
   \<Rightarrow> (CoreInput list \<times> (u8 list list \<times> Certificate) list) rust" where
  "certificate_waiter_step e db (CwCertificate x) pool = Inr ([], pool @ [(parents (header x), x)])"
| "certificate_waiter_step e db (CwReady i) pool =
     (if i < length pool \<and> all_stored e db (fst (pool ! i))
      then Inr ([FromCertificateWaiter (snd (pool ! i))], remove_nth i pool) else Inr ([], pool))"
| "certificate_waiter_step e db (CwFailed i) pool =
     (if i < length pool then Inl UnreachableReached else Inr ([], pool))"

section \<open>Header waiter\<close>

record HeaderFuture =
  fut_keys :: "u8 list list"
  fut_header :: Header
  fut_cancelled :: bool

record HeaderWaiter =
  parent_requests :: "(Digest \<times> Round \<times> nat) list"
  batch_requests :: "(Digest \<times> Round) list"
  hw_pending :: "(Digest \<times> Round) list"
  hw_waiting :: "HeaderFuture list"

definition header_waiter_new :: HeaderWaiter where
  "header_waiter_new = \<lparr>parent_requests = [], batch_requests = [], hw_pending = [], hw_waiting = []\<rparr>"

record HeaderWaiterEnv =
  hw_name :: PublicKey
  hw_committee :: NarwhalCommittee
  hw_gc_depth :: Round
  hw_retry_delay :: nat
  hw_retry_nodes :: usize

datatype HeaderWaiterInput =
    HwMessage WaiterMessage
  | HwReady nat
  | HwCancelled nat
  | HwFailed nat
  | HwTimer "SocketAddr list \<Rightarrow> usize \<Rightarrow> SocketAddr list"

definition start_waiting :: "u8 list list \<Rightarrow> Header \<Rightarrow> HeaderWaiter \<Rightarrow> HeaderWaiter" where
  "start_waiting ks h w =
     w\<lparr>hw_pending := hw_pending w @ [(header_id h, round h)],
       hw_waiting := hw_waiting w @ [\<lparr>fut_keys = ks, fut_header = h, fut_cancelled = False\<rparr>]\<rparr>"

text \<open>The batches not requested yet, which are recorded as requested, grouped by worker.\<close>

fun request_batches ::
  "Round \<Rightarrow> (Digest \<times> u32) list \<Rightarrow> (Digest \<times> Round) list \<times> (u32 \<times> Digest list) list
   \<Rightarrow> (Digest \<times> Round) list \<times> (u32 \<times> Digest list) list" where
  "request_batches r [] st = st"
| "request_batches r ((d, i) # bs) (reqs, groups) =
     request_batches r bs
       (if d \<in> fst ` set reqs then (reqs, groups)
        else (reqs @ [(d, r)], AList.update i ((case map_of groups i of None \<Rightarrow> [] | Some ds \<Rightarrow> ds) @ [d]) groups))"

fun send_synchronize ::
  "NarwhalCommittee \<Rightarrow> PublicKey \<Rightarrow> (u32 \<times> Digest list) list \<Rightarrow> CoreOutput list rust" where
  "send_synchronize c target [] = Inr []"
| "send_synchronize c target ((i, ds) # gs) =
     (case worker c target i of
        Inl _ \<Rightarrow> Inl ExpectFailed
      | Inr a \<Rightarrow> rbind (send_synchronize c target gs) (\<lambda>out.
          Inr (SendWorker (primary_to_worker a) (Synchronize ds target) # out)))"

fun request_parents ::
  "Round \<Rightarrow> nat \<Rightarrow> Digest list \<Rightarrow> (Digest \<times> Round \<times> nat) list \<Rightarrow> Digest list \<times> (Digest \<times> Round \<times> nat) list" where
  "request_parents r now [] reqs = ([], reqs)"
| "request_parents r now (d # ds) reqs =
     (if d \<in> fst ` set reqs then request_parents r now ds reqs
      else let (new, reqs1) = request_parents r now ds (reqs @ [(d, r, now)]) in (d # new, reqs1))"

fun waiter_message ::
  "HeaderWaiterEnv \<Rightarrow> nat \<Rightarrow> WaiterMessage \<Rightarrow> HeaderWaiter \<Rightarrow> (CoreOutput list \<times> HeaderWaiter) rust" where
  "waiter_message e now (SyncBatches missing h) w =
     (if header_id h \<in> fst ` set (hw_pending w) then Inr ([], w)
      else
        let w1 = start_waiting (map payload_key missing) h w;
            (reqs, groups) = request_batches (round h) missing (batch_requests w1, [])
        in rbind (send_synchronize (hw_committee e) (author h) groups) (\<lambda>out.
             Inr (out, w1\<lparr>batch_requests := reqs\<rparr>)))"
| "waiter_message e now (SyncParents missing h) w =
     (if header_id h \<in> fst ` set (hw_pending w) then Inr ([], w)
      else
        let w1 = start_waiting missing h w;
            (new, reqs) = request_parents (round h) now missing (parent_requests w1);
            w2 = w1\<lparr>parent_requests := reqs\<rparr>
        in if new = [] then Inr ([], w2)
           else case primary (hw_committee e) (author h) of
                  Inl _ \<Rightarrow> Inl ExpectFailed
                | Inr a \<Rightarrow> Inr ([SendPrimary (primary_to_primary a) (MCertificatesRequest new (hw_name e))], w2))"

text \<open>A header whose data has arrived goes back to the core.\<close>

definition header_arrived :: "nat \<Rightarrow> HeaderWaiter \<Rightarrow> HeaderWaiter" where
  "header_arrived i w =
     (let h = fut_header (hw_waiting w ! i)
      in w\<lparr>hw_waiting := remove_nth i (hw_waiting w),
           hw_pending := filter (\<lambda>(d, _). d \<noteq> header_id h) (hw_pending w),
           batch_requests := filter (\<lambda>(d, _). d \<notin> fst ` set (payload h)) (batch_requests w),
           parent_requests := filter (\<lambda>(d, _). d \<notin> set (parents h)) (parent_requests w)\<rparr>)"

definition header_waiter_retry ::
  "HeaderWaiterEnv \<Rightarrow> nat \<Rightarrow> (SocketAddr list \<Rightarrow> usize \<Rightarrow> SocketAddr list) \<Rightarrow> HeaderWaiter \<Rightarrow> CoreOutput list" where
  "header_waiter_retry e now lucky w =
     (let retry = map fst (filter (\<lambda>(_, _, t). t + hw_retry_delay e < now) (parent_requests w));
          addresses = map (\<lambda>(_, a). primary_to_primary a) (others_primaries (hw_committee e) (hw_name e))
      in map (\<lambda>a. SendPrimary a (MCertificatesRequest retry (hw_name e))) (lucky addresses (hw_retry_nodes e)))"

definition header_waiter_cleanup :: "HeaderWaiterEnv \<Rightarrow> Round \<Rightarrow> HeaderWaiter \<Rightarrow> HeaderWaiter" where
  "header_waiter_cleanup e r w =
     (if r > hw_gc_depth e then
        let g = r - hw_gc_depth e;
            cancelled = fst ` set (filter (\<lambda>(_, r'). r' \<le> g) (hw_pending w))
        in w\<lparr>hw_waiting := map (\<lambda>f. if header_id (fut_header f) \<in> cancelled then f\<lparr>fut_cancelled := True\<rparr> else f)
               (hw_waiting w),
             hw_pending := filter (\<lambda>(_, r'). r' > g) (hw_pending w),
             batch_requests := filter (\<lambda>(_, r'). r' > g) (batch_requests w),
             parent_requests := filter (\<lambda>(_, r', _). r' > g) (parent_requests w)\<rparr>
      else w)"

text \<open>A round of the loop: the messages sent, the headers looped back and the new state.\<close>

fun header_waiter_handle ::
  "'db PrimaryEnv \<Rightarrow> HeaderWaiterEnv \<Rightarrow> 'db \<Rightarrow> nat \<Rightarrow> HeaderWaiterInput \<Rightarrow> HeaderWaiter
   \<Rightarrow> (CoreOutput list \<times> CoreInput list \<times> HeaderWaiter) rust" where
  "header_waiter_handle pe e db now (HwMessage m) w =
     rbind (waiter_message e now m w) (\<lambda>(out, w1). Inr (out, [], w1))"
| "header_waiter_handle pe e db now (HwReady i) w =
     (if i < length (hw_waiting w) \<and> all_stored pe db (fut_keys (hw_waiting w ! i))
      then Inr ([], [FromHeaderWaiter (fut_header (hw_waiting w ! i))], header_arrived i w) else Inr ([], [], w))"
| "header_waiter_handle pe e db now (HwCancelled i) w =
     (if i < length (hw_waiting w) \<and> fut_cancelled (hw_waiting w ! i)
      then Inr ([], [], w\<lparr>hw_waiting := remove_nth i (hw_waiting w)\<rparr>) else Inr ([], [], w))"
| "header_waiter_handle pe e db now (HwFailed i) w =
     (if i < length (hw_waiting w) then Inl UnreachableReached else Inr ([], [], w))"
| "header_waiter_handle pe e db now (HwTimer lucky) w = Inr (header_waiter_retry e now lucky w, [], w)"

text \<open>A message about a header that is pending is skipped, together with the clean-up.\<close>

fun message_header :: "WaiterMessage \<Rightarrow> Header" where
  "message_header (SyncBatches missing h) = h"
| "message_header (SyncParents missing h) = h"

definition skips_cleanup :: "HeaderWaiterInput \<Rightarrow> HeaderWaiter \<Rightarrow> bool" where
  "skips_cleanup i w =
     (case i of HwMessage m \<Rightarrow> header_id (message_header m) \<in> fst ` set (hw_pending w) | _ \<Rightarrow> False)"

definition header_waiter_step ::
  "'db PrimaryEnv \<Rightarrow> HeaderWaiterEnv \<Rightarrow> 'db \<Rightarrow> nat \<Rightarrow> Round \<Rightarrow> HeaderWaiterInput \<Rightarrow> HeaderWaiter
   \<Rightarrow> (CoreOutput list \<times> CoreInput list \<times> HeaderWaiter) rust" where
  "header_waiter_step pe e db now r i w =
     rbind (header_waiter_handle pe e db now i w) (\<lambda>(out, back, w1).
       Inr (out, back, if skips_cleanup i w then w1 else header_waiter_cleanup e r w1))"

section \<open>No pending header is forgotten\<close>

definition live_ids :: "HeaderWaiter \<Rightarrow> Digest set" where
  "live_ids w = (\<lambda>f. header_id (fut_header f)) ` {f \<in> set (hw_waiting w). \<not> fut_cancelled f}"

definition header_waiter_inv :: "HeaderWaiter \<Rightarrow> bool" where
  "header_waiter_inv w \<longleftrightarrow> distinct (map fst (hw_pending w)) \<and> fst ` set (hw_pending w) \<subseteq> live_ids w"

lemma set_remove_nth: "set xs \<subseteq> insert (xs ! i) (set (remove_nth i xs))" if "i < length xs"
proof -
  have "xs = take i xs @ xs ! i # drop (Suc i) xs" using that by (rule id_take_nth_drop)
  then have "set xs = set (take i xs @ xs ! i # drop (Suc i) xs)" by simp
  then show ?thesis by (auto simp: remove_nth_def)
qed

lemma live_ids_start: "live_ids (start_waiting ks h w) = insert (header_id h) (live_ids w)"
proof -
  define f where "f = \<lparr>fut_keys = ks, fut_header = h, fut_cancelled = False\<rparr>"
  have f: "\<not> fut_cancelled f" "fut_header f = h" by (simp_all add: f_def)
  have "set (hw_waiting (start_waiting ks h w)) = insert f (set (hw_waiting w))"
    by (simp add: start_waiting_def f_def)
  then have "{g \<in> set (hw_waiting (start_waiting ks h w)). \<not> fut_cancelled g} =
      insert f {g \<in> set (hw_waiting w). \<not> fut_cancelled g}" using f(1) by blast
  then show ?thesis by (simp only: live_ids_def image_insert f(2))
qed

lemma start_waiting_inv:
  "\<lbrakk>header_waiter_inv w; header_id h \<notin> fst ` set (hw_pending w)\<rbrakk> \<Longrightarrow> header_waiter_inv (start_waiting ks h w)"
  unfolding header_waiter_inv_def live_ids_start by (auto simp: start_waiting_def)

lemma header_waiter_inv_cong:
  "\<lbrakk>header_waiter_inv w; hw_pending w' = hw_pending w; hw_waiting w' = hw_waiting w\<rbrakk> \<Longrightarrow> header_waiter_inv w'"
  by (simp add: header_waiter_inv_def live_ids_def)

lemma waiter_message_inv:
  assumes inv: "header_waiter_inv w" and run: "waiter_message e now m w = Inr (out, w')"
  shows "header_waiter_inv w'"
proof (cases "header_id (message_header m) \<in> fst ` set (hw_pending w)")
  case True
  then show ?thesis using assms by (cases m) auto
next
  case False
  show ?thesis
  proof (cases m)
    case (SyncBatches missing h)
    obtain reqs groups where r: "request_batches (round h) missing (batch_requests (start_waiting (map payload_key missing) h w), [])
        = (reqs, groups)" by fastforce
    have "w' = (start_waiting (map payload_key missing) h w)\<lparr>batch_requests := reqs\<rparr>"
      using run False SyncBatches r
      by (cases "send_synchronize (hw_committee e) (author h) groups") (auto simp: Let_def)
    then show ?thesis
      using header_waiter_inv_cong [OF start_waiting_inv [OF inv]] False SyncBatches by simp
  next
    case (SyncParents missing h)
    obtain new reqs where r: "request_parents (round h) now missing (parent_requests (start_waiting missing h w)) = (new, reqs)"
      by fastforce
    have "w' = (start_waiting missing h w)\<lparr>parent_requests := reqs\<rparr>"
      using run False SyncParents r by (auto simp: Let_def split: if_splits sum.splits)
    then show ?thesis
      using header_waiter_inv_cong [OF start_waiting_inv [OF inv]] False SyncParents by simp
  qed
qed

lemma header_arrived_inv:
  assumes "header_waiter_inv w" "i < length (hw_waiting w)"
  shows "header_waiter_inv (header_arrived i w)"
proof -
  let ?h = "fut_header (hw_waiting w ! i)"
  have "d \<in> live_ids (header_arrived i w)" if d: "d \<in> fst ` set (hw_pending w)" "d \<noteq> header_id ?h" for d
  proof -
    obtain f where f: "f \<in> set (hw_waiting w)" "\<not> fut_cancelled f" "d = header_id (fut_header f)"
      using assms(1) d(1) unfolding header_waiter_inv_def live_ids_def by blast
    then have "f \<in> set (remove_nth i (hw_waiting w))" using set_remove_nth [OF assms(2)] d(2) by auto
    then show ?thesis using f by (auto simp: live_ids_def header_arrived_def Let_def)
  qed
  moreover have "distinct (map fst (hw_pending (header_arrived i w)))"
    using assms(1) by (simp add: header_waiter_inv_def header_arrived_def Let_def distinct_map_filter)
  moreover have "fst ` set (hw_pending (header_arrived i w)) \<subseteq> fst ` set (hw_pending w) - {header_id ?h}"
    by (auto simp: header_arrived_def Let_def)
  ultimately show ?thesis unfolding header_waiter_inv_def by blast
qed

lemma header_cancelled_inv:
  assumes "header_waiter_inv w" "i < length (hw_waiting w)" "fut_cancelled (hw_waiting w ! i)"
  shows "header_waiter_inv (w\<lparr>hw_waiting := remove_nth i (hw_waiting w)\<rparr>)"
proof -
  have "live_ids w \<subseteq> live_ids (w\<lparr>hw_waiting := remove_nth i (hw_waiting w)\<rparr>)"
    using set_remove_nth [OF assms(2)] assms(3) by (auto simp: live_ids_def)
  then show ?thesis using assms(1) by (auto simp: header_waiter_inv_def)
qed

lemma header_cleanup_inv:
  assumes "header_waiter_inv w"
  shows "header_waiter_inv (header_waiter_cleanup e r w)"
proof (cases "r > hw_gc_depth e")
  case True
  let ?g = "r - hw_gc_depth e" and ?w = "header_waiter_cleanup e r w"
  have p: "hw_pending ?w = filter (\<lambda>(_, r'). r' > ?g) (hw_pending w)"
    using True by (simp add: header_waiter_cleanup_def Let_def)
  have d: "distinct (map fst (hw_pending w))" using assms by (simp add: header_waiter_inv_def)
  have "k \<in> live_ids ?w" if k: "(k, r') \<in> set (hw_pending w)" "r' > ?g" for k r'
  proof -
    obtain f where f: "f \<in> set (hw_waiting w)" "\<not> fut_cancelled f" "k = header_id (fut_header f)"
      using assms k(1) unfolding header_waiter_inv_def live_ids_def by force
    have "k \<notin> fst ` set (filter (\<lambda>(_, r'). r' \<le> ?g) (hw_pending w))"
      using k d eq_key_imp_eq_value [OF d] by fastforce
    then have "f \<in> set (hw_waiting ?w)"
      using f True by (force simp: header_waiter_cleanup_def Let_def)
    then show ?thesis using f by (auto simp: live_ids_def)
  qed
  then have "fst ` set (hw_pending ?w) \<subseteq> live_ids ?w" by (auto simp: p)
  then show ?thesis using d by (simp add: header_waiter_inv_def p distinct_map_filter)
next
  case False
  then show ?thesis using assms by (simp add: header_waiter_cleanup_def)
qed

lemma header_waiter_step_inv:
  assumes inv: "header_waiter_inv w" and run: "header_waiter_step pe e db now r i w = Inr (out, back, w')"
  shows "header_waiter_inv w'"
proof -
  obtain w1 where h: "header_waiter_handle pe e db now i w = Inr (out, back, w1)"
    and w': "w' = (if skips_cleanup i w then w1 else header_waiter_cleanup e r w1)"
    using run by (cases "header_waiter_handle pe e db now i w") (auto simp: header_waiter_step_def)
  have "header_waiter_inv w1"
  proof (cases i)
    case (HwMessage m)
    then show ?thesis
      using h waiter_message_inv [OF inv] by (cases "waiter_message e now m w") auto
  next
    case (HwReady j)
    then show ?thesis using h inv header_arrived_inv by (auto split: if_splits)
  next
    case (HwCancelled j)
    then show ?thesis using h inv header_cancelled_inv by (auto split: if_splits)
  next
    case (HwFailed j)
    then show ?thesis using h inv by (auto split: if_splits)
  next
    case (HwTimer lucky)
    then show ?thesis using h inv by auto
  qed
  then show ?thesis using w' header_cleanup_inv by simp
qed

end
