(* ===== verification/NarwhalProperties.thy ===== *)
theory NarwhalProperties
  imports PrimaryFeed Proposer Store WorkerNode Waiters ConsensusSamples
begin

text \<open>
  Properties of the primary, the worker and the store of Narwhal, and of a primary together with the
  consensus it feeds.
\<close>

section \<open>A sample primary\<close>

text \<open>A store that is a list, a codec for the sample certificates, and any signature.\<close>

definition list_get :: "u8 list \<Rightarrow> (u8 list \<times> u8 list) list \<Rightarrow> string + u8 list option" where
  "list_get k db = Inr (map_of db k)"

definition list_put :: "u8 list \<Rightarrow> u8 list \<Rightarrow> (u8 list \<times> u8 list) list \<Rightarrow> (u8 list \<times> u8 list) list" where
  "list_put k v db = (k, v) # db"

definition sample_env :: "(u8 list \<times> u8 list) list PrimaryEnv" where
  "sample_env =
     \<lparr>env_name = [0], env_committee = sample_committee, env_gc_depth = 50, sha512_of = short_hash,
      sign_of = (\<lambda>_. signature_default), sig_valid = (\<lambda>_ _ _. True), batch_valid = (\<lambda>_ _. True),
      kv_get = list_get, kv_put = list_put, enc_header = (\<lambda>_. []),
      enc_cert = (\<lambda>x. origin x @ [of_nat (cert_round x)]),
      dec_cert = (\<lambda>bs. Inr (sample_cert (hd bs) (unat (last bs)) []))\<rparr>"

text \<open>
  A certificate of round two, which has to wait, three certificates of round one, and the header and
  the certificate of round two again.
\<close>

definition sample_events :: "PrimaryEvent list" where
  "sample_events =
     CoreEvent (FromCertificateWaiter (sample_cert 1 2 [0, 1, 2])) #
     map (\<lambda>a. CoreEvent (FromCertificateWaiter (sample_cert a 1 [0, 1, 2]))) [0, 1, 2] @
     [PayloadEvent [7] 1, CoreEvent (FromHeaderWaiter (header (sample_cert 1 2 [0, 1, 2]))),
      CoreEvent (FromCertificateWaiter (sample_cert 1 2 [0, 1, 2])), CommittedEvent (sample_cert 1 2 [0, 1, 2])]"

definition sample_fed :: "Certificate list" where
  "sample_fed = map (\<lambda>a. sample_cert a 1 [0, 1, 2]) [0, 1, 2] @ [sample_cert 1 2 [0, 1, 2]]"

definition sample_run :: "((u8 list \<times> u8 list) list Primary \<times> CoreOutput list) rust" where
  "sample_run = rbind (primary_new sample_env []) (primary_run sample_env sample_events)"

lemma sample_run_outputs:
  "(case sample_run of Inl _ \<Rightarrow> False | Inr (p, out) \<Rightarrow>
      to_consensus out = sample_fed \<and> map vote_slot (votes_sent out) = [(2, [1])])"
  by code_simp

lemma sample_runE:
  obtains p0 p out where "primary_new sample_env [] = Inr p0" "primary_run sample_env sample_events p0 = Inr (p, out)"
    "to_consensus out = sample_fed" "map vote_slot (votes_sent out) = [(2, [1])]"
proof -
  obtain p out where r: "sample_run = Inr (p, out)" "to_consensus out = sample_fed" "map vote_slot (votes_sent out) = [(2, [1])]"
    using sample_run_outputs by (simp split: sum.splits prod.splits)
  then obtain p0 where n: "primary_new sample_env [] = Inr p0" "primary_run sample_env sample_events p0 = Inr (p, out)"
    unfolding sample_run_def by (cases "primary_new sample_env []") simp_all
  show ?thesis by (rule that [OF n r(2,3)])
qed

section \<open>Votes\<close>

text \<open>
  C35. A primary votes at most once for an author and a round: over any run of the core, the payload
  receiver and the garbage collector, the votes sent for rounds that have not been garbage collected
  are for different pairs of round and author, every vote is signed by the primary over its own
  content, and the rounds collected stay behind the consensus by the configured depth.
\<close>

theorem primary_votes_once:
  assumes "primary_new e db = Inr p0" and "primary_run e evs p0 = Inr (p, out)"
  shows "distinct (map vote_slot (filter (\<lambda>v. gc_round (core p) \<le> vote_round v) (votes_sent out)))
    \<and> list_all (vote_signed e) (votes_sent out) \<and> gc_round (core p) \<le> consensus_round p - env_gc_depth e"
  using vote_inv_run [OF assms(2) vote_inv_new [OF assms(1)]] unfolding vote_inv_def Let_def append_Nil by blast

theorem primary_votes_once_witness:
  "\<exists>p out. sample_run = Inr (p, out) \<and> votes_sent out \<noteq> [] \<and> list_all (vote_signed sample_env) (votes_sent out)"
proof (rule sample_runE)
  fix p0 p out
  assume r: "primary_new sample_env [] = Inr p0" "primary_run sample_env sample_events p0 = Inr (p, out)"
    "map vote_slot (votes_sent out) = [(2, [1])]"
  then have "votes_sent out \<noteq> []" by auto
  with r primary_votes_once [OF r(1,2)] show ?thesis by (simp add: sample_run_def)
qed

section \<open>Certificates handed to the consensus\<close>

text \<open>
  C36. A primary feeds its consensus with parents first: if the store does what a store does and was
  empty, and neither identifiers of headers nor keys of batches collide with digests of parents, then
  the certificates of a certified set that a run hands to the consensus, each once, come after their
  parents, and Tusk processes them without a panic.
\<close>

theorem primary_feeds_tusk:
  assumes "store_law e" and "stored e db = {}" and "primary_new e db = Inr p0" and "primary_run e evs p0 = Inr (p, out)"
    and "stake_ok (env_committee e)" and "certified_dag (sha512_of e) (env_committee e) G"
    and "set (to_consensus out) \<subseteq> G" and "distinct (to_consensus out)"
    and "inj_on (cert_digest (sha512_of e)) (G \<union> set (genesis (env_committee e)))"
    and "\<Union> (other_keys ` set evs) \<inter> \<Union> ((\<lambda>x. set (parents (header x))) ` set (to_consensus out)) = {}"
  shows "causal (sha512_of e) G (to_consensus out)
    \<and> (\<exists>ldrs ordered st. tusk_run (sha512_of e) (env_committee e) (env_gc_depth e) (to_consensus out) = Inr (ldrs, ordered, st))"
proof -
  let ?cs = "to_consensus out" and ?D = "cert_digest (sha512_of e)"
  have "y \<in> set (take i ?cs)" if i: "i < length ?cs" and y: "y \<in> parents_in (sha512_of e) G (?cs ! i)" for i y
  proof -
    have yG: "y \<in> G" and yp: "?D y \<in> set (parents (header (?cs ! i)))" using y by (simp_all add: parents_in_def)
    have "?D y \<notin> \<Union> (other_keys ` set evs)" using assms(10) yp nth_mem [OF i] by blast
    then consider "?D y \<in> genesis_keys e" | "?D y \<in> ?D ` set (take i ?cs)"
      using primary_feeds_digests [OF assms(1-4) i] yp by blast
    then show ?thesis
    proof cases
      case 1
      then obtain g where g: "g \<in> set (genesis (env_committee e))" "?D y = ?D g"
        by (auto simp: genesis_keys_def genesis_digests_def)
      have "y = g" using inj_onD [OF assms(9) g(2)] yG g(1) by blast
      then have "cert_round y = 0" using g(1) by (auto simp: genesis_def cert_round_def header_default_def)
      then show ?thesis using assms(6) yG by (auto simp: certified_dag_def)
    next
      case 2
      then obtain z where z: "z \<in> set (take i ?cs)" "?D y = ?D z" by blast
      have "z \<in> G" using z(1) assms(7) by (meson in_set_takeD subsetD)
      then show ?thesis using inj_onD [OF assms(9) z(2)] yG z(1) by blast
    qed
  qed
  then have c: "causal (sha512_of e) G ?cs" using assms(7,8) by (auto simp: causal_def)
  with tusk_certified [OF assms(5,6) c] show ?thesis by blast
qed

lemma sample_fed_certified: "certified_dag short_hash sample_committee (set sample_fed)"
  unfolding certified_dag_def inj_on_def cert_key_eq by code_simp

theorem primary_feeds_tusk_witness:
  "causal short_hash (set sample_fed) sample_fed
   \<and> (\<exists>ldrs ordered st. tusk_run short_hash sample_committee 50 sample_fed = Inr (ldrs, ordered, st))"
proof (rule sample_runE)
  fix p0 p out
  assume r: "primary_new sample_env [] = Inr p0" "primary_run sample_env sample_events p0 = Inr (p, out)"
    "to_consensus out = sample_fed"
  have env: "sha512_of sample_env = short_hash" "env_committee sample_env = sample_committee" "env_gc_depth sample_env = 50"
    by (simp_all add: sample_env_def)
  have law: "store_law sample_env" "stored sample_env [] = {}"
    by (simp_all add: store_law_def stored_def sample_env_def list_get_def list_put_def)
  have inj: "inj_on (cert_digest short_hash) (set sample_fed \<union> set (genesis sample_committee))"
    unfolding inj_on_def by code_simp
  have keys: "\<Union> (other_keys ` set sample_events) \<inter> \<Union> ((\<lambda>x. set (parents (header x))) ` set sample_fed) = {}" "distinct sample_fed"
    by code_simp+
  show ?thesis
    using primary_feeds_tusk [OF law r(1,2), of "set sample_fed"] sample_stake sample_fed_certified inj keys
    unfolding env r(3) by simp
qed

section \<open>Certificates from votes\<close>

text \<open>
  C37. Votes become a certificate that others accept: from any sequence of votes that a primary has
  checked for its verified header, repeated ones included, the aggregator assembles a certificate
  exactly when the voters hold a quorum of the stake, never two, and every primary with the same
  committee verifies it. Checking a batch of signatures is assumed to succeed when each is valid.
\<close>

theorem assembled_certificates_verify:
  assumes "stake_ok c" and "header_verify sha512 sig_ok c h = Inr ()"
    and "\<forall>v \<in> set vs. vote_verify sha512 sig_ok c v = Inr () \<and> vote_id v = header_id h
      \<and> vote_origin v = author h \<and> vote_round v = round h"
    and "\<forall>d ps. (\<forall>(k, s) \<in> set ps. sig_ok d k s) \<longrightarrow> batch_ok d ps"
    and "assemble c h vs votes_aggregator_new = (xs, ag)"
  shows "length xs = (if unat (stake_quorum c) \<le> votes_stake c (vote_author ` set vs) then 1 else 0)
    \<and> (\<forall>x \<in> set xs. header x = h \<and> cert_verify sha512 sig_ok batch_ok c x = Inr ())"
proof -
  have "vote_author v \<in> fst ` set (members c)" if "v \<in> set vs" for v
    using vote_verified(1) [of sha512 sig_ok c v] stake_member assms(3) that by blast
  then have inv: "assemble_inv c h vs xs ag" using assemble_inv_all [OF assms(1) _ assms(5)] by blast
  have "cert_verify sha512 sig_ok batch_ok c x = Inr ()" if a: "assembled c h vs x" for x
  proof (rule assembled_verify [OF assms(1) a _ assms(2)])
    show "vote_verify sha512 sig_ok c v = Inr () \<and> vote_id v = header_id h \<and> vote_origin v = author h \<and> vote_round v = round h"
      if "v \<in> set vs" for v using assms(3) that by blast
    show "batch_ok d ps" if "\<And>k s. (k, s) \<in> set ps \<Longrightarrow> sig_ok d k s" for d ps using assms(4) that by blast
  qed
  then show ?thesis
    using inv by (auto simp: assemble_inv_def assembled_def split: if_splits)
qed

definition sample_header :: Header where
  "sample_header = header_new short_hash (\<lambda>_. signature_default) [0] 1 [] [[0, 0], [1, 0], [2, 0]]"

definition sample_votes :: "Vote list" where
  "sample_votes = map (\<lambda>a. vote_new short_hash (\<lambda>_. signature_default) sample_header [a]) [0, 1, 1, 3]"

theorem assembled_certificates_verify_witness:
  "\<exists>x. fst (assemble sample_committee sample_header sample_votes votes_aggregator_new) = [x]
    \<and> cert_verify short_hash (\<lambda>_ _ _. True) (\<lambda>_ _. True) sample_committee x = Inr ()"
proof -
  obtain xs ag where a: "assemble sample_committee sample_header sample_votes votes_aggregator_new = (xs, ag)"
    by fastforce
  have h: "header_verify short_hash (\<lambda>_ _ _. True) sample_committee sample_header = Inr ()" by code_simp
  have v: "\<forall>v \<in> set sample_votes. vote_verify short_hash (\<lambda>_ _ _. True) sample_committee v = Inr ()
      \<and> vote_id v = header_id sample_header \<and> vote_origin v = author sample_header \<and> vote_round v = round sample_header"
    by code_simp
  have "vote_author ` set sample_votes = {[0], [1], [3]}" by code_simp
  then have "votes_stake sample_committee (vote_author ` set sample_votes) = 3"
    by (simp add: votes_stake_def stake_def sample_committee_def sample_authority_def)
  moreover have "unat (stake_quorum sample_committee) = 3" by code_simp
  ultimately have "length xs = 1" "\<forall>x \<in> set xs. cert_verify short_hash (\<lambda>_ _ _. True) (\<lambda>_ _. True) sample_committee x = Inr ()"
    using assembled_certificates_verify [OF sample_stake h v _ a, of "\<lambda>_ _. True"] by simp_all
  then show ?thesis using a by (auto simp: length_Suc_conv)
qed

section \<open>Headers\<close>

text \<open>
  C38. The headers of a proposer are well formed: each names its author, carries the digest and the
  signature of its content, has parents and holds its collections in order without repetition, so
  that every primary verifies it while the proposer is a member and its workers are known; the
  rounds strictly rise, so that it never makes two headers for a round; and the digests in the
  headers with the digests still held are those that the workers have reported.
\<close>

theorem proposer_headers_wf:
  assumes "proposer_run e is (proposer_new e c) = (hs, p)" and "0 < stake c (prop_name e)"
    and "\<forall>d. sig_ok d (prop_name e) (prop_sign e d)" and "\<forall>(d, w) \<in> set (received is). \<not> isl (worker c (prop_name e) w)"
  shows "list_all (\<lambda>h. header_wf e h \<and> header_verify (prop_sha512 e) sig_ok c h = Inr ()) hs
    \<and> sorted_wrt (<) (map round hs)
    \<and> (\<Union>h \<in> set hs. fst ` set (payload h)) \<union> fst ` set (digests p) = fst ` set (received is)"
proof -
  have inv: "proposer_inv e (set (received is)) hs p"
    using proposer_run_inv [OF proposer_new_inv assms(1)] by simp
  have "header_wf e h \<and> header_verify (prop_sha512 e) sig_ok c h = Inr ()" if h: "h \<in> set hs" for h
  proof -
    have wf: "header_wf e h" "set (payload h) \<subseteq> set (received is)"
      using inv h by (auto simp: proposer_inv_def accounts_def list_all_iff)
    then have "\<not> isl (worker c (prop_name e) w)" if "(d, w) \<in> set (payload h)" for d w using assms(4) that by blast
    with header_wf_verify [OF wf(1) assms(2)] assms(3) wf(1) show ?thesis by blast
  qed
  with inv show ?thesis by (simp add: proposer_inv_def accounts_def list_all_iff)
qed

definition sample_proposer :: ProposerEnv where
  "sample_proposer = \<lparr>prop_name = [0], prop_sha512 = short_hash, prop_sign = (\<lambda>_. signature_default), prop_header_size = 2\<rparr>"

definition worker_committee :: NarwhalCommittee where
  "worker_committee =
     \<lparr>members = map (\<lambda>a. ([a], sample_authority\<lparr>workers_of :=
        [(5, \<lparr>transactions_address = '''', worker_to_worker = '''', primary_to_worker = ''''\<rparr>)]\<rparr>)) [0, 1, 2, 3]\<rparr>"

definition sample_inputs :: "(bool \<times> ProposerInput) list" where
  "sample_inputs =
     [(False, FromWorkers [3] 5), (False, FromWorkers [2] 5), (False, FromWorkers [2] 5), (False, FromCore [[1]] 1),
      (False, FromCore [[0]] 0), (True, TimerFired)]"

theorem proposer_headers_wf_witness:
  "list_all (\<lambda>h. header_verify short_hash (\<lambda>_ _ _. True) worker_committee h = Inr ())
       (fst (proposer_run sample_proposer sample_inputs (proposer_new sample_proposer worker_committee)))
   \<and> length (fst (proposer_run sample_proposer sample_inputs (proposer_new sample_proposer worker_committee))) = 2"
proof -
  obtain hs p where r: "proposer_run sample_proposer sample_inputs (proposer_new sample_proposer worker_committee) = (hs, p)"
    by fastforce
  have m: "0 < stake worker_committee (prop_name sample_proposer)"
    "\<forall>(d, w) \<in> set (received sample_inputs). \<not> isl (worker worker_committee (prop_name sample_proposer) w)" by code_simp+
  have "prop_sha512 sample_proposer = short_hash" by (simp add: sample_proposer_def)
  with proposer_headers_wf [OF r m(1) _ m(2), of "\<lambda>_ _ _. True"]
  have "list_all (\<lambda>h. header_verify short_hash (\<lambda>_ _ _. True) worker_committee h = Inr ()) hs"
    by (simp add: list_all_iff)
  moreover have "length (fst (proposer_run sample_proposer sample_inputs (proposer_new sample_proposer worker_committee))) = 2"
    by code_simp
  ultimately show ?thesis by (simp add: r)
qed

text \<open>
  C40. The search for the history of a leader ends: the loop of \<open>order_dag\<close> makes at most one round
  for every digest in the map and one for the leader, whatever the map holds, cycles included.
\<close>

theorem dfs_rounds_bounded: "length (dfs d lc [x] {}) \<le> Suc (card (dag_digests d))"
proof -
  have "length (dfs d lc buffer seen) \<le> dfs_work d (buffer, seen)" for buffer seen
  proof (induction d lc buffer seen rule: dfs.induct)
    case (2 d lc x buffer seen)
    obtain b s where v: "fold (visit_parent d lc x) (parents (header x)) (buffer, seen) = (b, s)" by fastforce
    have "length (dfs d lc b s) \<le> dfs_work d (b, s)" using 2 v by simp
    also have "\<dots> \<le> dfs_work d (buffer, seen)" using visit_parents_work v by metis
    finally show ?case using v by (simp add: dfs.simps(2) dfs_work_def)
  qed simp
  then have "length (dfs d lc [x] {}) \<le> dfs_work d ([x], {})" .
  then show ?thesis by (simp add: dfs_work_def)
qed

section \<open>Workers and store\<close>


text \<open>A codec for batches: every byte after a one, and a zero behind every transaction.\<close>

definition byte_enc :: "WorkerMessage \<Rightarrow> u8 list" where
  "byte_enc m = (case m of WBatch b \<Rightarrow> concat (map (\<lambda>t. concat (map (\<lambda>x. [1, x]) t) @ [0]) b) | _ \<Rightarrow> [])"

fun byte_dec :: "u8 list \<Rightarrow> u8 list \<Rightarrow> Batch" where
  "byte_dec t [] = []"
| "byte_dec t [x] = [t]"
| "byte_dec t (x # y # bs) = (if x = 0 then t # byte_dec [] (y # bs) else byte_dec (t @ [y]) bs)"

lemma byte_dec_end: "byte_dec t (0 # bs) = t # byte_dec [] bs"
  by (cases bs) simp_all

lemma byte_dec_tx: "byte_dec s (concat (map (\<lambda>x. [1, x]) t) @ bs) = byte_dec (s @ t) bs"
  by (induction t arbitrary: s) simp_all

lemma byte_dec_enc: "byte_dec [] (byte_enc (WBatch b)) = b"
proof (induction b)
  case (Cons t b)
  have "byte_dec [] (byte_enc (WBatch (t # b))) = byte_dec [] (concat (map (\<lambda>x. [1, x]) t) @ 0 # byte_enc (WBatch b))"
    by (simp add: byte_enc_def)
  then show ?case using Cons by (simp add: byte_dec_tx byte_dec_end)
qed (simp add: byte_enc_def)

definition sample_worker :: "(u8 list \<times> u8 list) list WorkerEnv" where
  "sample_worker =
     \<lparr>w_name = [0], w_id = 5, w_committee = worker_committee, w_batch_size = 3, w_gc_depth = 50, w_sync_retry_delay = 1,
      w_sync_retry_nodes = 1, w_sha512 = (\<lambda>bs. bs), w_enc = byte_enc, w_dec = (\<lambda>bs. Inr (WBatch (byte_dec [] bs))),
      w_get = list_get, w_put = list_put\<rparr>"

definition sample_work :: "WorkerEvent list" where
  "sample_work =
     [ClientEvent (ClientTransaction [1, 2]) [], ClientEvent (ClientTransaction [3]) [[1], [2]],
      ClientEvent (ClientTransaction [4]) [], ClientEvent BatchTimer [[1]], ClientEvent (ClientTransaction [5]) []]"


text \<open>
  The store answers its readers: over any sequence of commands every request to be notified is
  answered once or still waits, and no reader waits for a key that is in the store.
\<close>

theorem store_answers_readers:
  assumes "db_law get put" and "store_run get put cs (store_new db) = (st, out)"
  shows "mset (notified out) + pending_readers st = mset (asked cs)
    \<and> (\<forall>k v. get k (store_db st) = Inr (Some v) \<longrightarrow> waiting_readers k st = [])"
  using store_run_inv [OF assms(1) store_new_inv(1) assms(2)] waiting_stored [of get st]
  by (simp add: store_new_inv(2) add.commute)

theorem store_answers_readers_witness:
  "case store_run list_get list_put [NotifyRead [1] ''a'', StoreWrite [1] [9], NotifyRead [1] ''b'', NotifyRead [2] ''c''] (store_new [])
   of (st, out) \<Rightarrow> notified out = [''a'', ''b''] \<and> pending_readers st = {#''c''#} \<and> waiting_readers [1] st = []"
proof -
  let ?cs = "[NotifyRead [1] ''a'', StoreWrite [1] [9], NotifyRead [1] ''b'', NotifyRead [2] ''c'']"
  obtain st out where r: "store_run list_get list_put ?cs (store_new []) = (st, out)" by fastforce
  have law: "db_law list_get list_put" by (simp add: db_law_def list_get_def list_put_def)
  note t = store_answers_readers [OF law r]
  have f: "notified out = [''a'', ''b'']" "list_get [1] (store_db st) = Inr (Some [9])"
    using r by (auto simp: store_new_def list_get_def list_put_def waiting_readers_def notified_def)
  have "mset (asked ?cs) = {#''a'', ''b'', ''c''#}" by (simp add: asked_def)
  then have "pending_readers st = {#''c''#}" using t f(1) by simp
  with t f r show ?thesis by simp
qed

end
