(* ===== verification/Spec2Isabelle.thy ===== *)
theory Spec2Isabelle
  imports StablecoinProperties OrderingProperties Mp3Properties ConsensusProperties NarwhalProperties
begin

text \<open>
  A verification of the stablecoin system. The repository has three programs: LEAP
  (\<open>src/leap\<close>), which executes a block of stablecoin transactions in parallel; MP3-BFT++
  (\<open>src/mp3bft\<close>), a consensus with parallel slots below a chain of macro blocks; and a fork of Narwhal
  (\<open>src/narwhal\<close>), a mempool of workers and primaries with two consensus protocols on its graph of
  certificates. Narwhal orders certificates of batches, CADO orders the transactions of a block,
  and LEAP executes them with the result of the serial execution.

  \<^bold>\<open>Conventions.\<close> \<open>Prelude\<close> has the types and the results: a panic of the source is a value of
  \<open>fault\<close>, a computation that may panic has type \<open>'a rust\<close>, and \<open>Result\<close> values of the source are sums.
  Amounts, nonces, stakes, views and heights are words of the source's width, and their arithmetic
  wraps where the source's does. Indices, lengths and the rounds of Narwhal are natural numbers: they
  count objects in memory or rounds since the start and stay far below \<open>2 ^ 64\<close>, but subtractions that
  can underflow are faults. Hash maps are association lists or functions, and where the source
  iterates over a map the order is the order of the list, which the theorems leave open. Hashes,
  signatures, the codec and the key-value store are not part of the repository: they are arguments,
  with what is used of them as hypotheses. Logging, clocks and channels are not modelled: what arrives
  is an input of a step, what is sent is an output.

  \<^bold>\<open>LEAP, the engine.\<close> \<open>Task\<close> (\<open>task.rs\<close>, \<open>errors.rs\<close>) has the transactions as
  programs that read a view. \<open>MVMemory\<close> (\<open>mvmemory.rs\<close>), \<open>TxnIO\<close> (\<open>txn_last_input_output.rs\<close>,
  \<open>outcome_array.rs\<close>) and \<open>Scheduler\<close> (\<open>scheduler.rs\<close>) model the shared structures, \<open>Executor\<close> and
  \<open>ParallelExecutor\<close> (\<open>executor.rs\<close>) the workers and the whole call. \<open>SchedulerInv\<close> and
  \<open>SchedulerFinish\<close> prove the invariant of the scheduler, \<open>EngineMemory\<close>, \<open>EngineInv\<close> and \<open>EngineStep\<close>
  the invariant of memory and scheduler together, \<open>EngineSafety\<close> that a finished block is serial,
  \<open>EngineNoFault\<close> the absence of panics, and \<open>EngineRuns\<close> has executable runs.
  \<open>LeapProperties\<close> holds the properties. \<open>LeapConfig\<close> (\<open>config.rs\<close>) and \<open>Backpressure\<close> (\<open>backpressure.rs\<close>,
  over the double arithmetic of \<open>F64\<close>) model the configuration and the window controller.

  \<^bold>\<open>LEAP, the stablecoin.\<close> \<open>StablecoinTx\<close>, \<open>HotDelta\<close> and \<open>Stablecoin\<close> (\<open>stablecoin.rs\<close>,
  \<open>hot_delta.rs\<close>) model transactions, shards of hot accounts, the virtual machine, the serial
  reference and the aggregation; \<open>Bytes\<close> has byte strings. \<open>StablecoinRefine\<close>, \<open>StablecoinBlock\<close> and
  \<open>StablecoinAggregate\<close> prove that the machine refines the reference transaction by transaction, block
  by block and after aggregation. \<open>Cado\<close> (\<open>cado.rs\<close>) and \<open>DomainPlan\<close> (\<open>domain_plan.rs\<close>) model the
  ordering and the plan. \<open>StablecoinProperties\<close> and \<open>OrderingProperties\<close> hold the properties.

  \<^bold>\<open>MP3-BFT++.\<close> \<open>Mp3Types\<close> (\<open>types.rs\<close>, \<open>config.rs\<close>), \<open>SlotLayer\<close> (\<open>slot_layer.rs\<close>,
  \<open>anti_duplication.rs\<close>), \<open>MacroLayer\<close> (\<open>macro_layer.rs\<close>, \<open>control_plane/mod.rs\<close>) and \<open>Mp3Engine\<close>
  (\<open>view_change.rs\<close>, \<open>data_plane.rs\<close>, \<open>cado.rs\<close>, the view loop of \<open>main.rs\<close>). \<open>Quorum\<close> has the
  interface that both vote collectors implement. \<open>Mp3Properties\<close> holds the properties.

  \<^bold>\<open>Narwhal, the consensus.\<close> \<open>NarwhalTypes\<close> (\<open>config/src/lib.rs\<close>, \<open>messages.rs\<close>, \<open>error.rs\<close>);
  \<open>ConsensusDag\<close> and \<open>Tusk\<close> (\<open>consensus/src/lib.rs\<close>); \<open>Mp3Consensus\<close> (\<open>mp3bft.rs\<close>). \<open>DagState\<close> and
  \<open>DagSearch\<close> prove what the map of certificates holds and what the search returns, \<open>CertifiedDag\<close> the
  theory of certified sets, \<open>TuskSafety\<close> and \<open>Mp3Safety\<close> the safety of the two protocols.
  \<open>ConsensusSamples\<close> has concrete runs and \<open>ConsensusProperties\<close> the properties.

  \<^bold>\<open>Narwhal, the mempool.\<close> \<open>PrimaryCore\<close> (\<open>core.rs\<close>, \<open>aggregators.rs\<close>, \<open>synchronizer.rs\<close>,
  \<open>payload_receiver.rs\<close>, \<open>garbage_collector.rs\<close>), \<open>Proposer\<close> (\<open>proposer.rs\<close>), \<open>Waiters\<close>
  (\<open>header_waiter.rs\<close>, \<open>certificate_waiter.rs\<close>, \<open>helper.rs\<close>, the network handler of \<open>primary.rs\<close>),
  \<open>Store\<close> (\<open>store/src/lib.rs\<close>) and \<open>WorkerNode\<close> (\<open>worker/src\<close>). \<open>PrimaryInv\<close> proves that votes are not
  repeated, \<open>PrimaryFeed\<close> that certificates reach the consensus after their parents, \<open>Aggregation\<close>
  that assembled certificates verify. \<open>NarwhalProperties\<close> holds the properties.

  \<^bold>\<open>Not modelled.\<close> TCP connections and retries (\<open>narwhal/network\<close>), the signature library and its
  wrappers (\<open>narwhal/crypto\<close>), command lines, spawning of tasks, configuration files, the random
  workload generator of \<open>stablecoin.rs\<close>, the timing and printing of the benchmarks and drivers
  (\<open>main.rs\<close>, \<open>bin\<close>, \<open>e2e\<close>), and the upstream Diem sources in \<open>Block-STM\<close>.
\<close>

end
